(* ===== verification/Prelude.thy ===== *)
theory Prelude
  imports Main "HOL-Library.Word" "HOL-Library.Monad_Syntax"
begin

text \<open>
  What every component shares: the C integer types as words, the errno values and the kernel's
  timeout constants, bit tests, byte buffers with an index check, the invariant and reachability
  locale, and the collections of simplification rules the component theories fill.

  Conventions of the whole development. An \<open>int\<close> result of a C function is an \<open>int\<close>
  with negative errno values as the source returns them; \<open>uint8_t\<close>, \<open>uint16_t\<close>,
  \<open>uint32_t\<close> values that may wrap are words. \<open>printk\<close>, \<open>LOG_*\<close>, tracing hooks and
  spin locks have no effect in the model (the kernel configuration is a uniprocessor without
  user space, see \<open>build/zephyr/.config\<close>).
\<close>

unbundle bit_operations_syntax

named_theorems kernel_simps \<open>unfolding rules of the kernel object operations\<close>
named_theorems wf_intros \<open>preservation of the kernel well-formedness invariant\<close>

section \<open>C integer types and return codes\<close>

type_synonym u8 = "8 word"
type_synonym u16 = "16 word"
type_synonym u32 = "32 word"
type_synonym u64 = "64 word"

abbreviation (input) EIO :: int where "EIO \<equiv> 5"
abbreviation (input) EAGAIN :: int where "EAGAIN \<equiv> 11"
abbreviation (input) ENOMEM :: int where "ENOMEM \<equiv> 12"
abbreviation (input) EBUSY :: int where "EBUSY \<equiv> 16"
abbreviation (input) EINVAL :: int where "EINVAL \<equiv> 22"
abbreviation (input) EDEADLK :: int where "EDEADLK \<equiv> 33"
abbreviation (input) EMSGSIZE :: int where "EMSGSIZE \<equiv> 36"
abbreviation (input) ENOTCONN :: int where "ENOTCONN \<equiv> 57"
abbreviation (input) ENOSYS :: int where "ENOSYS \<equiv> 71"
abbreviation (input) ENOMSG :: int where "ENOMSG \<equiv> 80"

text \<open>\<open>k_timeout_t\<close>: a tick count, with \<open>K_NO_WAIT\<close> and \<open>K_FOREVER\<close> as in sys_clock.h.\<close>

type_synonym k_timeout = int

abbreviation (input) K_NO_WAIT :: k_timeout where "K_NO_WAIT \<equiv> 0"
abbreviation (input) K_FOREVER :: k_timeout where "K_FOREVER \<equiv> - 1"

section \<open>Lists\<close>

text \<open>Stable insertion: after every element whose key is not larger.\<close>

fun insort_stable :: "('a \<Rightarrow> int) \<Rightarrow> 'a \<Rightarrow> 'a list \<Rightarrow> 'a list" where
  "insort_stable f x [] = [x]"
| "insort_stable f x (y # ys) = (if f x < f y then x # y # ys else y # insort_stable f x ys)"

lemma set_insort_stable [simp]: "set (insort_stable f x xs) = insert x (set xs)"
  by (induction xs) auto

lemma distinct_insort_stable [simp]: "distinct (insort_stable f x xs) \<longleftrightarrow> x \<notin> set xs \<and> distinct xs"
  by (induction xs) auto

lemma length_insort_stable [simp]: "length (insort_stable f x xs) = Suc (length xs)"
  by (induction xs) auto

lemma insort_stable_not_Nil [simp]: "insort_stable f x xs \<noteq> []"
  by (cases xs) auto

lemma sorted_insort_stable:
  "sorted (map f xs) \<Longrightarrow> sorted (map f (insort_stable f x xs))"
  by (induction xs) auto

lemma insort_stable_split:
  "sorted (map f xs) \<Longrightarrow>
   insort_stable f x xs = filter (\<lambda>y. f y \<le> f x) xs @ x # filter (\<lambda>y. f x < f y) xs"
proof (induction xs)
  case (Cons y ys)
  show ?case
  proof (cases "f x < f y")
    case True
    with Cons.prems have "\<forall>z \<in> set ys. f x < f z" by auto
    with True show ?thesis by (auto simp: filter_empty_conv)
  next
    case False
    with Cons show ?thesis by simp
  qed
qed simp

section \<open>Indices of rings\<close>

lemma mod_add_neq: "i < j \<Longrightarrow> j < n \<Longrightarrow> (r + i) mod n \<noteq> (r + j) mod n" for r :: nat
proof
  assume "i < j" "j < n" and eq: "(r + i) mod n = (r + j) mod n"
  then have "n dvd j - i" using mod_eq_dvd_iff_nat [of "r + i" "r + j" n] by simp
  with \<open>i < j\<close> \<open>j < n\<close> show False using nat_dvd_not_less [of "j - i" n] by simp
qed

section \<open>Words\<close>

lemma unat_inc:
  fixes x y :: "'a :: len word"
  assumes "x < y"
  shows "unat (x + 1) = Suc (unat x)"
proof -
  have "unat x < unat y" using assms by (simp add: word_less_nat_alt)
  moreover have "unat y < 2 ^ LENGTH('a)" by (rule unsigned_less)
  ultimately have "Suc (unat x) < 2 ^ LENGTH('a)" by linarith
  then show ?thesis by (simp add: unat_word_ariths)
qed

lemma unat_dec: "0 < x \<Longrightarrow> Suc (unat (x - 1)) = unat x" for x :: "'a :: len word"
  by (simp add: unat_minus_one word_gt_0 unat_gt_0)

text \<open>A property of small words, checked on all of them.\<close>

lemma word_exhaust: "list_all (\<lambda>n. P (of_nat n)) [0..<N] \<Longrightarrow> unat x < N \<Longrightarrow> P x"
  by (auto simp: list_all_iff dest: bspec [of _ _ "unat x"])

section \<open>Reachable states\<close>

text \<open>
  A component as a transition system: an invariant that holds of the initial states and that
  every step keeps, holds of every reachable state. Each component interprets this locale on
  its own step relation.
\<close>

inductive reachable :: "('s \<Rightarrow> bool) \<Rightarrow> ('s \<Rightarrow> 's \<Rightarrow> bool) \<Rightarrow> 's \<Rightarrow> bool"
  for init :: "'s \<Rightarrow> bool" and step :: "'s \<Rightarrow> 's \<Rightarrow> bool" where
  reach_init: "init s \<Longrightarrow> reachable init step s"
| reach_step: "reachable init step s \<Longrightarrow> step s t \<Longrightarrow> reachable init step t"

locale invariant_system =
  fixes init :: "'s \<Rightarrow> bool"
    and step :: "'s \<Rightarrow> 's \<Rightarrow> bool"
    and inv :: "'s \<Rightarrow> bool"
  assumes inv_init: "init s \<Longrightarrow> inv s"
    and inv_step: "inv s \<Longrightarrow> step s t \<Longrightarrow> inv t"
begin

lemma reachable_inv: "reachable init step s \<Longrightarrow> inv s"
  by (induction rule: reachable.induct) (auto intro: inv_init inv_step)

end

end
