(* ===== verification/Timeout.thy ===== *)
theory Timeout
  imports Prelude
begin

text \<open>
  The kernel's timeout queue, \<open>kernel/timeout.c\<close>: a list of timeouts in which each node holds
  the tick distance to its predecessor. A node is named by a key of type \<open>'k\<close>; the address
  order of the list is the order of the HOL list. \<open>sys_clock_elapsed()\<close>, the ticks since
  the last announcement, is read from the timer driver and is the argument \<open>el\<close>.
  Shown here: adding, aborting and announcing are the obvious operations on the list of
  absolute deadlines.
\<close>

section \<open>State\<close>

record 'k timeout_state =
  timeout_list :: "('k \<times> int) list"
  curr_tick :: int
  announce_remaining :: int
  slice_ticks :: int
  hw_timeout :: "int list" \<comment> \<open>values handed to \<open>sys_clock_set_timeout\<close>, newest first\<close>

definition MAX_WAIT :: int where
  "MAX_WAIT = 2147483647"

definition Z_TICK_ABS :: "int \<Rightarrow> int" where
  "Z_TICK_ABS t = K_FOREVER - 1 - t"

section \<open>Operations\<close>

fun remove_timeout :: "'k \<Rightarrow> ('k \<times> int) list \<Rightarrow> ('k \<times> int) list" where
  "remove_timeout k [] = []"
| "remove_timeout k [(t, d)] = (if t = k then [] else [(t, d)])"
| "remove_timeout k ((t, d) # (t', d') # r) =
     (if t = k then (t', d' + d) # r else (t, d) # remove_timeout k ((t', d') # r))"

definition elapsed :: "int \<Rightarrow> ('k, 'z) timeout_state_scheme \<Rightarrow> int" where
  "elapsed el s = (if announce_remaining s = 0 then el else 0)"

definition next_timeout :: "int \<Rightarrow> ('k, 'z) timeout_state_scheme \<Rightarrow> int" where
  "next_timeout el s =
     (let ret = (case timeout_list s of
                   [] \<Rightarrow> MAX_WAIT
                 | (_, d) # _ \<Rightarrow> max 0 (min MAX_WAIT (d - elapsed el s)))
      in if slice_ticks s \<noteq> 0 \<and> slice_ticks s < ret then slice_ticks s else ret)"

fun insert_timeout :: "'k \<Rightarrow> int \<Rightarrow> ('k \<times> int) list \<Rightarrow> ('k \<times> int) list" where
  "insert_timeout k d [] = [(k, d)]"
| "insert_timeout k d ((t, dt) # r) =
     (if dt > d then (k, d) # (t, dt - d) # r else (t, dt) # insert_timeout k (d - dt) r)"

definition timeout_ticks :: "int \<Rightarrow> k_timeout \<Rightarrow> ('k, 'z) timeout_state_scheme \<Rightarrow> int" where
  "timeout_ticks el timeout s =
     (let ticks = timeout + 1;
          ticks = (if Z_TICK_ABS ticks \<ge> 0
                   then Z_TICK_ABS timeout - (curr_tick s + elapsed el s) else ticks)
      in max 1 ticks)"

definition z_add_timeout ::
  "int \<Rightarrow> 'k \<Rightarrow> k_timeout \<Rightarrow> ('k, 'z) timeout_state_scheme \<Rightarrow> ('k, 'z) timeout_state_scheme" where
  "z_add_timeout el k timeout s =
     (if timeout = K_FOREVER then s
      else
        let ticks = timeout_ticks el timeout s;
            s = s\<lparr>timeout_list := insert_timeout k (ticks + elapsed el s) (timeout_list s)\<rparr>
        in if fst (hd (timeout_list s)) = k
           then let next_time = next_timeout el s
                in if next_time = 0 \<or> slice_ticks s \<noteq> next_time
                   then s\<lparr>hw_timeout := next_time # hw_timeout s\<rparr> else s
           else s)"

definition z_is_inactive_timeout :: "'k \<Rightarrow> ('k, 'z) timeout_state_scheme \<Rightarrow> bool" where
  "z_is_inactive_timeout k s \<longleftrightarrow> k \<notin> fst ` set (timeout_list s)"

definition z_abort_timeout ::
  "'k \<Rightarrow> ('k, 'z) timeout_state_scheme \<Rightarrow> int \<times> ('k, 'z) timeout_state_scheme" where
  "z_abort_timeout k s =
     (if \<not> z_is_inactive_timeout k s
      then (0, s\<lparr>timeout_list := remove_timeout k (timeout_list s)\<rparr>)
      else (- EINVAL, s))"

fun sum_until :: "'k \<Rightarrow> ('k \<times> int) list \<Rightarrow> int" where
  "sum_until k [] = 0"
| "sum_until k ((t, d) # r) = (if k = t then d else d + sum_until k r)"

definition timeout_rem :: "int \<Rightarrow> 'k \<Rightarrow> ('k, 'z) timeout_state_scheme \<Rightarrow> int" where
  "timeout_rem el k s =
     (if z_is_inactive_timeout k s then 0 else sum_until k (timeout_list s) - elapsed el s)"

definition z_timeout_remaining :: "int \<Rightarrow> 'k \<Rightarrow> ('k, 'z) timeout_state_scheme \<Rightarrow> int" where
  "z_timeout_remaining el k s = timeout_rem el k s"

definition z_timeout_expires :: "int \<Rightarrow> 'k \<Rightarrow> ('k, 'z) timeout_state_scheme \<Rightarrow> int" where
  "z_timeout_expires el k s = curr_tick s + timeout_rem el k s"

definition z_get_next_timeout_expiry :: "int \<Rightarrow> ('k, 'z) timeout_state_scheme \<Rightarrow> int" where
  "z_get_next_timeout_expiry el s = next_timeout el s"

definition z_set_timeout_expiry ::
  "int \<Rightarrow> int \<Rightarrow> ('k, 'z) timeout_state_scheme \<Rightarrow> ('k, 'z) timeout_state_scheme" where
  "z_set_timeout_expiry el ticks s =
     (let next_to = next_timeout el s;
          sooner = (next_to = K_FOREVER \<or> ticks \<le> next_to);
          imminent = next_to \<le> 1
      in if \<not> imminent \<and> sooner then s\<lparr>hw_timeout := min ticks next_to # hw_timeout s\<rparr> else s)"

text \<open>
  The loop of \<open>sys_clock_announce\<close>. The expiry function of a node runs with the lock released
  and may change the queue, so the loop carries fuel: \<open>None\<close> is "not finished yet".
\<close>

fun announce_loop ::
  "nat \<Rightarrow> ('k \<Rightarrow> ('k, 'z) timeout_state_scheme \<Rightarrow> ('k, 'z) timeout_state_scheme) \<Rightarrow>
   ('k, 'z) timeout_state_scheme \<Rightarrow> ('k, 'z) timeout_state_scheme option" where
  "announce_loop 0 fn s = None"
| "announce_loop (Suc fuel) fn s =
     (case timeout_list s of
        [] \<Rightarrow> Some s
      | (t, dt) # r \<Rightarrow>
          if dt \<le> announce_remaining s
          then announce_loop fuel fn
                 (fn t (s\<lparr>curr_tick := curr_tick s + dt,
                          announce_remaining := announce_remaining s - dt,
                          timeout_list := remove_timeout t ((t, 0) # r)\<rparr>))
          else Some s)"

definition announce_finish :: "int \<Rightarrow> ('k, 'z) timeout_state_scheme \<Rightarrow> ('k, 'z) timeout_state_scheme" where
  "announce_finish el s =
     (let s = s\<lparr>timeout_list :=
                  (case timeout_list s of
                     [] \<Rightarrow> []
                   | (t, d) # r \<Rightarrow> (t, d - announce_remaining s) # r)\<rparr>;
          s = s\<lparr>curr_tick := curr_tick s + announce_remaining s, announce_remaining := 0\<rparr>
      in s\<lparr>hw_timeout := next_timeout el s # hw_timeout s\<rparr>)"

definition sys_clock_announce ::
  "nat \<Rightarrow> int \<Rightarrow> ('k \<Rightarrow> ('k, 'z) timeout_state_scheme \<Rightarrow> ('k, 'z) timeout_state_scheme) \<Rightarrow>
   (int \<Rightarrow> ('k, 'z) timeout_state_scheme \<Rightarrow> ('k, 'z) timeout_state_scheme) \<Rightarrow>
   int \<Rightarrow> ('k, 'z) timeout_state_scheme \<Rightarrow> ('k, 'z) timeout_state_scheme option" where
  "sys_clock_announce fuel el fn time_slice ticks s =
     (let s = time_slice ticks s
      in map_option (announce_finish el) (announce_loop fuel fn (s\<lparr>announce_remaining := ticks\<rparr>)))"

definition sys_clock_tick_get :: "int \<Rightarrow> ('k, 'z) timeout_state_scheme \<Rightarrow> int" where
  "sys_clock_tick_get el s = curr_tick s + el"

definition sys_clock_tick_get_32 :: "int \<Rightarrow> ('k, 'z) timeout_state_scheme \<Rightarrow> u32" where
  "sys_clock_tick_get_32 el s = of_int (sys_clock_tick_get el s)"

definition z_impl_k_uptime_ticks :: "int \<Rightarrow> ('k, 'z) timeout_state_scheme \<Rightarrow> int" where
  "z_impl_k_uptime_ticks el s = sys_clock_tick_get el s"

definition sys_clock_timeout_end_calc ::
  "int \<Rightarrow> k_timeout \<Rightarrow> ('k, 'z) timeout_state_scheme \<Rightarrow> int" where
  "sys_clock_timeout_end_calc el timeout s =
     (if timeout = K_FOREVER then 2 ^ 64 - 1
      else if timeout = K_NO_WAIT then sys_clock_tick_get el s
      else if Z_TICK_ABS timeout \<ge> 0 then Z_TICK_ABS timeout
      else sys_clock_tick_get el s + max 1 timeout)"

section \<open>The abstract queue: absolute deadlines\<close>

text \<open>
  The list of (node, deadline) pairs a delta list stands for, relative to a base tick. The
  queue is well formed when no distance is negative and no node is linked twice.
\<close>

fun deadlines :: "int \<Rightarrow> ('k \<times> int) list \<Rightarrow> ('k \<times> int) list" where
  "deadlines b [] = []"
| "deadlines b ((k, d) # r) = (k, b + d) # deadlines (b + d) r"

definition timeouts_wf :: "('k \<times> int) list \<Rightarrow> bool" where
  "timeouts_wf l \<longleftrightarrow> (\<forall>x \<in> set l. 0 \<le> snd x) \<and> distinct (map fst l)"

definition due :: "('k, 'z) timeout_state_scheme \<Rightarrow> 'k list" where
  "due s = map fst (filter (\<lambda>x. snd x \<le> announce_remaining s) (deadlines 0 (timeout_list s)))"

definition pop_timeout :: "('k, 'z) timeout_state_scheme \<Rightarrow> ('k, 'z) timeout_state_scheme" where
  "pop_timeout s =
     s\<lparr>curr_tick := curr_tick s + snd (hd (timeout_list s)),
       announce_remaining := announce_remaining s - snd (hd (timeout_list s)),
       timeout_list := tl (timeout_list s)\<rparr>"

lemma map_fst_deadlines [simp]: "map fst (deadlines b l) = map fst l"
  by (induction l arbitrary: b) auto

lemma keys_deadlines [simp]: "fst ` set (deadlines b l) = fst ` set l"
  by (metis list.set_map map_fst_deadlines)

lemma deadlines_shift: "deadlines (b + c) l = map (\<lambda>(k, d). (k, d + c)) (deadlines b l)"
proof (induction l arbitrary: b)
  case (Cons x l)
  obtain k d where "x = (k, d)" by fastforce
  with Cons [of "b + d"] show ?case by (simp add: ac_simps)
qed simp

lemma deadlines_ge: "timeouts_wf l \<Longrightarrow> x \<in> set (deadlines b l) \<Longrightarrow> b \<le> snd x"
  by (induction l arbitrary: b) (fastforce simp: timeouts_wf_def)+

lemma deadlines_sorted: "timeouts_wf l \<Longrightarrow> sorted (map snd (deadlines b l))"
proof (induction l arbitrary: b)
  case (Cons x l)
  then have "timeouts_wf l" by (simp add: timeouts_wf_def)
  with Cons show ?case by (cases x) (auto dest: deadlines_ge)
qed simp

lemma deadlines_insert:
  "deadlines b (insert_timeout k d l) = insort_stable snd (k, b + d) (deadlines b l)"
  by (induction k d l arbitrary: b rule: insert_timeout.induct) (auto simp: algebra_simps)

lemma keys_insert_timeout [simp]: "fst ` set (insert_timeout k d l) = insert k (fst ` set l)"
  by (induction k d l rule: insert_timeout.induct) auto

lemma timeouts_wf_insert:
  "timeouts_wf l \<Longrightarrow> 0 \<le> d \<Longrightarrow> k \<notin> fst ` set l \<Longrightarrow> timeouts_wf (insert_timeout k d l)"
proof (induction k d l rule: insert_timeout.induct)
  case (2 k d t dt r)
  then have "timeouts_wf r" by (auto simp: timeouts_wf_def)
  show ?case
  proof (cases "dt > d")
    case True
    with "2.prems" show ?thesis by (auto simp: timeouts_wf_def)
  next
    case False
    with 2 \<open>timeouts_wf r\<close> have "timeouts_wf (insert_timeout k (d - dt) r)" by auto
    moreover have "t \<notin> fst ` set (insert_timeout k (d - dt) r)"
      using "2.prems" by (auto simp: timeouts_wf_def)
    ultimately show ?thesis using False "2.prems" by (auto simp: timeouts_wf_def)
  qed
qed (simp add: timeouts_wf_def)

lemma remove_timeout_absent: "k \<notin> fst ` set l \<Longrightarrow> remove_timeout k l = l"
  by (induction k l rule: remove_timeout.induct) auto

lemma keys_remove_timeout:
  "distinct (map fst l) \<Longrightarrow> map fst (remove_timeout k l) = filter (\<lambda>t. t \<noteq> k) (map fst l)"
proof (induction k l rule: remove_timeout.induct)
  case (3 k t d t' d' r)
  show ?case
  proof (cases "t = k")
    case True
    with 3(2) have "filter (\<lambda>t. t \<noteq> k) (map fst r) = map fst r" by (auto simp: filter_id_conv)
    with True 3(2) show ?thesis by auto
  next
    case False
    with 3 show ?thesis by simp
  qed
qed auto

lemma deadlines_remove:
  "distinct (map fst l) \<Longrightarrow>
   deadlines b (remove_timeout k l) = filter (\<lambda>x. fst x \<noteq> k) (deadlines b l)"
proof (induction k l arbitrary: b rule: remove_timeout.induct)
  case (3 k t d t' d' r)
  have key: "(t, e) \<notin> set (deadlines c r)" if "t \<notin> fst ` set r" for c e
    using that by (metis fst_conv image_eqI keys_deadlines)
  show ?case
  proof (cases "t = k")
    case True
    have "filter (\<lambda>x. fst x \<noteq> k) (deadlines (b + d + d') r) = deadlines (b + d + d') r"
      using 3(2) True key by (auto simp: filter_id_conv)
    with True 3(2) show ?thesis by (auto simp: ac_simps)
  next
    case False
    with 3(1) [of "b + d"] 3(2) show ?thesis by simp
  qed
qed auto

lemma timeouts_wf_remove: "timeouts_wf l \<Longrightarrow> timeouts_wf (remove_timeout k l)"
proof -
  assume wf: "timeouts_wf l"
  have "\<forall>x \<in> set (remove_timeout k l). 0 \<le> snd x"
    using wf unfolding timeouts_wf_def
    by (induction k l rule: remove_timeout.induct) auto
  moreover have "distinct (map fst (remove_timeout k l))"
    using wf by (simp add: timeouts_wf_def keys_remove_timeout)
  ultimately show ?thesis by (simp add: timeouts_wf_def)
qed

lemma map_of_insort_stable:
  "k \<notin> fst ` set l \<Longrightarrow> map_of (insort_stable snd (k, d) l) k = Some d"
  by (induction l) auto

lemma sum_until_deadlines:
  "k \<in> fst ` set l \<Longrightarrow> map_of (deadlines b l) k = Some (b + sum_until k l)"
proof (induction l arbitrary: b)
  case (Cons x l)
  obtain t d where "x = (t, d)" by fastforce
  moreover have "k \<in> fst ` set l" if "k \<noteq> t" using Cons.prems that \<open>x = (t, d)\<close> by auto
  ultimately show ?case using Cons.IH [of "b + d"] by auto
qed simp

lemma timeout_ticks_pos: "1 \<le> timeout_ticks el timeout s"
  by (simp add: timeout_ticks_def Let_def)

text \<open>
  \<open>z_add_timeout\<close> inserts the node at its deadline, after the nodes with the same deadline;
  no other deadline changes.
\<close>

lemma timeout_list_add:
  "timeout_list (z_add_timeout el k timeout s) =
     (if timeout = K_FOREVER then timeout_list s
      else insert_timeout k (timeout_ticks el timeout s + elapsed el s) (timeout_list s))"
  by (simp add: z_add_timeout_def Let_def elapsed_def)

lemma z_add_timeout_other [simp]:
  "curr_tick (z_add_timeout el k timeout s) = curr_tick s"
  "announce_remaining (z_add_timeout el k timeout s) = announce_remaining s"
  "slice_ticks (z_add_timeout el k timeout s) = slice_ticks s"
  by (simp_all add: z_add_timeout_def Let_def)

lemma z_abort_timeout_other [simp]:
  "curr_tick (snd (z_abort_timeout k s)) = curr_tick s"
  "announce_remaining (snd (z_abort_timeout k s)) = announce_remaining s"
  "slice_ticks (snd (z_abort_timeout k s)) = slice_ticks s"
  "hw_timeout (snd (z_abort_timeout k s)) = hw_timeout s"
  by (simp_all add: z_abort_timeout_def)

lemma timeout_list_abort:
  "timeout_list (snd (z_abort_timeout k s)) = remove_timeout k (timeout_list s)"
  by (simp add: z_abort_timeout_def z_is_inactive_timeout_def remove_timeout_absent)

section \<open>Announcing ticks\<close>

text \<open>
  What the announcement loop relies on: an expiry function that leaves the queue and the clock
  alone, as the thread timeout handler does.
\<close>

locale expiry_handler =
  fixes fn :: "'k \<Rightarrow> ('k, 'z) timeout_state_scheme \<Rightarrow> ('k, 'z) timeout_state_scheme"
  assumes fn_list [simp]: "timeout_list (fn k s) = timeout_list s"
    and fn_tick [simp]: "curr_tick (fn k s) = curr_tick s"
    and fn_remaining [simp]: "announce_remaining (fn k s) = announce_remaining s"
begin

lemma due_fire:
  assumes "timeout_list s = (t, d) # r" "d \<le> announce_remaining s"
  shows "due s = t # due (fn t (pop_timeout s))"
proof -
  have "deadlines d r = map (\<lambda>(k, e). (k, e + d)) (deadlines 0 r)"
    using deadlines_shift [of 0 d r] by simp
  then show ?thesis
    using assms by (simp add: due_def pop_timeout_def filter_map comp_def case_prod_beta le_diff_eq)
qed

lemma due_stop:
  assumes "timeout_list s = (t, d) # r" "announce_remaining s < d" "timeouts_wf (timeout_list s)"
  shows "due s = []"
proof -
  have "timeouts_wf r" using assms by (simp add: timeouts_wf_def)
  then show ?thesis
    using assms(1,2) deadlines_ge [of r _ d] by (fastforce simp: due_def filter_empty_conv)
qed

lemma announce_loop_due:
  assumes "length (timeout_list s) < fuel" "timeouts_wf (timeout_list s)"
  shows "announce_loop fuel fn s = Some (fold (\<lambda>t s. fn t (pop_timeout s)) (due s) s)"
  using assms
proof (induction fuel arbitrary: s)
  case (Suc fuel)
  show ?case
  proof (cases "timeout_list s")
    case Nil
    then show ?thesis by (simp add: due_def)
  next
    case (Cons x r)
    obtain t d where x: "x = (t, d)" by fastforce
    have pop: "s\<lparr>curr_tick := curr_tick s + d, announce_remaining := announce_remaining s - d,
                 timeout_list := remove_timeout t ((t, 0) # r)\<rparr> = pop_timeout s"
      by (cases r) (auto simp: pop_timeout_def Cons x)
    have r: "timeout_list (pop_timeout s) = r" "timeouts_wf r"
      using Suc.prems Cons by (simp_all add: pop_timeout_def timeouts_wf_def)
    show ?thesis
    proof (cases "d \<le> announce_remaining s")
      case True
      with r show ?thesis
        using Suc.IH [of "fn t (pop_timeout s)"] Suc.prems due_fire [of s t d r]
        by (simp add: Cons x pop)
    next
      case False
      then show ?thesis using due_stop [of s t d r] Suc.prems by (simp add: Cons x)
    qed
  qed
qed simp

text \<open>What holds at the start and after every expiry holds at the end, when nothing is due.\<close>

lemma fold_due_inv:
  assumes "timeouts_wf (timeout_list s)" "I s"
    and "\<And>s t d r. I s \<Longrightarrow> timeout_list s = (t, d) # r \<Longrightarrow> d \<le> announce_remaining s \<Longrightarrow>
           I (fn t (pop_timeout s))"
  defines "s' \<equiv> fold (\<lambda>t s. fn t (pop_timeout s)) (due s) s"
  shows "I s' \<and> due s' = [] \<and> timeouts_wf (timeout_list s')"
  unfolding s'_def using assms(1,2)
proof (induction "length (timeout_list s)" arbitrary: s)
  case 0
  then show ?case by (simp add: due_def)
next
  case (Suc n)
  obtain t d r where l: "timeout_list s = (t, d) # r" using Suc(2) by (cases "timeout_list s") auto
  have r: "timeout_list (pop_timeout s) = r" "timeouts_wf r"
    using Suc.prems l by (simp_all add: pop_timeout_def timeouts_wf_def)
  show ?case
  proof (cases "d \<le> announce_remaining s")
    case True
    with r show ?thesis
      using Suc(1) [of "fn t (pop_timeout s)"] Suc(2) Suc.prems assms(3) [OF _ l] due_fire [OF l]
      by (simp add: l)
  next
    case False
    then show ?thesis using due_stop [OF l] Suc.prems by simp
  qed
qed

lemma fold_due_state:
  assumes "timeouts_wf (timeout_list s)"
  defines "s' \<equiv> fold (\<lambda>t s. fn t (pop_timeout s)) (due s) s"
  shows "curr_tick s' + announce_remaining s' = curr_tick s + announce_remaining s"
    and "map (\<lambda>(k, d). (k, d - announce_remaining s')) (deadlines 0 (timeout_list s')) =
         map (\<lambda>(k, d). (k, d - announce_remaining s))
           (filter (\<lambda>x. announce_remaining s < snd x) (deadlines 0 (timeout_list s)))"
proof -
  define later where "later s = map (\<lambda>(k, d). (k, d - announce_remaining s))
      (filter (\<lambda>x. announce_remaining s < snd x) (deadlines 0 (timeout_list s)))"
    for s :: "('k, 'z) timeout_state_scheme"
  have step: "later (fn t (pop_timeout u)) = later u"
    if "timeout_list u = (t, d) # r" "d \<le> announce_remaining u" for u t d r
    using that deadlines_shift [of 0 d r]
    by (simp add: later_def pop_timeout_def filter_map comp_def case_prod_beta less_diff_eq
        algebra_simps)
  have "(curr_tick s' + announce_remaining s' = curr_tick s + announce_remaining s
         \<and> later s' = later s) \<and> due s' = [] \<and> timeouts_wf (timeout_list s')"
    unfolding s'_def
    by (rule fold_due_inv) (use assms(1) step in \<open>auto simp: pop_timeout_def\<close>)
  moreover from this have "filter (\<lambda>x. announce_remaining s' < snd x) (deadlines 0 (timeout_list s')) =
      deadlines 0 (timeout_list s')"
    by (fastforce simp: due_def filter_empty_conv filter_id_conv)
  ultimately show "curr_tick s' + announce_remaining s' = curr_tick s + announce_remaining s"
    and "map (\<lambda>(k, d). (k, d - announce_remaining s')) (deadlines 0 (timeout_list s')) =
         map (\<lambda>(k, d). (k, d - announce_remaining s))
           (filter (\<lambda>x. announce_remaining s < snd x) (deadlines 0 (timeout_list s)))"
    by (simp_all add: later_def)
qed

end

text \<open>\<open>announce_finish\<close> moves the clock over the ticks left and shortens the first delta.\<close>

lemma deadlines_finish:
  "deadlines 0 (timeout_list (announce_finish el s)) =
   map (\<lambda>(k, d). (k, d - announce_remaining s)) (deadlines 0 (timeout_list s))"
proof (cases "timeout_list s")
  case (Cons x r)
  then show ?thesis
    using deadlines_shift [of "snd x" "- announce_remaining s" r]
    by (cases x) (simp add: announce_finish_def Let_def)
qed (simp add: announce_finish_def Let_def)

lemma keys_finish:
  "fst ` set (timeout_list s) = fst ` set (timeout_list (announce_finish el s))"
proof -
  have "map fst (timeout_list (announce_finish el s)) = map fst (timeout_list s)"
    by (cases "timeout_list s") (auto simp: announce_finish_def Let_def)
  then show ?thesis by (metis list.set_map)
qed

lemma distinct_deadline:
  assumes "timeouts_wf l" "(t, d) \<in> set (deadlines b l)" "(t, e) \<in> set (deadlines b l)"
  shows "d = e"
  using assms eq_key_imp_eq_value [of "deadlines b l" t d e] by (simp add: timeouts_wf_def)

lemma announce_finish_sel [simp]:
  "curr_tick (announce_finish el s) = curr_tick s + announce_remaining s"
  "announce_remaining (announce_finish el s) = 0"
  by (simp_all add: announce_finish_def Let_def)

lemma timeouts_wf_finish:
  assumes "timeouts_wf (timeout_list s)" "due s = []"
  shows "timeouts_wf (timeout_list (announce_finish el s))"
proof (cases "timeout_list s")
  case (Cons x r)
  with assms show ?thesis
    by (cases x) (auto simp: timeouts_wf_def due_def announce_finish_def Let_def split: if_splits)
qed (simp add: announce_finish_def Let_def timeouts_wf_def)

section \<open>What the queue promises\<close>

text \<open>
  (C16) Adding a timeout puts its node at its own deadline, behind the nodes with the same
  deadline, moves no other deadline, and the time that remains is the ticks that were asked for.
\<close>

theorem add_timeout_deadline:
  assumes "timeouts_wf (timeout_list s)" "0 \<le> elapsed el s" "timeout \<noteq> K_FOREVER"
    "z_is_inactive_timeout k s"
  defines "s' \<equiv> z_add_timeout el k timeout s"
  shows "deadlines 0 (timeout_list s') =
      insort_stable snd (k, elapsed el s + timeout_ticks el timeout s) (deadlines 0 (timeout_list s))
    \<and> timeouts_wf (timeout_list s') \<and> z_timeout_remaining el k s' = timeout_ticks el timeout s"
proof -
  let ?d = "timeout_ticks el timeout s + elapsed el s"
  have l: "timeout_list s' = insert_timeout k ?d (timeout_list s)"
    using assms(3) by (simp add: s'_def timeout_list_add)
  have el: "elapsed el s' = elapsed el s" by (simp add: s'_def elapsed_def)
  have wf: "timeouts_wf (timeout_list s')"
    unfolding l using assms(1,2,4) timeout_ticks_pos [of el timeout s]
    by (intro timeouts_wf_insert) (auto simp: z_is_inactive_timeout_def)
  have "map_of (deadlines 0 (timeout_list s')) k = Some ?d"
    using assms(4) map_of_insort_stable [of k "deadlines 0 (timeout_list s)" ?d]
    by (simp add: l deadlines_insert z_is_inactive_timeout_def)
  moreover have "k \<in> fst ` set (timeout_list s')" by (simp add: l)
  ultimately have "sum_until k (timeout_list s') = ?d"
    using sum_until_deadlines [of k "timeout_list s'" 0] by simp
  then show ?thesis
    using wf by (simp add: l deadlines_insert add.commute z_timeout_remaining_def timeout_rem_def
        z_is_inactive_timeout_def el)
qed

theorem add_timeout_deadline_witness:
  "let s = \<lparr>timeout_list = [(1 :: nat, 10), (2, 5)], curr_tick = 100, announce_remaining = 0,
            slice_ticks = 0, hw_timeout = []\<rparr>;
       s' = z_add_timeout 3 (7 :: nat) 9 s
   in deadlines 0 (timeout_list s') = [(1, 10), (7, 13), (2, 15)] \<and> z_timeout_remaining 3 7 s' = 10"
  using add_timeout_deadline [of "\<lparr>timeout_list = [(1 :: nat, 10), (2, 5)], curr_tick = 100,
      announce_remaining = 0, slice_ticks = 0, hw_timeout = []\<rparr>" 3 9 7]
  by (simp add: timeouts_wf_def elapsed_def z_is_inactive_timeout_def timeout_ticks_def
      Z_TICK_ABS_def)

text \<open>
  (C17) Aborting a timeout that is queued removes it and leaves every other deadline where it
  was; aborting one that is not queued reports \<open>-EINVAL\<close> and changes nothing.
\<close>

theorem abort_timeout_spec:
  assumes "timeouts_wf (timeout_list s)"
  shows "case z_abort_timeout k s of (r, s') \<Rightarrow>
      (r = (if z_is_inactive_timeout k s then - EINVAL else 0))
      \<and> deadlines 0 (timeout_list s') = filter (\<lambda>x. fst x \<noteq> k) (deadlines 0 (timeout_list s))
      \<and> timeouts_wf (timeout_list s') \<and> z_is_inactive_timeout k s'
      \<and> (z_is_inactive_timeout k s \<longrightarrow> s' = s)"
proof -
  have l: "timeout_list (snd (z_abort_timeout k s)) = remove_timeout k (timeout_list s)"
    by (rule timeout_list_abort)
  have "distinct (map fst (timeout_list s))" using assms by (simp add: timeouts_wf_def)
  then have "deadlines 0 (remove_timeout k (timeout_list s)) =
      filter (\<lambda>x. fst x \<noteq> k) (deadlines 0 (timeout_list s))"
    and "k \<notin> set (map fst (remove_timeout k (timeout_list s)))"
    by (simp_all add: deadlines_remove keys_remove_timeout del: set_map)
  then show ?thesis
    using l timeouts_wf_remove [OF assms, of k]
    by (simp add: case_prod_beta z_is_inactive_timeout_def) (simp add: z_abort_timeout_def
        z_is_inactive_timeout_def)
qed

theorem abort_timeout_spec_witness:
  "let s = \<lparr>timeout_list = [(1 :: nat, 10), (2, 5)], curr_tick = 100, announce_remaining = 0,
            slice_ticks = 0, hw_timeout = []\<rparr>
   in deadlines 0 (timeout_list (snd (z_abort_timeout 1 s))) = [(2, 15)]
      \<and> z_is_inactive_timeout 1 (snd (z_abort_timeout 1 s))"
  using abort_timeout_spec [of "\<lparr>timeout_list = [(1 :: nat, 10), (2, 5)], curr_tick = 100,
      announce_remaining = 0, slice_ticks = 0, hw_timeout = []\<rparr>" 1]
  by (simp add: timeouts_wf_def case_prod_beta)

end
