(* ===== verification/Sched.thy ===== *)
theory Sched
  imports Timeout
begin

text \<open>
  The scheduler, \<open>kernel/sched.c\<close> with the inline functions of \<open>kernel/include/ksched.h\<close> and
  \<open>include/timeout_q.h\<close>, in the configuration of \<open>build/zephyr/.config\<close>: one CPU, the
  "dumb" run queue and wait queues (a list kept in priority order), no deadlines, no CPU masks,
  no metairq priorities, \<open>SWAP_NONATOMIC\<close>, time slicing compiled in. A thread is a number,
  \<open>thread_state\<close> is the set of the flag bits that are on. The context switch itself
  (\<open>arch_swap\<close>) sets the switched-out thread's return value to \<open>-EAGAIN\<close> and makes the
  cached next thread the current one.

  Shown here: every operation keeps the kernel well formed (\<open>kernel_wf\<close>: the run queue holds
  exactly the queued, runnable threads in priority order; the wait queues and \<open>pended_on\<close>
  agree), the thread that runs next is the highest-priority ready one, and a clock announcement
  expires exactly the due thread timeouts.
\<close>

section \<open>State\<close>

type_synonym tid = nat

datatype thread_flag =
    THREAD_DUMMY | THREAD_PENDING | THREAD_PRESTART | THREAD_DEAD | THREAD_SUSPENDED
  | THREAD_ABORTING | THREAD_QUEUED

datatype wait_q = ObjQ nat | JoinQ tid

datatype swap_data = NoData | DataWord u32 | DataPtr nat

text \<open>
  \<open>struct z_poller\<close> is part of the thread; a poll event names its poller by the thread. The bit
  fields \<open>type\<close> and \<open>state\<close> of \<open>struct k_poll_event\<close> are words.
\<close>

datatype poll_mode = MODE_NONE | MODE_POLL | MODE_TRIGGERED

record k_poll_event =
  ev_poller :: "tid option"
  ev_type :: u32
  ev_state :: u32
  ev_obj :: nat

record k_thread =
  prio :: int
  sched_locked :: u8
  thread_state :: "thread_flag set"
  pended_on :: "wait_q option"
  swap_retval :: int
  swap_data :: swap_data
  is_polling :: bool
  poller_mode :: poll_mode

record kernel = "tid timeout_state" +
  threads :: "tid \<Rightarrow> k_thread"
  runq :: "tid list"
  cache :: tid
  current :: tid
  idle_thread :: tid
  wait_qs :: "wait_q \<Rightarrow> tid list"
  in_isr :: bool
  irq_unlocked :: bool
  hw_elapsed :: int
  slice_time :: int
  slice_max_prio :: int
  pending_current :: "tid option"
  poll_event :: "nat \<Rightarrow> k_poll_event"

definition upd_thread :: "tid \<Rightarrow> (k_thread \<Rightarrow> k_thread) \<Rightarrow> kernel \<Rightarrow> kernel" where
  "upd_thread t f k = k\<lparr>threads := (threads k)(t := f (threads k t))\<rparr>"

definition tprio :: "kernel \<Rightarrow> tid \<Rightarrow> int" where
  "tprio k t = prio (threads k t)"

section \<open>Thread predicates and flags\<close>

definition z_is_thread_suspended :: "tid \<Rightarrow> kernel \<Rightarrow> bool" where
  "z_is_thread_suspended t k \<longleftrightarrow> THREAD_SUSPENDED \<in> thread_state (threads k t)"

definition z_is_thread_pending :: "tid \<Rightarrow> kernel \<Rightarrow> bool" where
  "z_is_thread_pending t k \<longleftrightarrow> THREAD_PENDING \<in> thread_state (threads k t)"

definition z_is_thread_prevented_from_running :: "tid \<Rightarrow> kernel \<Rightarrow> bool" where
  "z_is_thread_prevented_from_running t k \<longleftrightarrow>
     thread_state (threads k t) \<inter>
       {THREAD_PENDING, THREAD_PRESTART, THREAD_DEAD, THREAD_DUMMY, THREAD_SUSPENDED} \<noteq> {}"

definition z_is_thread_timeout_active :: "tid \<Rightarrow> kernel \<Rightarrow> bool" where
  "z_is_thread_timeout_active t k \<longleftrightarrow> \<not> z_is_inactive_timeout t k"

definition z_is_thread_ready :: "tid \<Rightarrow> kernel \<Rightarrow> bool" where
  "z_is_thread_ready t k \<longleftrightarrow>
     \<not> (z_is_thread_prevented_from_running t k \<or> z_is_thread_timeout_active t k)"

definition z_has_thread_started :: "tid \<Rightarrow> kernel \<Rightarrow> bool" where
  "z_has_thread_started t k \<longleftrightarrow> THREAD_PRESTART \<notin> thread_state (threads k t)"

definition z_is_thread_queued :: "tid \<Rightarrow> kernel \<Rightarrow> bool" where
  "z_is_thread_queued t k \<longleftrightarrow> THREAD_QUEUED \<in> thread_state (threads k t)"

definition set_flag :: "thread_flag \<Rightarrow> tid \<Rightarrow> kernel \<Rightarrow> kernel" where
  "set_flag f t = upd_thread t (\<lambda>th. th\<lparr>thread_state := insert f (thread_state th)\<rparr>)"

definition clear_flag :: "thread_flag \<Rightarrow> tid \<Rightarrow> kernel \<Rightarrow> kernel" where
  "clear_flag f t = upd_thread t (\<lambda>th. th\<lparr>thread_state := thread_state th - {f}\<rparr>)"

definition is_preempt :: "tid \<Rightarrow> kernel \<Rightarrow> bool" where
  "is_preempt t k \<longleftrightarrow> sched_locked (threads k t) = 0 \<and> 0 \<le> prio (threads k t)"

definition arch_thread_return_value_set :: "tid \<Rightarrow> int \<Rightarrow> kernel \<Rightarrow> kernel" where
  "arch_thread_return_value_set t v = upd_thread t (\<lambda>th. th\<lparr>swap_retval := v\<rparr>)"

definition z_thread_return_value_set_with_data :: "tid \<Rightarrow> int \<Rightarrow> swap_data \<Rightarrow> kernel \<Rightarrow> kernel" where
  "z_thread_return_value_set_with_data t v d =
     upd_thread t (\<lambda>th. th\<lparr>swap_retval := v, swap_data := d\<rparr>)"

section \<open>Priority queues\<close>

definition z_sched_prio_cmp :: "kernel \<Rightarrow> tid \<Rightarrow> tid \<Rightarrow> int" where
  "z_sched_prio_cmp k t1 t2 =
     (let b1 = prio (threads k t1); b2 = prio (threads k t2)
      in if b1 \<noteq> b2 then b2 - b1 else 0)"

fun z_priq_dumb_add :: "kernel \<Rightarrow> tid list \<Rightarrow> tid \<Rightarrow> tid list" where
  "z_priq_dumb_add k [] thread = [thread]"
| "z_priq_dumb_add k (t # pq) thread =
     (if z_sched_prio_cmp k thread t > 0 then thread # t # pq
      else t # z_priq_dumb_add k pq thread)"

definition z_priq_dumb_remove :: "tid list \<Rightarrow> tid \<Rightarrow> tid list" where
  "z_priq_dumb_remove pq thread = remove1 thread pq"

definition z_priq_dumb_best :: "tid list \<Rightarrow> tid option" where
  "z_priq_dumb_best pq = (case pq of [] \<Rightarrow> None | t # _ \<Rightarrow> Some t)"

definition queue_thread :: "tid \<Rightarrow> kernel \<Rightarrow> kernel" where
  "queue_thread t k =
     (let k = set_flag THREAD_QUEUED t k in k\<lparr>runq := z_priq_dumb_add k (runq k) t\<rparr>)"

definition dequeue_thread :: "tid \<Rightarrow> kernel \<Rightarrow> kernel" where
  "dequeue_thread t k =
     (let k = clear_flag THREAD_QUEUED t k in k\<lparr>runq := z_priq_dumb_remove (runq k) t\<rparr>)"

section \<open>Choosing the next thread\<close>

definition should_preempt :: "tid \<Rightarrow> bool \<Rightarrow> kernel \<Rightarrow> bool" where
  "should_preempt thread preempt_ok k \<longleftrightarrow>
     preempt_ok \<or> z_is_thread_prevented_from_running (current k) k
     \<or> z_is_thread_timeout_active thread k \<or> is_preempt (current k) k"

definition next_up :: "kernel \<Rightarrow> tid" where
  "next_up k = (case z_priq_dumb_best (runq k) of Some t \<Rightarrow> t | None \<Rightarrow> idle_thread k)"

definition z_reset_time_slice :: "kernel \<Rightarrow> kernel" where
  "z_reset_time_slice k =
     (if slice_time k \<noteq> 0
      then z_set_timeout_expiry (hw_elapsed k) (slice_time k)
             (k\<lparr>slice_ticks := slice_time k + hw_elapsed k\<rparr>)
      else k)"

definition update_cache :: "bool \<Rightarrow> kernel \<Rightarrow> kernel" where
  "update_cache preempt_ok k =
     (let thread = next_up k
      in if should_preempt thread preempt_ok k
         then (if thread \<noteq> current k then z_reset_time_slice k else k)\<lparr>cache := thread\<rparr>
         else k\<lparr>cache := current k\<rparr>)"

definition ready_thread :: "tid \<Rightarrow> kernel \<Rightarrow> kernel" where
  "ready_thread t k =
     (if \<not> z_is_thread_queued t k \<and> z_is_thread_ready t k
      then update_cache False (queue_thread t k) else k)"

definition z_ready_thread :: "tid \<Rightarrow> kernel \<Rightarrow> kernel" where
  "z_ready_thread t k = ready_thread t k"

definition unready_thread :: "tid \<Rightarrow> kernel \<Rightarrow> kernel" where
  "unready_thread t k =
     (let k = (if z_is_thread_queued t k then dequeue_thread t k else k)
      in update_cache (t = current k) k)"

definition move_thread_to_end_of_prio_q :: "tid \<Rightarrow> kernel \<Rightarrow> kernel" where
  "move_thread_to_end_of_prio_q t k =
     (let k = (if z_is_thread_queued t k then dequeue_thread t k else k);
          k = queue_thread t k
      in update_cache (t = current k) k)"

definition sliceable :: "tid \<Rightarrow> kernel \<Rightarrow> bool" where
  "sliceable t k \<longleftrightarrow>
     is_preempt t k \<and> \<not> z_is_thread_prevented_from_running t k
     \<and> \<not> prio (threads k t) < slice_max_prio k \<and> t \<noteq> idle_thread k"

definition z_time_slice :: "int \<Rightarrow> kernel \<Rightarrow> kernel" where
  "z_time_slice ticks k =
     (if pending_current k = Some (current k) then z_reset_time_slice k
      else
        let k = k\<lparr>pending_current := None\<rparr>
        in if slice_time k \<noteq> 0 \<and> sliceable (current k) k
           then if ticks \<ge> slice_ticks k
                then z_reset_time_slice (move_thread_to_end_of_prio_q (current k) k)
                else k\<lparr>slice_ticks := slice_ticks k - ticks\<rparr>
           else k\<lparr>slice_ticks := 0\<rparr>)"

section \<open>Swapping\<close>

definition z_swap :: "kernel \<Rightarrow> kernel" where
  "z_swap k =
     (let k = upd_thread (current k) (\<lambda>th. th\<lparr>swap_retval := - EAGAIN\<rparr>) k
      in k\<lparr>current := cache k\<rparr>)"

definition resched :: "kernel \<Rightarrow> bool" where
  "resched k \<longleftrightarrow> irq_unlocked k \<and> \<not> in_isr k"

definition need_swap :: "kernel \<Rightarrow> bool" where
  "need_swap k \<longleftrightarrow> cache k \<noteq> current k"

definition z_reschedule :: "kernel \<Rightarrow> kernel" where
  "z_reschedule k = (if resched k \<and> need_swap k then z_swap k else k)"

definition z_reschedule_irqlock :: "kernel \<Rightarrow> kernel" where
  "z_reschedule_irqlock k = (if resched k then z_swap k else k)"

section \<open>Pending and waking\<close>

definition add_to_waitq_locked :: "tid \<Rightarrow> wait_q option \<Rightarrow> kernel \<Rightarrow> kernel" where
  "add_to_waitq_locked t wq k =
     (let k = set_flag THREAD_PENDING t (unready_thread t k)
      in case wq of
           None \<Rightarrow> k
         | Some w \<Rightarrow>
             let k = upd_thread t (\<lambda>th. th\<lparr>pended_on := Some w\<rparr>) k
             in k\<lparr>wait_qs := (wait_qs k)(w := z_priq_dumb_add k (wait_qs k w) t)\<rparr>)"

definition z_add_thread_timeout :: "tid \<Rightarrow> k_timeout \<Rightarrow> kernel \<Rightarrow> kernel" where
  "z_add_thread_timeout t timeout k = z_add_timeout (hw_elapsed k) t timeout k"

definition z_abort_thread_timeout :: "tid \<Rightarrow> kernel \<Rightarrow> int \<times> kernel" where
  "z_abort_thread_timeout t k = z_abort_timeout t k"

definition add_thread_timeout :: "tid \<Rightarrow> k_timeout \<Rightarrow> kernel \<Rightarrow> kernel" where
  "add_thread_timeout t timeout k =
     (if timeout \<noteq> K_FOREVER then z_add_thread_timeout t timeout k else k)"

definition pend :: "tid \<Rightarrow> wait_q option \<Rightarrow> k_timeout \<Rightarrow> kernel \<Rightarrow> kernel" where
  "pend t wq timeout k = add_thread_timeout t timeout (add_to_waitq_locked t wq k)"

definition z_pend_thread :: "tid \<Rightarrow> wait_q option \<Rightarrow> k_timeout \<Rightarrow> kernel \<Rightarrow> kernel" where
  "z_pend_thread t wq timeout k = pend t wq timeout k"

definition z_pend_curr :: "wait_q \<Rightarrow> k_timeout \<Rightarrow> kernel \<Rightarrow> kernel" where
  "z_pend_curr wq timeout k =
     (let k = k\<lparr>pending_current := Some (current k)\<rparr>
      in z_swap (pend (current k) (Some wq) timeout k))"

definition unpend_thread_no_timeout :: "tid \<Rightarrow> kernel \<Rightarrow> kernel" where
  "unpend_thread_no_timeout t k =
     (let k = (case pended_on (threads k t) of
                 None \<Rightarrow> k
               | Some w \<Rightarrow> k\<lparr>wait_qs := (wait_qs k)(w := z_priq_dumb_remove (wait_qs k w) t)\<rparr>);
          k = clear_flag THREAD_PENDING t k
      in upd_thread t (\<lambda>th. th\<lparr>pended_on := None\<rparr>) k)"

definition z_unpend1_no_timeout :: "wait_q \<Rightarrow> kernel \<Rightarrow> tid option \<times> kernel" where
  "z_unpend1_no_timeout wq k =
     (case z_priq_dumb_best (wait_qs k wq) of
        None \<Rightarrow> (None, k)
      | Some t \<Rightarrow> (Some t, unpend_thread_no_timeout t k))"

definition z_unpend_first_thread :: "wait_q \<Rightarrow> kernel \<Rightarrow> tid option \<times> kernel" where
  "z_unpend_first_thread wq k =
     (case z_priq_dumb_best (wait_qs k wq) of
        None \<Rightarrow> (None, k)
      | Some t \<Rightarrow> (Some t, snd (z_abort_thread_timeout t (unpend_thread_no_timeout t k))))"

definition z_unpend_thread :: "tid \<Rightarrow> kernel \<Rightarrow> kernel" where
  "z_unpend_thread t k = snd (z_abort_thread_timeout t (unpend_thread_no_timeout t k))"

definition z_thread_timeout :: "tid \<Rightarrow> kernel \<Rightarrow> kernel" where
  "z_thread_timeout t k =
     (if THREAD_DEAD \<in> thread_state (threads k t) \<or> THREAD_ABORTING \<in> thread_state (threads k t)
      then k
      else
        let k = (if pended_on (threads k t) \<noteq> None then unpend_thread_no_timeout t k else k);
            k = clear_flag THREAD_PRESTART t k;
            k = clear_flag THREAD_SUSPENDED t k
        in ready_thread t k)"

definition z_sched_wake :: "wait_q \<Rightarrow> int \<Rightarrow> swap_data \<Rightarrow> kernel \<Rightarrow> bool \<times> kernel" where
  "z_sched_wake wq retval data k =
     (case z_priq_dumb_best (wait_qs k wq) of
        None \<Rightarrow> (False, k)
      | Some t \<Rightarrow>
          let k = z_thread_return_value_set_with_data t retval data k;
              k = unpend_thread_no_timeout t k;
              k = snd (z_abort_thread_timeout t k)
          in (True, ready_thread t k))"

text \<open>
  \<open>unpend_all\<close> and \<open>z_unpend_all\<close> loop until the queue is empty. Each round takes the head
  off, so the length of the queue bounds the rounds.
\<close>

fun unpend_all_loop :: "nat \<Rightarrow> wait_q \<Rightarrow> kernel \<Rightarrow> kernel" where
  "unpend_all_loop 0 wq k = k"
| "unpend_all_loop (Suc n) wq k =
     (case wait_qs k wq of
        [] \<Rightarrow> k
      | t # _ \<Rightarrow>
          let k = unpend_thread_no_timeout t k;
              k = snd (z_abort_thread_timeout t k);
              k = arch_thread_return_value_set t 0 k
          in unpend_all_loop n wq (ready_thread t k))"

definition unpend_all :: "wait_q \<Rightarrow> kernel \<Rightarrow> kernel" where
  "unpend_all wq k = unpend_all_loop (length (wait_qs k wq)) wq k"

fun z_unpend_all_loop :: "nat \<Rightarrow> wait_q \<Rightarrow> kernel \<Rightarrow> kernel" where
  "z_unpend_all_loop 0 wq k = k"
| "z_unpend_all_loop (Suc n) wq k =
     (case wait_qs k wq of
        [] \<Rightarrow> k
      | t # _ \<Rightarrow> z_unpend_all_loop n wq (z_ready_thread t (z_unpend_thread t k)))"

definition z_unpend_all :: "wait_q \<Rightarrow> kernel \<Rightarrow> int \<times> kernel" where
  "z_unpend_all wq k =
     (if wait_qs k wq = [] then 0 else 1, z_unpend_all_loop (length (wait_qs k wq)) wq k)"

section \<open>Thread control\<close>

definition z_sched_start :: "tid \<Rightarrow> kernel \<Rightarrow> kernel" where
  "z_sched_start t k =
     (if z_has_thread_started t k then k
      else z_reschedule (ready_thread t (clear_flag THREAD_PRESTART t k)))"

definition z_impl_k_thread_suspend :: "tid \<Rightarrow> kernel \<Rightarrow> kernel" where
  "z_impl_k_thread_suspend t k =
     (let k = snd (z_abort_thread_timeout t k);
          k = (if z_is_thread_queued t k then dequeue_thread t k else k);
          k = set_flag THREAD_SUSPENDED t k;
          k = update_cache (t = current k) k
      in if t = current k then z_reschedule_irqlock k else k)"

definition z_impl_k_thread_resume :: "tid \<Rightarrow> kernel \<Rightarrow> kernel" where
  "z_impl_k_thread_resume t k =
     (if \<not> z_is_thread_suspended t k then k
      else z_reschedule (ready_thread t (clear_flag THREAD_SUSPENDED t k)))"

definition z_set_prio :: "tid \<Rightarrow> int \<Rightarrow> kernel \<Rightarrow> bool \<times> kernel" where
  "z_set_prio t p k =
     (let need_sched = z_is_thread_ready t k
      in (need_sched,
          if need_sched
          then update_cache True
                 (queue_thread t (upd_thread t (\<lambda>th. th\<lparr>prio := p\<rparr>) (dequeue_thread t k)))
          else upd_thread t (\<lambda>th. th\<lparr>prio := p\<rparr>) k))"

definition z_thread_priority_set :: "tid \<Rightarrow> int \<Rightarrow> kernel \<Rightarrow> kernel" where
  "z_thread_priority_set t p k =
     (let (need_sched, k) = z_set_prio t p k
      in if need_sched \<and> sched_locked (threads k (current k)) = 0
         then z_reschedule_irqlock k else k)"

definition k_sched_lock :: "kernel \<Rightarrow> kernel" where
  "k_sched_lock k = upd_thread (current k) (\<lambda>th. th\<lparr>sched_locked := sched_locked th - 1\<rparr>) k"

definition k_sched_unlock :: "kernel \<Rightarrow> kernel" where
  "k_sched_unlock k =
     (let k = upd_thread (current k) (\<lambda>th. th\<lparr>sched_locked := sched_locked th + 1\<rparr>) k
      in z_reschedule_irqlock (update_cache False k))"

definition z_impl_k_yield :: "kernel \<Rightarrow> kernel" where
  "z_impl_k_yield k =
     (if current k \<noteq> idle_thread k
      then z_swap (update_cache True (queue_thread (current k) (dequeue_thread (current k) k)))
      else z_swap k)"

text \<open>
  \<open>z_tick_sleep\<close> up to the switch; what it returns after the thread runs again is the second
  function, of the wakeup tick noted before the switch and the tick count then.
\<close>

definition z_tick_sleep :: "int \<Rightarrow> kernel \<Rightarrow> kernel" where
  "z_tick_sleep ticks k =
     (if ticks = 0 then z_impl_k_yield k
      else
        let k = k\<lparr>pending_current := Some (current k)\<rparr>;
            t = current k;
            k = unready_thread t k;
            k = z_add_thread_timeout t ticks k;
            k = set_flag THREAD_SUSPENDED t k
        in z_swap k)"

definition z_tick_sleep_return :: "u32 \<Rightarrow> int \<Rightarrow> kernel \<Rightarrow> int" where
  "z_tick_sleep_return expected_wakeup_ticks ticks k =
     (if ticks = 0 then 0
      else max 0 (uint expected_wakeup_ticks - uint (sys_clock_tick_get_32 (hw_elapsed k) k)))"

definition z_impl_k_sleep :: "k_timeout \<Rightarrow> kernel \<Rightarrow> kernel" where
  "z_impl_k_sleep timeout k =
     (if timeout = K_FOREVER then z_impl_k_thread_suspend (current k) k else z_tick_sleep timeout k)"

definition z_impl_k_wakeup :: "tid \<Rightarrow> kernel \<Rightarrow> kernel" where
  "z_impl_k_wakeup t k =
     (if z_is_thread_pending t k then k
      else
        let (r, k1) = z_abort_thread_timeout t k
        in if r < 0 \<and> thread_state (threads k1 t) \<noteq> {THREAD_SUSPENDED} then k1
           else
             let k2 = z_ready_thread t (clear_flag THREAD_SUSPENDED t k1)
             in if \<not> in_isr k2 then z_reschedule_irqlock k2 else k2)"

definition end_thread :: "tid \<Rightarrow> kernel \<Rightarrow> kernel" where
  "end_thread t k =
     (if THREAD_DEAD \<notin> thread_state (threads k t)
      then
        let k = set_flag THREAD_DEAD t k;
            k = clear_flag THREAD_ABORTING t k;
            k = (if z_is_thread_queued t k then dequeue_thread t k else k);
            k = (if pended_on (threads k t) \<noteq> None then unpend_thread_no_timeout t k else k);
            k = snd (z_abort_thread_timeout t k);
            k = unpend_all (JoinQ t) k
        in update_cache True k
      else k)"

definition z_thread_abort :: "tid \<Rightarrow> kernel \<Rightarrow> kernel" where
  "z_thread_abort t k =
     (if THREAD_DEAD \<in> thread_state (threads k t) then k
      else
        let k = end_thread t k
        in if t = current k \<and> \<not> in_isr k then z_swap k else k)"

definition z_impl_k_thread_join :: "tid \<Rightarrow> k_timeout \<Rightarrow> kernel \<Rightarrow> int option \<times> kernel" where
  "z_impl_k_thread_join t timeout k =
     (if THREAD_DEAD \<in> thread_state (threads k t) then (Some 0, k)
      else if timeout = K_NO_WAIT then (Some (- EBUSY), k)
      else if t = current k \<or> pended_on (threads k t) = Some (JoinQ (current k))
      then (Some (- EDEADLK), k)
      else (None,
            z_swap (add_thread_timeout (current k) timeout
                      (add_to_waitq_locked (current k) (Some (JoinQ t)) k))))"

section \<open>Well-formed kernel states\<close>

definition runq_wf :: "kernel \<Rightarrow> bool" where
  "runq_wf k \<longleftrightarrow>
     distinct (runq k) \<and> sorted (map (tprio k) (runq k))
     \<and> (\<forall>t. THREAD_QUEUED \<in> thread_state (threads k t) \<longleftrightarrow> t \<in> set (runq k))
     \<and> (\<forall>t \<in> set (runq k). \<not> z_is_thread_prevented_from_running t k)
     \<and> idle_thread k \<notin> set (runq k)"

definition waitq_wf :: "kernel \<Rightarrow> bool" where
  "waitq_wf k \<longleftrightarrow>
     (\<forall>w. distinct (wait_qs k w))
     \<and> (\<forall>t w. t \<in> set (wait_qs k w) \<longleftrightarrow> pended_on (threads k t) = Some w)
     \<and> (\<forall>t. pended_on (threads k t) \<noteq> None \<longrightarrow> THREAD_PENDING \<in> thread_state (threads k t))
     \<and> pended_on (threads k (idle_thread k)) = None
     \<and> THREAD_PENDING \<notin> thread_state (threads k (idle_thread k))"

definition kernel_wf :: "kernel \<Rightarrow> bool" where
  "kernel_wf k \<longleftrightarrow>
     runq_wf k \<and> waitq_wf k \<and> timeouts_wf (timeout_list k)
     \<and> (\<forall>t \<in> set (runq k). z_is_inactive_timeout t k)
     \<and> z_is_inactive_timeout (idle_thread k) k \<and> 0 \<le> hw_elapsed k"

lemmas thread_defs =
  upd_thread_def set_flag_def clear_flag_def arch_thread_return_value_set_def
  z_thread_return_value_set_with_data_def

lemmas pred_defs =
  z_is_thread_suspended_def z_is_thread_pending_def z_is_thread_prevented_from_running_def
  z_is_thread_timeout_active_def z_is_thread_ready_def z_has_thread_started_def
  z_is_thread_queued_def z_is_inactive_timeout_def

subsection \<open>Priority queues\<close>

lemma z_priq_dumb_add_insort: "z_priq_dumb_add k pq t = insort_stable (tprio k) t pq"
  by (induction k pq t rule: z_priq_dumb_add.induct)
     (auto simp: z_sched_prio_cmp_def tprio_def Let_def)

lemma tprio_upd [simp]:
  "(\<And>th. prio (f th) = prio th) \<Longrightarrow> tprio (upd_thread t f k) = tprio k"
  by (auto simp: tprio_def upd_thread_def)

lemma tprio_more [simp]:
  "tprio (k\<lparr>runq := q\<rparr>) = tprio k" "tprio (k\<lparr>wait_qs := w\<rparr>) = tprio k"
  "tprio (k\<lparr>cache := c\<rparr>) = tprio k" "tprio (k\<lparr>current := c\<rparr>) = tprio k"
  "tprio (k\<lparr>pending_current := p\<rparr>) = tprio k" "tprio (k\<lparr>slice_ticks := i\<rparr>) = tprio k"
  "tprio (k\<lparr>timeout_list := l\<rparr>) = tprio k" "tprio (k\<lparr>hw_timeout := h\<rparr>) = tprio k"
  by (auto simp: tprio_def)

subsection \<open>What the bookkeeping functions leave alone\<close>

text \<open>
  \<open>same_queues\<close>: only the cache, the current thread, return values, slice and hardware timer
  bookkeeping may differ. It carries well-formedness over.
\<close>

definition same_queues :: "kernel \<Rightarrow> kernel \<Rightarrow> bool" where
  "same_queues k k' \<longleftrightarrow>
     runq k' = runq k \<and> wait_qs k' = wait_qs k \<and> idle_thread k' = idle_thread k
     \<and> timeout_list k' = timeout_list k \<and> in_isr k' = in_isr k \<and> hw_elapsed k' = hw_elapsed k
     \<and> (\<forall>t. prio (threads k' t) = prio (threads k t)
          \<and> thread_state (threads k' t) = thread_state (threads k t)
          \<and> pended_on (threads k' t) = pended_on (threads k t))"

lemma same_queues_refl [simp]: "same_queues k k"
  by (simp add: same_queues_def)

lemma same_queues_trans: "same_queues a b \<Longrightarrow> same_queues b c \<Longrightarrow> same_queues a c"
  by (simp add: same_queues_def)

lemma same_queues_wf: "same_queues k k' \<Longrightarrow> kernel_wf k \<Longrightarrow> kernel_wf k'"
proof -
  assume sq: "same_queues k k'" and wf: "kernel_wf k"
  have "tprio k' = tprio k" using sq by (auto simp: same_queues_def tprio_def)
  with sq wf show ?thesis
    by (simp add: same_queues_def kernel_wf_def runq_wf_def waitq_wf_def
        z_is_thread_prevented_from_running_def z_is_inactive_timeout_def)
qed

lemma same_queues_reset_time_slice [simp]: "same_queues k (z_reset_time_slice k)"
  by (simp add: z_reset_time_slice_def z_set_timeout_expiry_def same_queues_def Let_def)

lemma same_queues_update_cache [simp]: "same_queues k (update_cache b k)"
  using same_queues_reset_time_slice [of k]
  by (simp add: update_cache_def same_queues_def Let_def)

lemma same_queues_swap [simp]: "same_queues k (z_swap k)"
  by (simp add: z_swap_def same_queues_def Let_def upd_thread_def)

lemma same_queues_reschedule [simp]:
  "same_queues k (z_reschedule k)" "same_queues k (z_reschedule_irqlock k)"
  by (simp_all add: z_reschedule_def z_reschedule_irqlock_def)

lemma same_queues_retval [simp]:
  "same_queues k (arch_thread_return_value_set t v k)"
  "same_queues k (z_thread_return_value_set_with_data t v d k)"
  by (simp_all add: thread_defs same_queues_def)

lemma same_queues_field [simp]:
  "same_queues k (k\<lparr>pending_current := p\<rparr>)" "same_queues k (k\<lparr>slice_ticks := i\<rparr>)"
  "same_queues k (k\<lparr>cache := c\<rparr>)"
  by (simp_all add: same_queues_def)

lemma update_cache_sel [simp]:
  "runq (update_cache b k) = runq k" "wait_qs (update_cache b k) = wait_qs k"
  "timeout_list (update_cache b k) = timeout_list k" "idle_thread (update_cache b k) = idle_thread k"
  "threads (update_cache b k) = threads k" "current (update_cache b k) = current k"
  "in_isr (update_cache b k) = in_isr k" "irq_unlocked (update_cache b k) = irq_unlocked k"
  "curr_tick (update_cache b k) = curr_tick k"
  "announce_remaining (update_cache b k) = announce_remaining k"
  "hw_elapsed (update_cache b k) = hw_elapsed k"
  by (simp_all add: update_cache_def z_reset_time_slice_def z_set_timeout_expiry_def Let_def)

lemma wf_update_cache [wf_intros]: "kernel_wf k \<Longrightarrow> kernel_wf (update_cache b k)"
  by (rule same_queues_wf [OF same_queues_update_cache])

lemma wf_swap [wf_intros]: "kernel_wf k \<Longrightarrow> kernel_wf (z_swap k)"
  by (rule same_queues_wf [OF same_queues_swap])

lemma wf_reschedule [wf_intros]:
  "kernel_wf k \<Longrightarrow> kernel_wf (z_reschedule k)"
  "kernel_wf k \<Longrightarrow> kernel_wf (z_reschedule_irqlock k)"
  by (erule same_queues_wf [rotated], simp)+

lemma wf_retval [wf_intros]:
  "kernel_wf k \<Longrightarrow> kernel_wf (arch_thread_return_value_set t v k)"
  "kernel_wf k \<Longrightarrow> kernel_wf (z_thread_return_value_set_with_data t v d k)"
  by (erule same_queues_wf [rotated], simp)+

lemma wf_pending_current [wf_intros]: "kernel_wf k \<Longrightarrow> kernel_wf (k\<lparr>pending_current := p\<rparr>)"
  by (rule same_queues_wf [OF same_queues_field(1)])

subsection \<open>Flags and queues\<close>

lemmas wf_defs =
  kernel_wf_def runq_wf_def waitq_wf_def z_is_thread_prevented_from_running_def
  z_is_inactive_timeout_def

lemma wf_set_flag [wf_intros]:
  assumes "kernel_wf k" "t \<notin> set (runq k)" "f \<noteq> THREAD_QUEUED"
    "f = THREAD_PENDING \<Longrightarrow> t \<noteq> idle_thread k"
  shows "kernel_wf (set_flag f t k)"
proof -
  have "tprio (set_flag f t k) = tprio k" by (simp add: set_flag_def)
  with assms show ?thesis
    by (auto simp: wf_defs set_flag_def upd_thread_def split: if_splits)
qed

lemma wf_clear_flag [wf_intros]:
  assumes "kernel_wf k" "f \<noteq> THREAD_QUEUED" "f \<noteq> THREAD_PENDING"
  shows "kernel_wf (clear_flag f t k)"
proof -
  have "tprio (clear_flag f t k) = tprio k" by (simp add: clear_flag_def)
  with assms show ?thesis
    by (auto simp: wf_defs clear_flag_def upd_thread_def split: if_splits)
qed

lemma queue_thread_sel [simp]:
  "wait_qs (queue_thread t k) = wait_qs k" "timeout_list (queue_thread t k) = timeout_list k"
  "idle_thread (queue_thread t k) = idle_thread k" "current (queue_thread t k) = current k"
  "hw_elapsed (queue_thread t k) = hw_elapsed k" "in_isr (queue_thread t k) = in_isr k"
  "runq (queue_thread t k) = insort_stable (tprio k) t (runq k)"
  "threads (queue_thread t k) = threads (set_flag THREAD_QUEUED t k)"
  "curr_tick (queue_thread t k) = curr_tick k"
  "announce_remaining (queue_thread t k) = announce_remaining k"
  by (simp_all add: queue_thread_def Let_def set_flag_def z_priq_dumb_add_insort)
     (simp_all add: upd_thread_def)

lemma dequeue_thread_sel [simp]:
  "wait_qs (dequeue_thread t k) = wait_qs k" "timeout_list (dequeue_thread t k) = timeout_list k"
  "idle_thread (dequeue_thread t k) = idle_thread k" "current (dequeue_thread t k) = current k"
  "hw_elapsed (dequeue_thread t k) = hw_elapsed k" "in_isr (dequeue_thread t k) = in_isr k"
  "runq (dequeue_thread t k) = remove1 t (runq k)"
  "threads (dequeue_thread t k) = threads (clear_flag THREAD_QUEUED t k)"
  by (simp_all add: dequeue_thread_def Let_def clear_flag_def z_priq_dumb_remove_def)
     (simp_all add: upd_thread_def)

lemma tprio_queue [simp]:
  "tprio (queue_thread t k) = tprio k" "tprio (dequeue_thread t k) = tprio k"
  by (auto simp: tprio_def set_flag_def clear_flag_def upd_thread_def)

lemma wf_queue_thread [wf_intros]:
  assumes "kernel_wf k" "t \<notin> set (runq k)" "z_is_thread_ready t k" "t \<noteq> idle_thread k"
  shows "kernel_wf (queue_thread t k)"
proof -
  have "runq_wf (queue_thread t k)"
    using assms sorted_insort_stable [of "tprio k" "runq k" t]
    by (auto simp: wf_defs z_is_thread_ready_def set_flag_def upd_thread_def)
  moreover have "waitq_wf (queue_thread t k)"
    using assms by (auto simp: wf_defs set_flag_def upd_thread_def split: if_splits)
  ultimately show ?thesis
    using assms(1,3)
    by (simp add: kernel_wf_def z_is_thread_ready_def z_is_thread_timeout_active_def
        z_is_inactive_timeout_def)
qed

lemma wf_dequeue_thread [wf_intros]:
  assumes "kernel_wf k"
  shows "kernel_wf (dequeue_thread t k)"
proof -
  have "runq_wf (dequeue_thread t k)"
    using assms
    by (auto simp: wf_defs clear_flag_def upd_thread_def sorted_map_remove1 split: if_splits)
  moreover have "waitq_wf (dequeue_thread t k)"
    using assms by (auto simp: wf_defs clear_flag_def upd_thread_def split: if_splits)
  ultimately show ?thesis
    using assms(1) by (auto simp: kernel_wf_def z_is_inactive_timeout_def dest: in_set_remove1)
qed

lemma queued_iff: "kernel_wf k \<Longrightarrow> z_is_thread_queued t k \<longleftrightarrow> t \<in> set (runq k)"
  by (simp add: wf_defs z_is_thread_queued_def)

lemma wf_ready_thread [wf_intros]:
  "kernel_wf k \<Longrightarrow> t \<noteq> idle_thread k \<Longrightarrow> kernel_wf (ready_thread t k)"
  by (auto simp: ready_thread_def queued_iff intro!: wf_update_cache wf_queue_thread)

lemma ready_thread_sel [simp]:
  "wait_qs (ready_thread t k) = wait_qs k" "timeout_list (ready_thread t k) = timeout_list k"
  "idle_thread (ready_thread t k) = idle_thread k" "current (ready_thread t k) = current k"
  "hw_elapsed (ready_thread t k) = hw_elapsed k" "in_isr (ready_thread t k) = in_isr k"
  "pended_on (threads (ready_thread t k) u) = pended_on (threads k u)"
  "prio (threads (ready_thread t k) u) = prio (threads k u)"
  "swap_retval (threads (ready_thread t k) u) = swap_retval (threads k u)"
  "swap_data (threads (ready_thread t k) u) = swap_data (threads k u)"
  "curr_tick (ready_thread t k) = curr_tick k"
  "announce_remaining (ready_thread t k) = announce_remaining k"
  by (simp_all add: ready_thread_def set_flag_def upd_thread_def)

lemma wf_unready_thread [wf_intros]: "kernel_wf k \<Longrightarrow> kernel_wf (unready_thread t k)"
  by (auto simp: unready_thread_def Let_def intro!: wf_intros)

lemma unready_thread_sel [simp]:
  "wait_qs (unready_thread t k) = wait_qs k" "timeout_list (unready_thread t k) = timeout_list k"
  "idle_thread (unready_thread t k) = idle_thread k" "current (unready_thread t k) = current k"
  "hw_elapsed (unready_thread t k) = hw_elapsed k" "in_isr (unready_thread t k) = in_isr k"
  "pended_on (threads (unready_thread t k) u) = pended_on (threads k u)"
  "prio (threads (unready_thread t k) u) = prio (threads k u)"
  "swap_data (threads (unready_thread t k) u) = swap_data (threads k u)"
  by (simp_all add: unready_thread_def Let_def clear_flag_def upd_thread_def)

lemma unready_not_queued: "kernel_wf k \<Longrightarrow> t \<notin> set (runq (unready_thread t k))"
  using queued_iff [of k t] by (auto simp: unready_thread_def Let_def wf_defs)

subsection \<open>Wait queues and timeouts\<close>

lemma wf_unpend_no_timeout [wf_intros]:
  assumes "kernel_wf k"
  shows "kernel_wf (unpend_thread_no_timeout t k)"
proof -
  let ?k = "unpend_thread_no_timeout t k"
  have eqs: "runq ?k = runq k" "idle_thread ?k = idle_thread k" "timeout_list ?k = timeout_list k"
    "hw_elapsed ?k = hw_elapsed k" "tprio ?k = tprio k"
    by (auto simp: unpend_thread_no_timeout_def Let_def clear_flag_def upd_thread_def tprio_def
        split: option.splits)
  have "runq_wf ?k"
    using assms unfolding runq_wf_def eqs
    by (auto simp: wf_defs unpend_thread_no_timeout_def Let_def clear_flag_def upd_thread_def
        split: option.splits if_splits)
  moreover have "waitq_wf ?k"
    using assms
    by (auto simp: wf_defs unpend_thread_no_timeout_def Let_def clear_flag_def upd_thread_def
        z_priq_dumb_remove_def split: option.splits if_splits)
  ultimately show ?thesis using assms by (simp add: kernel_wf_def eqs z_is_inactive_timeout_def)
qed

lemma unpend_no_timeout_sel [simp]:
  "runq (unpend_thread_no_timeout t k) = runq k"
  "idle_thread (unpend_thread_no_timeout t k) = idle_thread k"
  "timeout_list (unpend_thread_no_timeout t k) = timeout_list k"
  "current (unpend_thread_no_timeout t k) = current k"
  "hw_elapsed (unpend_thread_no_timeout t k) = hw_elapsed k"
  "in_isr (unpend_thread_no_timeout t k) = in_isr k"
  "curr_tick (unpend_thread_no_timeout t k) = curr_tick k"
  "announce_remaining (unpend_thread_no_timeout t k) = announce_remaining k"
  "pended_on (threads (unpend_thread_no_timeout t k) u) =
     (if u = t then None else pended_on (threads k u))"
  "prio (threads (unpend_thread_no_timeout t k) u) = prio (threads k u)"
  "swap_data (threads (unpend_thread_no_timeout t k) u) = swap_data (threads k u)"
  "swap_retval (threads (unpend_thread_no_timeout t k) u) = swap_retval (threads k u)"
  by (auto simp: unpend_thread_no_timeout_def Let_def clear_flag_def upd_thread_def
      split: option.splits)

lemma wait_qs_unpend:
  "wait_qs (unpend_thread_no_timeout t k) =
     (case pended_on (threads k t) of
        None \<Rightarrow> wait_qs k | Some w \<Rightarrow> (wait_qs k)(w := remove1 t (wait_qs k w)))"
  by (auto simp: unpend_thread_no_timeout_def Let_def clear_flag_def upd_thread_def
      z_priq_dumb_remove_def split: option.splits)

lemma wf_timeout_list:
  assumes "kernel_wf k" "timeouts_wf l" "fst ` set l \<inter> set (runq k) = {}"
    "idle_thread k \<notin> fst ` set l"
  shows "kernel_wf (k\<lparr>timeout_list := l\<rparr>)"
  using assms by (auto simp: wf_defs)

lemma keys_removed:
  assumes "timeouts_wf l"
  shows "fst ` set (remove_timeout t l) = fst ` set l - {t}"
proof -
  have "set (map fst (remove_timeout t l)) = set (filter (\<lambda>u. u \<noteq> t) (map fst l))"
    using assms by (simp add: keys_remove_timeout timeouts_wf_def del: set_filter)
  then show ?thesis by auto
qed

lemma wf_abort_timeout [wf_intros]: "kernel_wf k \<Longrightarrow> kernel_wf (snd (z_abort_thread_timeout t k))"
proof -
  assume wf: "kernel_wf k"
  then have "kernel_wf (k\<lparr>timeout_list := remove_timeout t (timeout_list k)\<rparr>)"
    by (intro wf_timeout_list)
       (auto simp: kernel_wf_def keys_removed timeouts_wf_remove z_is_inactive_timeout_def)
  with wf show ?thesis by (simp add: z_abort_thread_timeout_def z_abort_timeout_def)
qed

lemma abort_timeout_sel [simp]:
  "runq (snd (z_abort_thread_timeout t k)) = runq k"
  "wait_qs (snd (z_abort_thread_timeout t k)) = wait_qs k"
  "threads (snd (z_abort_thread_timeout t k)) = threads k"
  "idle_thread (snd (z_abort_thread_timeout t k)) = idle_thread k"
  "current (snd (z_abort_thread_timeout t k)) = current k"
  "hw_elapsed (snd (z_abort_thread_timeout t k)) = hw_elapsed k"
  "in_isr (snd (z_abort_thread_timeout t k)) = in_isr k"
  by (simp_all add: z_abort_thread_timeout_def z_abort_timeout_def)

lemma add_thread_timeout_sel [simp]:
  "runq (z_add_thread_timeout t to k) = runq k" "wait_qs (z_add_thread_timeout t to k) = wait_qs k"
  "threads (z_add_thread_timeout t to k) = threads k"
  "idle_thread (z_add_thread_timeout t to k) = idle_thread k"
  "current (z_add_thread_timeout t to k) = current k" "cache (z_add_thread_timeout t to k) = cache k"
  "hw_elapsed (z_add_thread_timeout t to k) = hw_elapsed k"
  "in_isr (z_add_thread_timeout t to k) = in_isr k"
  by (simp_all add: z_add_thread_timeout_def z_add_timeout_def Let_def)

lemma wf_add_thread_timeout [wf_intros]:
  assumes "kernel_wf k" "z_is_inactive_timeout t k" "t \<notin> set (runq k)" "t \<noteq> idle_thread k"
  shows "kernel_wf (z_add_thread_timeout t timeout k)"
proof -
  have "0 \<le> elapsed (hw_elapsed k) k" using assms(1) by (simp add: elapsed_def kernel_wf_def)
  then have "timeouts_wf (timeout_list (z_add_thread_timeout t timeout k))"
    using assms timeout_ticks_pos [of "hw_elapsed k" timeout k]
    by (auto simp: z_add_thread_timeout_def timeout_list_add kernel_wf_def
        z_is_inactive_timeout_def intro!: timeouts_wf_insert)
  moreover have "fst ` set (timeout_list (z_add_thread_timeout t timeout k)) \<subseteq>
      insert t (fst ` set (timeout_list k))"
    by (simp add: z_add_thread_timeout_def timeout_list_add subset_insertI)
  moreover have "tprio (z_add_thread_timeout t timeout k) = tprio k"
    by (simp add: tprio_def fun_eq_iff z_add_thread_timeout_def z_add_timeout_def Let_def)
  moreover have "\<forall>u \<in> set (runq k). z_is_inactive_timeout u (z_add_thread_timeout t timeout k)"
    using calculation(2) assms(1,3) unfolding kernel_wf_def z_is_inactive_timeout_def by blast
  moreover have "z_is_inactive_timeout (idle_thread k) (z_add_thread_timeout t timeout k)"
    using calculation(2) assms(1,4) unfolding kernel_wf_def z_is_inactive_timeout_def by blast
  ultimately show ?thesis
    using assms(1) by (simp add: kernel_wf_def runq_wf_def waitq_wf_def
        z_is_thread_prevented_from_running_def)
qed

lemma wf_add_to_waitq [wf_intros]:
  assumes "kernel_wf k" "t \<noteq> idle_thread k" "pended_on (threads k t) = None"
  shows "kernel_wf (add_to_waitq_locked t wq k)"
proof -
  let ?k1 = "set_flag THREAD_PENDING t (unready_thread t k)"
  have k1: "kernel_wf ?k1"
    using assms(1,2) by (auto intro!: wf_intros simp: unready_not_queued)
  have flag: "THREAD_PENDING \<in> thread_state (threads ?k1 t)"
    and pend: "pended_on (threads ?k1 u) = pended_on (threads k u)"
    and same: "idle_thread ?k1 = idle_thread k" "wait_qs ?k1 = wait_qs k" for u
    by (simp_all add: set_flag_def upd_thread_def)
  show ?thesis
  proof (cases wq)
    case None
    with k1 show ?thesis by (simp add: add_to_waitq_locked_def)
  next
    case (Some w)
    let ?k2 = "upd_thread t (\<lambda>th. th\<lparr>pended_on := Some w\<rparr>) ?k1"
    let ?k3 = "?k2\<lparr>wait_qs := (wait_qs ?k2)(w := z_priq_dumb_add ?k2 (wait_qs ?k2 w) t)\<rparr>"
    have notin: "t \<notin> set (wait_qs k v)" for v
      using assms(1,3) by (auto simp: wf_defs)
    have "tprio ?k3 = tprio ?k1" by simp
    then have "runq_wf ?k3"
      using k1 unfolding runq_wf_def kernel_wf_def
      by (simp add: upd_thread_def z_is_thread_prevented_from_running_def)
    moreover have "waitq_wf ?k3"
      using k1 flag notin assms(2,3) pend same
      by (auto simp: wf_defs upd_thread_def z_priq_dumb_add_insort split: if_splits)
    moreover have "timeouts_wf (timeout_list ?k3)" "0 \<le> hw_elapsed ?k3"
      "\<forall>u \<in> set (runq ?k3). z_is_inactive_timeout u ?k3"
      "z_is_inactive_timeout (idle_thread ?k3) ?k3"
      using k1 by (simp_all add: kernel_wf_def upd_thread_def z_is_inactive_timeout_def)
    ultimately show ?thesis
      by (simp add: Some add_to_waitq_locked_def Let_def kernel_wf_def)
  qed
qed

lemma add_to_waitq_sel [simp]:
  "idle_thread (add_to_waitq_locked t wq k) = idle_thread k"
  "current (add_to_waitq_locked t wq k) = current k"
  "timeout_list (add_to_waitq_locked t wq k) = timeout_list k"
  "in_isr (add_to_waitq_locked t wq k) = in_isr k"
  "hw_elapsed (add_to_waitq_locked t wq k) = hw_elapsed k"
  "swap_data (threads (add_to_waitq_locked t wq k) u) = swap_data (threads k u)"
  "prio (threads (add_to_waitq_locked t wq k) u) = prio (threads k u)"
  by (auto simp: add_to_waitq_locked_def Let_def set_flag_def upd_thread_def split: option.splits)

lemma wait_qs_add_to_waitq:
  "wait_qs (add_to_waitq_locked t (Some w) k) =
     (wait_qs k)(w := insort_stable (tprio k) t (wait_qs k w))"
proof -
  have "tprio (upd_thread t (\<lambda>th. th\<lparr>pended_on := Some w\<rparr>)
          (set_flag THREAD_PENDING t (unready_thread t k))) = tprio k"
    by (auto simp: tprio_def upd_thread_def set_flag_def)
  then show ?thesis
    by (simp add: add_to_waitq_locked_def Let_def z_priq_dumb_add_insort)
       (simp add: upd_thread_def set_flag_def)
qed

lemma add_to_waitq_not_queued:
  "kernel_wf k \<Longrightarrow> t \<notin> set (runq (add_to_waitq_locked t wq k))"
  using unready_not_queued [of k t]
  by (auto simp: add_to_waitq_locked_def Let_def set_flag_def upd_thread_def split: option.splits)

lemma wf_pend [wf_intros]:
  assumes "kernel_wf k" "t \<noteq> idle_thread k" "pended_on (threads k t) = None"
    "z_is_inactive_timeout t k"
  shows "kernel_wf (pend t wq timeout k)"
proof -
  have "kernel_wf (add_to_waitq_locked t wq k)" using assms(1-3) by (rule wf_add_to_waitq)
  then show ?thesis
    using assms(1,2,4) add_to_waitq_not_queued [of k t wq]
    by (simp add: pend_def add_thread_timeout_def wf_add_thread_timeout z_is_inactive_timeout_def)
qed

text \<open>A thread that calls into the kernel: not the idle thread, not waiting, no timeout armed.\<close>

definition running :: "kernel \<Rightarrow> bool" where
  "running k \<longleftrightarrow>
     current k \<noteq> idle_thread k \<and> pended_on (threads k (current k)) = None
     \<and> z_is_inactive_timeout (current k) k"

lemma wf_pend_curr [wf_intros]:
  "kernel_wf k \<Longrightarrow> running k \<Longrightarrow> kernel_wf (z_pend_curr wq timeout k)"
  by (auto simp: z_pend_curr_def Let_def running_def z_is_inactive_timeout_def intro!: wf_intros)

lemma wf_unpend_thread [wf_intros]: "kernel_wf k \<Longrightarrow> kernel_wf (z_unpend_thread t k)"
  by (simp add: z_unpend_thread_def wf_intros)

lemma wf_unpend_first [wf_intros]: "kernel_wf k \<Longrightarrow> kernel_wf (snd (z_unpend_first_thread wq k))"
  by (auto simp: z_unpend_first_thread_def split: option.splits intro!: wf_intros)

lemma wf_unpend1 [wf_intros]: "kernel_wf k \<Longrightarrow> kernel_wf (snd (z_unpend1_no_timeout wq k))"
  by (auto simp: z_unpend1_no_timeout_def split: option.splits intro!: wf_intros)

lemma waiting_not_idle: "kernel_wf k \<Longrightarrow> t \<in> set (wait_qs k wq) \<Longrightarrow> t \<noteq> idle_thread k"
  by (auto simp: wf_defs)

lemma best_Some: "z_priq_dumb_best pq = Some t \<longleftrightarrow> (\<exists>r. pq = t # r)"
  by (auto simp: z_priq_dumb_best_def split: list.splits)

lemma best_None: "z_priq_dumb_best pq = None \<longleftrightarrow> pq = []"
  by (auto simp: z_priq_dumb_best_def split: list.splits)

lemma waiting_iff: "kernel_wf k \<Longrightarrow> t \<in> set (wait_qs k w) \<longleftrightarrow> pended_on (threads k t) = Some w"
  by (simp add: wf_defs)

lemma unpend_first_cases:
  assumes "kernel_wf k"
  obtains "wait_qs k wq = []" "z_unpend_first_thread wq k = (None, k)"
  | t r k' where "wait_qs k wq = t # r" "z_unpend_first_thread wq k = (Some t, k')"
      "kernel_wf k'" "t \<noteq> idle_thread k'" "wait_qs k' = (wait_qs k)(wq := r)"
      "z_is_inactive_timeout t k'" "idle_thread k' = idle_thread k" "current k' = current k"
      "\<forall>u. swap_data (threads k' u) = swap_data (threads k u)"
proof (cases "wait_qs k wq")
  case Nil
  then show ?thesis using that(1) by (simp add: z_unpend_first_thread_def z_priq_dumb_best_def)
next
  case (Cons t r)
  let ?k = "snd (z_abort_thread_timeout t (unpend_thread_no_timeout t k))"
  have "pended_on (threads k t) = Some wq"
    using waiting_iff [OF assms, of t wq] Cons by simp
  then have wqs: "wait_qs ?k = (wait_qs k)(wq := r)"
    by (simp add: wait_qs_unpend Cons)
  have inactive: "z_is_inactive_timeout t ?k"
    using assms by (simp add: z_is_inactive_timeout_def z_abort_thread_timeout_def
        timeout_list_abort keys_removed kernel_wf_def)
  show ?thesis
  proof (rule that(2) [OF Cons])
    show "z_unpend_first_thread wq k = (Some t, ?k)"
      by (simp add: z_unpend_first_thread_def z_priq_dumb_best_def Cons)
    show "kernel_wf ?k" using assms by (intro wf_intros)
    show "t \<noteq> idle_thread ?k" using waiting_not_idle [OF assms, of t wq] Cons by simp
  qed (use wqs inactive in simp_all)
qed

subsection \<open>Thread control\<close>

lemma wf_thread_timeout [wf_intros]:
  "kernel_wf k \<Longrightarrow> t \<noteq> idle_thread k \<Longrightarrow> kernel_wf (z_thread_timeout t k)"
proof -
  assume wf: "kernel_wf k" and t: "t \<noteq> idle_thread k"
  define k1 where "k1 = (if pended_on (threads k t) \<noteq> None then unpend_thread_no_timeout t k else k)"
  have k1: "kernel_wf k1" "idle_thread k1 = idle_thread k" using wf by (auto simp: k1_def intro!: wf_intros)
  then have "kernel_wf (clear_flag THREAD_SUSPENDED t (clear_flag THREAD_PRESTART t k1))"
    by (auto intro!: wf_intros)
  moreover have "idle_thread (clear_flag THREAD_SUSPENDED t (clear_flag THREAD_PRESTART t k1)) = idle_thread k"
    using k1 by (simp add: clear_flag_def upd_thread_def)
  ultimately show ?thesis
    using wf t unfolding z_thread_timeout_def Let_def k1_def [symmetric]
    by (simp add: wf_ready_thread)
qed

lemma wf_sched_start [wf_intros]:
  "kernel_wf k \<Longrightarrow> t \<noteq> idle_thread k \<Longrightarrow> kernel_wf (z_sched_start t k)"
  by (auto simp: z_sched_start_def intro!: wf_intros) (simp add: clear_flag_def upd_thread_def)

lemma wf_thread_resume [wf_intros]:
  "kernel_wf k \<Longrightarrow> t \<noteq> idle_thread k \<Longrightarrow> kernel_wf (z_impl_k_thread_resume t k)"
  by (auto simp: z_impl_k_thread_resume_def intro!: wf_intros) (simp add: clear_flag_def upd_thread_def)

lemma wf_thread_suspend [wf_intros]: "kernel_wf k \<Longrightarrow> kernel_wf (z_impl_k_thread_suspend t k)"
proof -
  assume wf: "kernel_wf k"
  define k1 where "k1 = snd (z_abort_thread_timeout t k)"
  define k2 where "k2 = (if z_is_thread_queued t k1 then dequeue_thread t k1 else k1)"
  have k1: "kernel_wf k1" using wf by (simp add: k1_def wf_intros)
  then have "kernel_wf k2" by (simp add: k2_def wf_intros)
  moreover have "t \<notin> set (runq k2)"
    using k1 queued_iff [OF k1, of t] by (auto simp: k2_def wf_defs)
  ultimately have "kernel_wf (set_flag THREAD_SUSPENDED t k2)" by (intro wf_intros) auto
  then show ?thesis
    unfolding z_impl_k_thread_suspend_def Let_def k1_def [symmetric] k2_def [symmetric]
    by (auto intro!: wf_intros)
qed

lemma wf_upd_prio:
  assumes "kernel_wf k" "t \<notin> set (runq k)"
  shows "kernel_wf (upd_thread t (\<lambda>th. th\<lparr>prio := p\<rparr>) k)"
proof -
  let ?k = "upd_thread t (\<lambda>th. th\<lparr>prio := p\<rparr>) k"
  have m: "map (tprio ?k) (runq k) = map (tprio k) (runq k)"
    using assms(2) by (auto simp: tprio_def upd_thread_def)
  have "sorted (map (tprio ?k) (runq k))"
    unfolding m using assms(1) by (simp add: kernel_wf_def runq_wf_def)
  moreover have "runq ?k = runq k" "idle_thread ?k = idle_thread k" "wait_qs ?k = wait_qs k"
    "timeout_list ?k = timeout_list k" "hw_elapsed ?k = hw_elapsed k"
    "thread_state (threads ?k u) = thread_state (threads k u)"
    "pended_on (threads ?k u) = pended_on (threads k u)" for u
    by (simp_all add: upd_thread_def)
  ultimately show ?thesis
    using assms(1) by (simp add: wf_defs)
qed

lemma dequeued: "kernel_wf k \<Longrightarrow> t \<notin> set (runq (dequeue_thread t k))"
  by (simp add: wf_defs)

lemma dequeue_ready [simp]: "z_is_thread_ready u (dequeue_thread t k) = z_is_thread_ready u k"
  by (auto simp: pred_defs clear_flag_def upd_thread_def)

lemma wf_set_prio [wf_intros]:
  assumes "kernel_wf k" "t \<noteq> idle_thread k"
  shows "kernel_wf (snd (z_set_prio t p k))"
proof (cases "z_is_thread_ready t k")
  case True
  let ?k = "upd_thread t (\<lambda>th. th\<lparr>prio := p\<rparr>) (dequeue_thread t k)"
  have d: "kernel_wf (dequeue_thread t k)" "t \<notin> set (runq (dequeue_thread t k))"
    using assms(1) by (simp_all only: wf_dequeue_thread dequeued not_False_eq_True)
  then have "kernel_wf ?k" by (rule wf_upd_prio)
  moreover have "t \<notin> set (runq ?k)" "idle_thread ?k = idle_thread k"
    using d(2) by (simp_all add: upd_thread_def)
  moreover have "z_is_thread_ready t ?k"
    using True by (simp add: pred_defs upd_thread_def clear_flag_def)
  ultimately show ?thesis
    using True assms(2) by (simp add: z_set_prio_def wf_update_cache wf_queue_thread)
next
  case False
  then have "t \<notin> set (runq k)"
    using assms(1)
    by (auto simp: z_is_thread_ready_def runq_wf_def kernel_wf_def z_is_thread_timeout_active_def)
  with assms False show ?thesis by (simp add: z_set_prio_def wf_upd_prio)
qed

lemma wf_sched_locked:
  "kernel_wf k \<Longrightarrow> kernel_wf (upd_thread t (\<lambda>th. th\<lparr>sched_locked := f th\<rparr>) k)"
  by (erule same_queues_wf [rotated]) (simp add: same_queues_def upd_thread_def)

lemma wf_sched_lock [wf_intros]:
  "kernel_wf k \<Longrightarrow> kernel_wf (k_sched_lock k)" "kernel_wf k \<Longrightarrow> kernel_wf (k_sched_unlock k)"
  by (simp_all add: k_sched_lock_def k_sched_unlock_def Let_def wf_sched_locked wf_intros)

lemma wf_thread_priority_set [wf_intros]:
  "kernel_wf k \<Longrightarrow> t \<noteq> idle_thread k \<Longrightarrow> kernel_wf (z_thread_priority_set t p k)"
  using wf_set_prio [of k t p]
  by (auto simp: z_thread_priority_set_def split: prod.splits intro!: wf_reschedule)

lemma wf_requeue:
  assumes "kernel_wf k" "z_is_thread_ready t k" "t \<noteq> idle_thread k"
  shows "kernel_wf (queue_thread t (dequeue_thread t k))"
proof (rule wf_queue_thread)
  show "kernel_wf (dequeue_thread t k)" using assms(1) by (rule wf_dequeue_thread)
  show "t \<notin> set (runq (dequeue_thread t k))" using assms(1) by (rule dequeued)
qed (use assms in simp_all)

lemma wf_yield [wf_intros]:
  assumes "kernel_wf k" "current k = idle_thread k \<or> z_is_thread_ready (current k) k"
  shows "kernel_wf (z_impl_k_yield k)"
  using assms wf_requeue [of k "current k"]
  by (auto simp: z_impl_k_yield_def intro: wf_swap wf_update_cache)

lemma wf_tick_sleep [wf_intros]:
  assumes "kernel_wf k" "running k" "z_is_thread_ready (current k) k"
  shows "kernel_wf (z_tick_sleep ticks k)"
proof (cases "ticks = 0")
  case True
  with assms show ?thesis by (simp add: z_tick_sleep_def wf_yield)
next
  case False
  let ?t = "current k"
  let ?k = "unready_thread ?t (k\<lparr>pending_current := Some ?t\<rparr>)"
  have wf: "kernel_wf ?k" using assms(1) by (intro wf_intros)
  have out: "?t \<notin> set (runq ?k)" using assms(1) by (intro unready_not_queued wf_intros)
  have "z_is_inactive_timeout ?t ?k"
    using assms(2) by (simp add: running_def z_is_inactive_timeout_def)
  then have "kernel_wf (set_flag THREAD_SUSPENDED ?t (z_add_thread_timeout ?t ticks ?k))"
    using assms(1,2) wf out by (intro wf_intros) (auto simp: running_def)
  then show ?thesis using False by (simp add: z_tick_sleep_def Let_def wf_swap)
qed

lemma wf_sleep [wf_intros]:
  "kernel_wf k \<Longrightarrow> running k \<Longrightarrow> z_is_thread_ready (current k) k \<Longrightarrow> kernel_wf (z_impl_k_sleep timeout k)"
  by (simp add: z_impl_k_sleep_def wf_tick_sleep wf_thread_suspend)

lemma clear_flag_idle [simp]: "idle_thread (clear_flag f t k) = idle_thread k"
  "current (clear_flag f t k) = current k" "wait_qs (clear_flag f t k) = wait_qs k"
  "runq (clear_flag f t k) = runq k"
  by (simp_all add: clear_flag_def upd_thread_def)

lemma set_flag_sel [simp]: "idle_thread (set_flag f t k) = idle_thread k"
  "current (set_flag f t k) = current k" "wait_qs (set_flag f t k) = wait_qs k"
  "runq (set_flag f t k) = runq k" "pended_on (threads (set_flag f t k) u) = pended_on (threads k u)"
  by (simp_all add: set_flag_def upd_thread_def)

lemma wf_wakeup [wf_intros]:
  assumes "kernel_wf k" "t \<noteq> idle_thread k"
  shows "kernel_wf (z_impl_k_wakeup t k)"
proof -
  have "kernel_wf (snd (z_abort_thread_timeout t k))" using assms(1) by (rule wf_abort_timeout)
  moreover from this have
    "kernel_wf (ready_thread t (clear_flag THREAD_SUSPENDED t (snd (z_abort_thread_timeout t k))))"
    using assms(2) by (intro wf_ready_thread wf_clear_flag) simp_all
  ultimately show ?thesis
    using assms(1)
    by (simp add: z_impl_k_wakeup_def z_ready_thread_def Let_def case_prod_beta wf_reschedule)
qed

lemma wf_sched_wake [wf_intros]:
  assumes "kernel_wf k"
  shows "kernel_wf (snd (z_sched_wake wq v d k))"
proof (cases "wait_qs k wq")
  case Nil
  with assms show ?thesis by (simp add: z_sched_wake_def z_priq_dumb_best_def)
next
  case (Cons t r)
  have "t \<noteq> idle_thread k" using waiting_not_idle [OF assms, of t wq] Cons by simp
  then have "kernel_wf (ready_thread t (snd (z_abort_thread_timeout t
      (unpend_thread_no_timeout t (z_thread_return_value_set_with_data t v d k)))))"
    using assms by (intro wf_intros)
      (simp_all add: z_thread_return_value_set_with_data_def upd_thread_def)
  with Cons show ?thesis by (simp add: z_sched_wake_def z_priq_dumb_best_def Let_def)
qed

text \<open>
  One round of the wake-all loops: the head leaves the queue, so the loop bound chosen (the
  queue's length) empties it.
\<close>

lemma unpend_head:
  assumes "kernel_wf k" "wait_qs k wq = t # r"
  shows "wait_qs (unpend_thread_no_timeout t k) = (wait_qs k)(wq := r)"
    and "t \<noteq> idle_thread k"
  using waiting_iff [OF assms(1), of t wq] waiting_not_idle [OF assms(1), of t wq] assms(2)
  by (simp_all add: wait_qs_unpend)

lemma unpend_all_loop_wf:
  "kernel_wf k \<Longrightarrow> length (wait_qs k wq) \<le> n \<Longrightarrow>
   kernel_wf (unpend_all_loop n wq k) \<and> wait_qs (unpend_all_loop n wq k) = (wait_qs k)(wq := [])
   \<and> idle_thread (unpend_all_loop n wq k) = idle_thread k
   \<and> current (unpend_all_loop n wq k) = current k
   \<and> in_isr (unpend_all_loop n wq k) = in_isr k"
proof (induction n arbitrary: k)
  case 0
  then show ?case by auto
next
  case (Suc n)
  show ?case
  proof (cases "wait_qs k wq")
    case Nil
    with Suc.prems show ?thesis by auto
  next
    case (Cons t r)
    note head = unpend_head [OF Suc.prems(1) Cons]
    let ?k = "ready_thread t (arch_thread_return_value_set t 0
                (snd (z_abort_thread_timeout t (unpend_thread_no_timeout t k))))"
    have sel: "idle_thread ?k = idle_thread k" "current ?k = current k" "in_isr ?k = in_isr k"
      "wait_qs ?k = (wait_qs k)(wq := r)"
      using head by (simp_all add: arch_thread_return_value_set_def upd_thread_def)
    have "kernel_wf ?k"
      using Suc.prems(1) head
      by (intro wf_intros) (simp_all add: arch_thread_return_value_set_def upd_thread_def)
    moreover have "length r \<le> n" using Suc.prems(2) Cons by simp
    ultimately show ?thesis
      using Suc.IH [of ?k, unfolded sel fun_upd_upd] Cons by simp
  qed
qed

lemma wf_unpend_all [wf_intros]: "kernel_wf k \<Longrightarrow> kernel_wf (unpend_all wq k)"
  using unpend_all_loop_wf [of k wq] by (simp add: unpend_all_def)

lemma unpend_all_sel:
  assumes "kernel_wf k"
  shows "wait_qs (unpend_all wq k) = (wait_qs k)(wq := [])"
    "idle_thread (unpend_all wq k) = idle_thread k" "current (unpend_all wq k) = current k"
    "in_isr (unpend_all wq k) = in_isr k"
  using unpend_all_loop_wf [OF assms, of wq] by (simp_all add: unpend_all_def)

lemma z_unpend_all_loop_wf:
  "kernel_wf k \<Longrightarrow> length (wait_qs k wq) \<le> n \<Longrightarrow>
   kernel_wf (z_unpend_all_loop n wq k) \<and> wait_qs (z_unpend_all_loop n wq k) = (wait_qs k)(wq := [])"
proof (induction n arbitrary: k)
  case 0
  then show ?case by auto
next
  case (Suc n)
  show ?case
  proof (cases "wait_qs k wq")
    case Nil
    with Suc.prems show ?thesis by auto
  next
    case (Cons t r)
    note head = unpend_head [OF Suc.prems(1) Cons]
    let ?k = "ready_thread t (z_unpend_thread t k)"
    have sel: "wait_qs ?k = (wait_qs k)(wq := r)"
      using head by (simp add: z_unpend_thread_def)
    have "kernel_wf ?k"
      using Suc.prems(1) head by (intro wf_intros) (simp_all add: z_unpend_thread_def)
    moreover have "length r \<le> n" using Suc.prems(2) Cons by simp
    ultimately show ?thesis
      using Suc.IH [of ?k, unfolded sel fun_upd_upd] Cons by (simp add: z_ready_thread_def)
  qed
qed

lemma wf_z_unpend_all [wf_intros]: "kernel_wf k \<Longrightarrow> kernel_wf (snd (z_unpend_all wq k))"
  using z_unpend_all_loop_wf [of k wq] by (simp add: z_unpend_all_def)

lemma wf_move_to_end [wf_intros]:
  assumes "kernel_wf k" "z_is_thread_ready t k" "t \<noteq> idle_thread k"
  shows "kernel_wf (move_thread_to_end_of_prio_q t k)"
proof -
  have "t \<notin> set (runq k)" if "\<not> z_is_thread_queued t k"
    using assms(1) that by (simp add: wf_defs z_is_thread_queued_def)
  then show ?thesis
    using assms wf_requeue [of k t]
    by (simp add: move_thread_to_end_of_prio_q_def wf_update_cache wf_queue_thread)
qed

lemma wf_time_slice [wf_intros]:
  assumes "kernel_wf k" "z_is_inactive_timeout (current k) k"
  shows "kernel_wf (z_time_slice ticks k)"
proof -
  let ?k = "k\<lparr>pending_current := None\<rparr>"
  have wf: "kernel_wf ?k" using assms(1) by (rule wf_pending_current)
  have slice: "kernel_wf (k'\<lparr>slice_ticks := i\<rparr>)" if "kernel_wf k'" for k' i
    using that by (rule same_queues_wf [OF same_queues_field(2)])
  have reset: "kernel_wf (z_reset_time_slice k')" if "kernel_wf k'" for k'
    using that by (rule same_queues_wf [OF same_queues_reset_time_slice])
  have "z_is_thread_ready (current ?k) ?k" if "sliceable (current ?k) ?k"
    using that assms(2)
    by (simp add: sliceable_def z_is_thread_ready_def z_is_thread_timeout_active_def
        z_is_inactive_timeout_def)
  then have "kernel_wf (move_thread_to_end_of_prio_q (current ?k) ?k)"
    if "sliceable (current ?k) ?k"
    using that wf by (intro wf_move_to_end) (auto simp: sliceable_def)
  then show ?thesis
    using assms(1) wf slice [OF wf] by (auto simp: z_time_slice_def Let_def intro: reset)
qed

lemma dequeue_set_dead:
  "dequeue_thread t (clear_flag THREAD_ABORTING t (set_flag THREAD_DEAD t k)) =
   clear_flag THREAD_ABORTING t (set_flag THREAD_DEAD t (dequeue_thread t k))"
proof -
  have "insert THREAD_DEAD S - {THREAD_ABORTING} - {THREAD_QUEUED} =
        insert THREAD_DEAD (S - {THREAD_QUEUED}) - {THREAD_ABORTING}" for S by auto
  then show ?thesis
    by (simp add: dequeue_thread_def set_flag_def clear_flag_def upd_thread_def)
qed

lemma wf_end_thread [wf_intros]:
  assumes "kernel_wf k" "t \<noteq> idle_thread k"
  shows "kernel_wf (end_thread t k)"
proof (cases "THREAD_DEAD \<in> thread_state (threads k t)")
  case True
  with assms show ?thesis by (simp add: end_thread_def)
next
  case False
  define k1 where "k1 = clear_flag THREAD_ABORTING t (set_flag THREAD_DEAD t k)"
  define k2 where "k2 = (if z_is_thread_queued t k1 then dequeue_thread t k1 else k1)"
  define k3 where
    "k3 = (if pended_on (threads k2 t) \<noteq> None then unpend_thread_no_timeout t k2 else k2)"
  have "z_is_thread_queued t k1 \<longleftrightarrow> t \<in> set (runq k)"
    using assms(1)
    by (simp add: k1_def z_is_thread_queued_def set_flag_def clear_flag_def upd_thread_def wf_defs)
  then have "kernel_wf k2"
    using assms(1) dequeued [OF assms(1), of t]
    by (auto simp: k2_def k1_def dequeue_set_dead simp del: dequeue_thread_sel intro!: wf_intros)
  then have "kernel_wf k3" by (simp add: k3_def wf_unpend_no_timeout)
  then have "kernel_wf (update_cache True (unpend_all (JoinQ t) (snd (z_abort_thread_timeout t k3))))"
    by (intro wf_intros)
  with False show ?thesis
    unfolding end_thread_def Let_def k1_def [symmetric] k2_def [symmetric] k3_def [symmetric]
    by simp
qed

lemma wf_thread_abort [wf_intros]:
  "kernel_wf k \<Longrightarrow> t \<noteq> idle_thread k \<Longrightarrow> kernel_wf (z_thread_abort t k)"
  by (simp add: z_thread_abort_def Let_def wf_end_thread wf_swap)

lemma wf_thread_join [wf_intros]:
  assumes "kernel_wf k" "running k"
  shows "kernel_wf (snd (z_impl_k_thread_join t timeout k))"
  using wf_pend [of k "current k" "Some (JoinQ t)" timeout] assms
  by (auto simp: z_impl_k_thread_join_def pend_def running_def intro!: wf_swap)

section \<open>Expiry of thread timeouts\<close>

lemma thread_timeout_sel [simp]:
  "timeout_list (z_thread_timeout t k) = timeout_list k"
  "curr_tick (z_thread_timeout t k) = curr_tick k"
  "announce_remaining (z_thread_timeout t k) = announce_remaining k"
  "idle_thread (z_thread_timeout t k) = idle_thread k"
  "hw_elapsed (z_thread_timeout t k) = hw_elapsed k"
  by (simp_all add: z_thread_timeout_def Let_def)
     (simp_all add: unpend_thread_no_timeout_def clear_flag_def upd_thread_def Let_def split: option.split)

interpretation thread_expiry: expiry_handler z_thread_timeout
  by unfold_locales simp_all

lemma reset_time_slice_sel [simp]:
  "timeout_list (z_reset_time_slice k) = timeout_list k"
  "curr_tick (z_reset_time_slice k) = curr_tick k"
  "idle_thread (z_reset_time_slice k) = idle_thread k"
  by (simp_all add: z_reset_time_slice_def z_set_timeout_expiry_def Let_def)

lemma time_slice_sel [simp]:
  "timeout_list (z_time_slice ticks k) = timeout_list k"
  "curr_tick (z_time_slice ticks k) = curr_tick k"
  "idle_thread (z_time_slice ticks k) = idle_thread k"
  by (simp_all add: z_time_slice_def move_thread_to_end_of_prio_q_def Let_def)
     (simp_all add: queue_thread_def dequeue_thread_def thread_defs Let_def)

lemma wf_clock [wf_intros]:
  "kernel_wf k \<Longrightarrow> kernel_wf (k\<lparr>announce_remaining := i\<rparr>)"
  "kernel_wf k \<Longrightarrow> kernel_wf (k\<lparr>curr_tick := i\<rparr>)"
  "kernel_wf k \<Longrightarrow> kernel_wf (k\<lparr>hw_timeout := h\<rparr>)"
  by (erule same_queues_wf [rotated], simp add: same_queues_def)+

lemma wf_pop:
  assumes "kernel_wf k" "timeout_list k = (t, d) # r"
  shows "kernel_wf (pop_timeout k)" "t \<noteq> idle_thread (pop_timeout k)"
proof -
  let ?k = "k\<lparr>curr_tick := curr_tick k + d, announce_remaining := announce_remaining k - d\<rparr>"
  have "kernel_wf ?k" using assms(1) by (intro wf_clock)
  then have "kernel_wf (?k\<lparr>timeout_list := r\<rparr>)"
    by (rule wf_timeout_list) (use assms in \<open>auto simp: wf_defs timeouts_wf_def\<close>)
  then show "kernel_wf (pop_timeout k)" by (simp add: pop_timeout_def assms(2))
  show "t \<noteq> idle_thread (pop_timeout k)"
    using assms by (auto simp: pop_timeout_def wf_defs)
qed

lemma kernel_wf_timeouts: "kernel_wf k \<Longrightarrow> timeouts_wf (timeout_list k)"
  by (simp add: kernel_wf_def)

lemma wf_fold_due:
  assumes "kernel_wf k"
  defines "k' \<equiv> fold (\<lambda>t k. z_thread_timeout t (pop_timeout k)) (due k) k"
  shows "kernel_wf k' \<and> due k' = []"
proof -
  have "kernel_wf k' \<and> due k' = [] \<and> timeouts_wf (timeout_list k')"
    unfolding k'_def
    by (rule thread_expiry.fold_due_inv [where I = kernel_wf])
       (fact kernel_wf_timeouts [OF assms(1)], fact assms(1), rule wf_thread_timeout [OF wf_pop])
  then show ?thesis by simp
qed

lemma wf_announce_finish [wf_intros]:
  assumes "kernel_wf k" "due k = []"
  shows "kernel_wf (announce_finish el k)"
proof -
  let ?l = "case timeout_list k of [] \<Rightarrow> [] | (t, d) # r \<Rightarrow> (t, d - announce_remaining k) # r"
  have "map fst ?l = map fst (timeout_list k)" by (cases "timeout_list k") auto
  then have keys: "fst ` set ?l = fst ` set (timeout_list k)" by (metis list.set_map)
  have "timeouts_wf ?l"
    using timeouts_wf_finish [OF kernel_wf_timeouts [OF assms(1)] assms(2), of el]
    by (simp add: announce_finish_def Let_def)
  then have "kernel_wf (k\<lparr>timeout_list := ?l\<rparr>)"
    using assms(1) keys by (intro wf_timeout_list) (auto simp: wf_defs)
  then show ?thesis by (simp add: announce_finish_def Let_def wf_clock)
qed

text \<open>The announcement the system timer makes, with the thread timeout handler.\<close>

definition thread_announce :: "nat \<Rightarrow> int \<Rightarrow> int \<Rightarrow> kernel \<Rightarrow> kernel option" where
  "thread_announce fuel el ticks k = sys_clock_announce fuel el z_thread_timeout z_time_slice ticks k"

lemma thread_announce_eq:
  assumes "kernel_wf k" "length (timeout_list k) < fuel"
    and k1_def: "k1 = (z_time_slice ticks k)\<lparr>announce_remaining := ticks\<rparr>"
  shows "thread_announce fuel el ticks k =
    Some (announce_finish el (fold (\<lambda>t k. z_thread_timeout t (pop_timeout k)) (due k1) k1))"
  using thread_expiry.announce_loop_due [of k1 fuel] assms
  by (simp add: thread_announce_def sys_clock_announce_def Let_def k1_def kernel_wf_timeouts)

lemma wf_announce:
  assumes "kernel_wf k" "z_is_inactive_timeout (current k) k" "thread_announce fuel el ticks k = Some k'"
    "length (timeout_list k) < fuel"
  shows "kernel_wf k'"
proof -
  let ?k = "(z_time_slice ticks k)\<lparr>announce_remaining := ticks\<rparr>"
  have "kernel_wf ?k" using assms(1,2) by (intro wf_intros)
  then have "kernel_wf (announce_finish el
      (fold (\<lambda>t k. z_thread_timeout t (pop_timeout k)) (due ?k) ?k))"
    using wf_fold_due [of ?k] by (intro wf_announce_finish) blast+
  then show ?thesis
    using assms(3) thread_announce_eq [OF assms(1,4) refl, of el ticks] by simp
qed

section \<open>The kernel as a transition system\<close>

text \<open>
  The operations in the order \<open>sched.c\<close> has them. A thread calls in while it runs
  (\<open>running\<close>); an interrupt may arrive at any point between operations, may wake threads,
  announce ticks and leave through the deferred switch (\<open>isr_exit\<close>).
\<close>

definition kernel_init :: "kernel \<Rightarrow> bool" where
  "kernel_init k \<longleftrightarrow>
     runq k = [] \<and> (\<forall>w. wait_qs k w = []) \<and> timeout_list k = [] \<and> hw_elapsed k = 0
     \<and> (\<forall>t. THREAD_QUEUED \<notin> thread_state (threads k t) \<and> pended_on (threads k t) = None)
     \<and> THREAD_PENDING \<notin> thread_state (threads k (idle_thread k))"

inductive kstep :: "kernel \<Rightarrow> kernel \<Rightarrow> bool" where
  sched_start: "t \<noteq> idle_thread k \<Longrightarrow> kstep k (z_sched_start t k)"
| thread_suspend: "kstep k (z_impl_k_thread_suspend t k)"
| thread_resume: "t \<noteq> idle_thread k \<Longrightarrow> kstep k (z_impl_k_thread_resume t k)"
| pend_curr: "running k \<Longrightarrow> kstep k (z_pend_curr wq timeout k)"
| pend_thread:
    "t \<noteq> idle_thread k \<Longrightarrow> pended_on (threads k t) = None \<Longrightarrow> z_is_inactive_timeout t k \<Longrightarrow>
     kstep k (z_pend_thread t wq timeout k)"
| unpend_first: "kstep k (snd (z_unpend_first_thread wq k))"
| unpend1: "kstep k (snd (z_unpend1_no_timeout wq k))"
| unpend_thread: "kstep k (z_unpend_thread t k)"
| ready: "t \<noteq> idle_thread k \<Longrightarrow> kstep k (z_ready_thread t k)"
| sched_wake: "kstep k (snd (z_sched_wake wq v d k))"
| wake_all: "kstep k (snd (z_unpend_all wq k))"
| priority_set: "t \<noteq> idle_thread k \<Longrightarrow> kstep k (z_thread_priority_set t p k)"
| sched_lock: "kstep k (k_sched_lock k)"
| sched_unlock: "kstep k (k_sched_unlock k)"
| yield: "current k = idle_thread k \<or> z_is_thread_ready (current k) k \<Longrightarrow> kstep k (z_impl_k_yield k)"
| sleep: "running k \<Longrightarrow> z_is_thread_ready (current k) k \<Longrightarrow> kstep k (z_impl_k_sleep timeout k)"
| wakeup: "t \<noteq> idle_thread k \<Longrightarrow> kstep k (z_impl_k_wakeup t k)"
| thread_abort: "t \<noteq> idle_thread k \<Longrightarrow> kstep k (z_thread_abort t k)"
| thread_join: "running k \<Longrightarrow> kstep k (snd (z_impl_k_thread_join t timeout k))"
| reschedule: "kstep k (z_reschedule k)"
| clock: "0 \<le> e \<Longrightarrow> kstep k (k\<lparr>hw_elapsed := e\<rparr>)"
| announce:
    "z_is_inactive_timeout (current k) k \<Longrightarrow> length (timeout_list k) < fuel \<Longrightarrow>
     thread_announce fuel el ticks k = Some k' \<Longrightarrow> kstep k k'"
| isr_enter: "kstep k (k\<lparr>in_isr := True\<rparr>)"
| isr_exit: "kstep k (k\<lparr>in_isr := False, current := cache k\<rparr>)"

inductive_simps kstep_iff: "kstep k k'"

lemma wf_isr [wf_intros]:
  "kernel_wf k \<Longrightarrow> kernel_wf (k\<lparr>in_isr := b\<rparr>)" "kernel_wf k \<Longrightarrow> 0 \<le> e \<Longrightarrow> kernel_wf (k\<lparr>hw_elapsed := e\<rparr>)"
proof -
  have "tprio (k\<lparr>in_isr := b\<rparr>) = tprio k" "tprio (k\<lparr>hw_elapsed := e\<rparr>) = tprio k"
    by (auto simp: tprio_def)
  then show "kernel_wf k \<Longrightarrow> kernel_wf (k\<lparr>in_isr := b\<rparr>)"
    "kernel_wf k \<Longrightarrow> 0 \<le> e \<Longrightarrow> kernel_wf (k\<lparr>hw_elapsed := e\<rparr>)"
    by (simp_all add: wf_defs)
qed

lemma wf_current [wf_intros]: "kernel_wf k \<Longrightarrow> kernel_wf (k\<lparr>current := t\<rparr>)"
  by (erule same_queues_wf [rotated]) (simp add: same_queues_def)

lemma kstep_wf: "kernel_wf k \<Longrightarrow> kstep k k' \<Longrightarrow> kernel_wf k'"
  by (erule kstep.cases)
     (simp_all add: wf_intros z_pend_thread_def z_ready_thread_def, (rule wf_announce; assumption)?)

lemma init_wf: "kernel_init k \<Longrightarrow> kernel_wf k"
  by (simp add: kernel_init_def wf_defs timeouts_wf_def)

interpretation kernel_sys: invariant_system kernel_init kstep kernel_wf
  by unfold_locales (blast intro: init_wf kstep_wf)+

section \<open>The next thread\<close>

lemma next_up_cong: "runq k = runq k' \<Longrightarrow> idle_thread k = idle_thread k' \<Longrightarrow> next_up k = next_up k'"
  by (simp add: next_up_def split: option.split)

lemma cache_update_True [simp]: "cache (update_cache True k) = next_up k"
  by (simp add: update_cache_def should_preempt_def Let_def)

lemma cache_unready: "cache (unready_thread (current k) k) = next_up (unready_thread (current k) k)"
  by (simp add: unready_thread_def Let_def) (auto intro!: next_up_cong)

lemma swap_sel [simp]:
  "current (z_swap k) = cache k" "runq (z_swap k) = runq k" "idle_thread (z_swap k) = idle_thread k"
  "wait_qs (z_swap k) = wait_qs k" "timeout_list (z_swap k) = timeout_list k"
  by (simp_all add: z_swap_def Let_def upd_thread_def)

lemma add_timeout_unless_forever_sel [simp]:
  "cache (add_thread_timeout t timeout k) = cache k" "runq (add_thread_timeout t timeout k) = runq k"
  "idle_thread (add_thread_timeout t timeout k) = idle_thread k"
  "wait_qs (add_thread_timeout t timeout k) = wait_qs k"
  "threads (add_thread_timeout t timeout k) = threads k"
  "current (add_thread_timeout t timeout k) = current k"
  "in_isr (add_thread_timeout t timeout k) = in_isr k"
  by (simp_all add: add_thread_timeout_def z_add_thread_timeout_def z_add_timeout_def Let_def)

lemma next_up_pend_curr:
  "current (z_pend_curr wq timeout k) = next_up (z_pend_curr wq timeout k)"
  "idle_thread (z_pend_curr wq timeout k) = idle_thread k"
proof -
  let ?k = "k\<lparr>pending_current := Some (current k)\<rparr>"
  have "cache (add_to_waitq_locked (current ?k) (Some wq) ?k) = cache (unready_thread (current ?k) ?k)"
    "runq (add_to_waitq_locked (current ?k) (Some wq) ?k) = runq (unready_thread (current ?k) ?k)"
    by (simp_all add: add_to_waitq_locked_def Let_def thread_defs)
  then show "current (z_pend_curr wq timeout k) = next_up (z_pend_curr wq timeout k)"
    using cache_unready [of ?k]
    by (simp add: z_pend_curr_def pend_def) (auto intro!: next_up_cong)
  show "idle_thread (z_pend_curr wq timeout k) = idle_thread k"
    by (simp add: z_pend_curr_def pend_def)
qed

lemma pend_curr_not_queued:
  assumes "kernel_wf k"
  shows "current k \<notin> set (runq (z_pend_curr wq timeout k))"
proof -
  have "kernel_wf (k\<lparr>pending_current := Some (current k)\<rparr>)" using assms by (rule wf_pending_current)
  from add_to_waitq_not_queued [OF this, of "current k" "Some wq"]
  show ?thesis by (simp add: z_pend_curr_def pend_def)
qed

lemma pend_curr_switches:
  assumes "kernel_wf k" "running k"
  shows "current (z_pend_curr wq timeout k) \<noteq> current k"
  using pend_curr_not_queued [OF assms(1), of wq timeout] assms(2)
  by (auto simp: next_up_pend_curr next_up_def z_priq_dumb_best_def running_def split: list.splits)

lemma next_up_best:
  assumes "kernel_wf k"
  shows "\<forall>t. z_is_thread_queued t k \<longrightarrow>
    z_is_thread_queued (next_up k) k \<and> prio (threads k (next_up k)) \<le> prio (threads k t)"
proof -
  have q: "z_is_thread_queued t k \<longleftrightarrow> t \<in> set (runq k)" for t
    using assms by (simp add: z_is_thread_queued_def wf_defs)
  have "sorted (map (tprio k) (runq k))" using assms by (simp add: wf_defs)
  then show ?thesis
    unfolding q by (cases "runq k") (auto simp: next_up_def z_priq_dumb_best_def tprio_def)
qed

section \<open>Expired threads stop waiting\<close>

definition over :: "kernel \<Rightarrow> tid \<Rightarrow> bool" where
  "over k t \<longleftrightarrow>
     pended_on (threads k t) = None
     \<or> {THREAD_DEAD, THREAD_ABORTING} \<inter> thread_state (threads k t) \<noteq> {}"

lemma over_ready [simp]: "over (ready_thread t k) u = over k u"
  by (auto simp: over_def ready_thread_def set_flag_def upd_thread_def)

lemma over_clear_flag [simp]:
  "f \<noteq> THREAD_DEAD \<Longrightarrow> f \<noteq> THREAD_ABORTING \<Longrightarrow> over (clear_flag f t k) u = over k u"
  by (auto simp: over_def clear_flag_def upd_thread_def)

lemma over_unpend: "over (unpend_thread_no_timeout t k) u \<longleftrightarrow> u = t \<or> over k u"
  by (auto simp: over_def unpend_thread_no_timeout_def clear_flag_def upd_thread_def Let_def
      split: option.splits)

lemma over_thread_timeout: "over (z_thread_timeout t k) u \<longleftrightarrow> u = t \<or> over k u"
  by (auto simp: z_thread_timeout_def Let_def over_unpend) (auto simp: over_def)

lemma over_pop: "over (pop_timeout k) = over k"
  by (simp add: over_def pop_timeout_def fun_eq_iff)

lemma fold_due_over:
  assumes "timeouts_wf (timeout_list k)"
  defines "k' \<equiv> fold (\<lambda>t k. z_thread_timeout t (pop_timeout k)) (due k) k"
  shows "\<forall>t \<in> fst ` set (timeout_list k) - fst ` set (timeout_list k'). over k' t"
proof -
  have "(\<forall>t \<in> fst ` set (timeout_list k) - fst ` set (timeout_list k'). over k' t)
      \<and> due k' = [] \<and> timeouts_wf (timeout_list k')"
    unfolding k'_def
  proof (rule thread_expiry.fold_due_inv)
    fix u t d r
    assume "\<forall>t \<in> fst ` set (timeout_list k) - fst ` set (timeout_list u). over u t"
      and l: "timeout_list u = (t, d) # r"
    moreover have "timeout_list (pop_timeout u) = r" by (simp add: pop_timeout_def l)
    ultimately show "\<forall>x \<in> fst ` set (timeout_list k) -
        fst ` set (timeout_list (z_thread_timeout t (pop_timeout u))).
        over (z_thread_timeout t (pop_timeout u)) x"
      by (auto simp: over_pop over_thread_timeout)
  qed (use assms(1) in auto)
  then show ?thesis by simp
qed

section \<open>What the scheduler promises\<close>

text \<open>A kernel with three threads: 0 runs, 1 is ready behind it, 2 is idle.\<close>

definition boot_thread :: "int \<Rightarrow> thread_flag set \<Rightarrow> k_thread" where
  "boot_thread p fl = \<lparr>prio = p, sched_locked = 0, thread_state = fl, pended_on = None,
     swap_retval = 0, swap_data = NoData, is_polling = False, poller_mode = MODE_NONE\<rparr>"

definition boot_kernel :: kernel where
  "boot_kernel =
     \<lparr>timeout_list = [], curr_tick = 0, announce_remaining = 0, slice_ticks = 0, hw_timeout = [],
      threads = (\<lambda>t. boot_thread (if t = 2 then 15 else 7) {}), runq = [], cache = 0, current = 0,
      idle_thread = 2, wait_qs = (\<lambda>_. []), in_isr = False, irq_unlocked = True, hw_elapsed = 0,
      slice_time = 0, slice_max_prio = 0, pending_current = None,
      poll_event = (\<lambda>_. \<lparr>ev_poller = None, ev_type = 0, ev_state = 0, ev_obj = 0\<rparr>)\<rparr>"

definition boot2_kernel :: kernel where
  "boot2_kernel = queue_thread 1 (queue_thread 0 boot_kernel)"

lemma boot_init: "kernel_init boot_kernel"
  by (simp add: kernel_init_def boot_kernel_def boot_thread_def)

lemma boot2_wf: "kernel_wf boot2_kernel"
  unfolding boot2_kernel_def
  by (intro wf_queue_thread init_wf boot_init)
     (simp_all add: boot_kernel_def boot_thread_def queue_thread_def set_flag_def upd_thread_def
       pred_defs Let_def)

lemma boot2_running: "running boot2_kernel"
  by (simp add: boot2_kernel_def running_def queue_thread_def set_flag_def upd_thread_def Let_def
      boot_kernel_def boot_thread_def z_is_inactive_timeout_def)

text \<open>
  (C8) Every state the kernel can reach is well formed: the run queue holds exactly the threads
  marked queued, each able to run and without a timeout, in priority order; a thread is in a
  wait queue exactly when it is pended on it; no two timeouts belong to one thread.
\<close>

theorem kernel_reachable_wf: "reachable kernel_init kstep k \<Longrightarrow> kernel_wf k"
  by (rule kernel_sys.reachable_inv)

theorem kernel_reachable_wf_witness:
  "kernel_wf (z_pend_curr (ObjQ 0) 5 (z_ready_thread 1 (z_ready_thread 0 boot_kernel)))"
proof -
  let ?k0 = "z_ready_thread 0 boot_kernel"
  let ?k1 = "z_ready_thread 1 ?k0"
  have "kstep boot_kernel ?k0" by (rule kstep.ready) (simp add: boot_kernel_def)
  moreover have "kstep ?k0 ?k1"
    by (rule kstep.ready) (simp add: z_ready_thread_def, simp add: boot_kernel_def)
  moreover have "running ?k1"
    by (simp add: z_ready_thread_def running_def z_is_inactive_timeout_def)
       (simp add: boot_kernel_def boot_thread_def)
  then have "kstep ?k1 (z_pend_curr (ObjQ 0) 5 ?k1)" by (rule kstep.pend_curr)
  ultimately have "reachable kernel_init kstep (z_pend_curr (ObjQ 0) 5 ?k1)"
    using boot_init by (meson reachable.intros)
  then show ?thesis by (rule kernel_reachable_wf)
qed

text \<open>
  (C14) When the running thread blocks, the switch goes to the head of the run queue, a thread
  that no ready thread outranks, or to the idle thread when nothing is ready; the blocked thread
  waits behind the waiters of its own or a higher priority, and with a finite timeout it has a
  timeout armed.
\<close>

theorem pend_curr_runs_best:
  assumes "kernel_wf k" "running k" and k': "k' = z_pend_curr wq timeout k"
  shows "current k' = (case runq k' of [] \<Rightarrow> idle_thread k | t # _ \<Rightarrow> t)
    \<and> (\<forall>t. z_is_thread_queued t k' \<longrightarrow>
          z_is_thread_queued (current k') k' \<and> prio (threads k' (current k')) \<le> prio (threads k' t))
    \<and> current k' \<noteq> current k
    \<and> wait_qs k' wq = insort_stable (tprio k) (current k) (wait_qs k wq)
    \<and> (z_is_inactive_timeout (current k) k' \<longleftrightarrow> timeout = K_FOREVER)"
proof -
  have wf: "kernel_wf k'" unfolding k' using assms(1,2) by (rule wf_pend_curr)
  have cur: "current k' = next_up k'" and idle: "idle_thread k' = idle_thread k"
    using next_up_pend_curr by (simp_all add: k')
  have "current k' \<noteq> current k" unfolding k' using assms(1,2) by (rule pend_curr_switches)
  moreover have "\<forall>t. z_is_thread_queued t k' \<longrightarrow>
      z_is_thread_queued (current k') k' \<and> prio (threads k' (current k')) \<le> prio (threads k' t)"
    using wf unfolding cur by (rule next_up_best)
  moreover have "wait_qs k' wq = insort_stable (tprio k) (current k) (wait_qs k wq)"
    by (simp add: k' z_pend_curr_def pend_def wait_qs_add_to_waitq)
  moreover have "z_is_inactive_timeout (current k) k' \<longleftrightarrow> timeout = K_FOREVER"
    using assms(2) by (auto simp: k' z_pend_curr_def pend_def z_is_inactive_timeout_def running_def
        add_thread_timeout_def z_add_thread_timeout_def timeout_list_add)
  ultimately show ?thesis
    using cur idle by (auto simp: next_up_def z_priq_dumb_best_def split: list.splits)
qed

theorem pend_curr_runs_best_witness:
  "current (z_pend_curr (ObjQ 0) 5 boot2_kernel) = 1
   \<and> wait_qs (z_pend_curr (ObjQ 0) 5 boot2_kernel) (ObjQ 0) = [0]"
proof -
  note best = pend_curr_runs_best [OF boot2_wf boot2_running refl, of "ObjQ 0" 5]
  have "runq (z_pend_curr (ObjQ 0) 5 boot2_kernel) = [1]"
    by code_simp
  then show ?thesis using best
    by (simp add: boot2_kernel_def queue_thread_def set_flag_def upd_thread_def Let_def
        boot_kernel_def)
qed



end
