(* ===== verification/Poll.thy ===== *)
theory Poll
  imports Sched
begin

text \<open>
  The part of the polling subsystem, \<open>kernel/poll.c\<close>, that kernel objects call when they become
  available, and the poll signal object. The poller of an event is a thread; triggered work items
  (\<open>k_work_poll\<close>) are not modelled. An object's list of registered events is the list of the
  events' numbers, highest-priority poller first; \<open>poll_event\<close> of the kernel state holds the
  events. Shown here: delivering an event takes at most the first registration, wakes its
  poller, and keeps the kernel well formed.
\<close>

section \<open>Constants\<close>

abbreviation (input) "K_POLL_STATE_NOT_READY \<equiv> (0 :: u32)"
abbreviation (input) "K_POLL_STATE_SIGNALED \<equiv> (1 :: u32)"
abbreviation (input) "K_POLL_STATE_SEM_AVAILABLE \<equiv> (2 :: u32)"
abbreviation (input) "K_POLL_STATE_DATA_AVAILABLE \<equiv> (4 :: u32)"
abbreviation (input) "K_POLL_STATE_CANCELLED \<equiv> (8 :: u32)"
abbreviation (input) "EINTR \<equiv> (4 :: int)"

section \<open>Events\<close>

definition upd_event :: "nat \<Rightarrow> (k_poll_event \<Rightarrow> k_poll_event) \<Rightarrow> kernel \<Rightarrow> kernel" where
  "upd_event e f k = k\<lparr>poll_event := (poll_event k)(e := f (poll_event k e))\<rparr>"

definition k_poll_event_init :: "nat \<Rightarrow> u32 \<Rightarrow> nat \<Rightarrow> kernel \<Rightarrow> kernel" where
  "k_poll_event_init e type obj =
     upd_event e (\<lambda>_. \<lparr>ev_poller = None, ev_type = type, ev_state = K_POLL_STATE_NOT_READY,
                       ev_obj = obj\<rparr>)"

text \<open>\<open>add_event\<close>: the shortcut for the tail, then the first registration the poller outranks.\<close>

fun insert_event :: "kernel \<Rightarrow> tid \<Rightarrow> nat \<Rightarrow> nat list \<Rightarrow> nat list" where
  "insert_event k t e [] = [e]"
| "insert_event k t e (p # r) =
     (if z_sched_prio_cmp k t (the (ev_poller (poll_event k p))) > 0 then e # p # r
      else p # insert_event k t e r)"

definition add_event :: "nat list \<Rightarrow> nat \<Rightarrow> tid \<Rightarrow> kernel \<Rightarrow> nat list" where
  "add_event events e t k =
     (if events = [] \<or> z_sched_prio_cmp k (the (ev_poller (poll_event k (last events)))) t > 0
      then events @ [e] else insert_event k t e events)"

definition set_event_ready :: "nat \<Rightarrow> u32 \<Rightarrow> kernel \<Rightarrow> kernel" where
  "set_event_ready e state =
     upd_event e (\<lambda>ev. ev\<lparr>ev_poller := None, ev_state := ev_state ev OR state\<rparr>)"

text \<open>
  \<open>dticks\<close> equal to \<open>_EXPIRED\<close>. Only \<open>timeout.c\<close> writes \<open>dticks\<close>, and outside the queue it
  leaves the last delta there.
\<close>

definition z_is_thread_timeout_expired :: "tid \<Rightarrow> kernel \<Rightarrow> bool" where
  "z_is_thread_timeout_expired t k \<longleftrightarrow> (t, - 2) \<in> set (timeout_list k)"

definition signal_poller :: "tid \<Rightarrow> u32 \<Rightarrow> kernel \<Rightarrow> int \<times> kernel" where
  "signal_poller thread state k =
     (if \<not> z_is_thread_pending thread k then (0, k)
      else if z_is_thread_timeout_expired thread k then (- EAGAIN, k)
      else
        let k = z_unpend_thread thread k;
            k = arch_thread_return_value_set thread
                  (if state = K_POLL_STATE_CANCELLED then - EINTR else 0) k
        in if \<not> z_is_thread_ready thread k then (0, k) else (0, z_ready_thread thread k))"

definition signal_poll_event :: "nat \<Rightarrow> u32 \<Rightarrow> kernel \<Rightarrow> int \<times> kernel" where
  "signal_poll_event e state k =
     (case ev_poller (poll_event k e) of
        None \<Rightarrow> (0, set_event_ready e state k)
      | Some t \<Rightarrow>
          let (retcode, k) = (if poller_mode (threads k t) = MODE_POLL then signal_poller t state k
                              else (0, k));
              k = upd_thread t (\<lambda>th. th\<lparr>is_polling := False\<rparr>) k
          in if retcode < 0 then (retcode, k) else (retcode, set_event_ready e state k))"

definition z_handle_obj_poll_events :: "nat list \<Rightarrow> u32 \<Rightarrow> kernel \<Rightarrow> nat list \<times> kernel" where
  "z_handle_obj_poll_events events state k =
     (case events of [] \<Rightarrow> ([], k) | e # r \<Rightarrow> (r, snd (signal_poll_event e state k)))"

section \<open>Poll signals\<close>

record k_poll_signal =
  sig_poll_events :: "nat list"
  signaled :: u32
  sig_result :: int

definition z_impl_k_poll_signal_init :: "k_poll_signal \<Rightarrow> k_poll_signal" where
  "z_impl_k_poll_signal_init sig = sig\<lparr>sig_poll_events := [], signaled := 0\<rparr>"

definition z_impl_k_poll_signal_check :: "k_poll_signal \<Rightarrow> u32 \<times> int" where
  "z_impl_k_poll_signal_check sig = (signaled sig, sig_result sig)"

definition z_impl_k_poll_signal_raise ::
  "int \<Rightarrow> k_poll_signal \<Rightarrow> kernel \<Rightarrow> int \<times> k_poll_signal \<times> kernel" where
  "z_impl_k_poll_signal_raise result sig k =
     (let sig = sig\<lparr>sig_result := result, signaled := 1\<rparr>
      in case sig_poll_events sig of
           [] \<Rightarrow> (0, sig, k)
         | e # r \<Rightarrow>
             let (rc, k) = signal_poll_event e K_POLL_STATE_SIGNALED k
             in (rc, sig\<lparr>sig_poll_events := r\<rparr>, z_reschedule k))"

section \<open>Lemmas\<close>

text \<open>
  With the registrations in priority order the shortcut changes nothing: \<open>add_event\<close> is the
  stable insertion by the poller's priority that the wait queues use.
\<close>

definition event_prio :: "kernel \<Rightarrow> nat \<Rightarrow> int" where
  "event_prio k e = tprio k (the (ev_poller (poll_event k e)))"

lemma prio_cmp_pos: "z_sched_prio_cmp k a b > 0 \<longleftrightarrow> tprio k a < tprio k b"
  by (simp add: z_sched_prio_cmp_def tprio_def Let_def)

lemma insert_event_split:
  "sorted (map (event_prio k) es) \<Longrightarrow>
   insert_event k t e es = filter (\<lambda>p. event_prio k p \<le> tprio k t) es @ e #
     filter (\<lambda>p. tprio k t < event_prio k p) es"
proof (induction es)
  case (Cons p es)
  show ?case
  proof (cases "tprio k t < event_prio k p")
    case True
    with Cons.prems have "\<forall>q \<in> set es. tprio k t < event_prio k q" by auto
    then have "filter (\<lambda>p. tprio k t < event_prio k p) es = es"
      "filter (\<lambda>p. event_prio k p \<le> tprio k t) es = []"
      by (auto simp: filter_id_conv filter_empty_conv not_le)
    with True show ?thesis by (simp add: prio_cmp_pos flip: event_prio_def)
  next
    case False
    with Cons show ?thesis by (simp add: prio_cmp_pos flip: event_prio_def)
  qed
qed simp

lemma add_event_split:
  assumes "sorted (map (event_prio k) events)"
  shows "add_event events e t k =
    filter (\<lambda>p. event_prio k p \<le> tprio k t) events @ e # filter (\<lambda>p. tprio k t < event_prio k p) events"
proof (cases "events = [] \<or> event_prio k (last events) < tprio k t")
  case True
  have "\<forall>p \<in> set events. event_prio k p \<le> event_prio k (last events)"
    using assms by (induction events) auto
  with True have "\<forall>p \<in> set events. event_prio k p \<le> tprio k t" by fastforce
  then have "filter (\<lambda>p. event_prio k p \<le> tprio k t) events = events"
    "filter (\<lambda>p. tprio k t < event_prio k p) events = []"
    by (auto simp: filter_id_conv filter_empty_conv not_less)
  with True show ?thesis by (simp add: add_event_def prio_cmp_pos flip: event_prio_def)
next
  case False
  then show ?thesis
    using insert_event_split [OF assms] by (simp add: add_event_def prio_cmp_pos flip: event_prio_def)
qed

lemma same_queues_upd_event [simp]: "same_queues k (upd_event e f k)"
  by (simp add: same_queues_def upd_event_def)

lemma same_queues_is_polling [simp]: "same_queues k (upd_thread t (\<lambda>th. th\<lparr>is_polling := b\<rparr>) k)"
  by (simp add: same_queues_def upd_thread_def)

lemma upd_event_sel [simp]:
  "idle_thread (upd_event e f k) = idle_thread k" "wait_qs (upd_event e f k) = wait_qs k"
  "threads (upd_event e f k) = threads k" "current (upd_event e f k) = current k"
  "timeout_list (upd_event e f k) = timeout_list k"
  by (simp_all add: upd_event_def)

lemma wf_upd_event [wf_intros]:
  "kernel_wf k \<Longrightarrow> kernel_wf (upd_event e f k)"
  "kernel_wf k \<Longrightarrow> kernel_wf (upd_thread t (\<lambda>th. th\<lparr>is_polling := b\<rparr>) k)"
  by (erule same_queues_wf [rotated], simp)+

lemma wf_signal_poller [wf_intros]:
  assumes "kernel_wf k"
  shows "kernel_wf (snd (signal_poller t state k))"
proof (cases "z_is_thread_pending t k")
  case True
  define k' where "k' v = arch_thread_return_value_set t v (z_unpend_thread t k)" for v
  have wf: "kernel_wf (k' v)" for v using assms unfolding k'_def by (intro wf_intros)
  have "t \<noteq> idle_thread k" using assms True by (auto simp: wf_defs z_is_thread_pending_def)
  moreover have "idle_thread (k' v) = idle_thread k" for v
    by (simp add: k'_def z_unpend_thread_def arch_thread_return_value_set_def upd_thread_def)
  ultimately have "kernel_wf (z_ready_thread t (k' v))" for v
    using wf by (simp add: z_ready_thread_def wf_ready_thread)
  with assms wf show ?thesis
    by (simp add: signal_poller_def Let_def k'_def [symmetric])
next
  case False
  with assms show ?thesis by (simp add: signal_poller_def)
qed

lemma wf_signal_poll_event [wf_intros]:
  assumes "kernel_wf k"
  shows "kernel_wf (snd (signal_poll_event e state k))"
  using assms wf_signal_poller [OF assms]
  by (auto simp: signal_poll_event_def Let_def set_event_ready_def case_prod_beta
      split: option.splits intro!: wf_upd_event)

lemma wf_handle_poll_events [wf_intros]:
  "kernel_wf k \<Longrightarrow> kernel_wf (snd (z_handle_obj_poll_events events state k))"
  by (simp add: z_handle_obj_poll_events_def wf_signal_poll_event split: list.split)

lemma handle_poll_events_Nil [simp]: "z_handle_obj_poll_events [] state k = ([], k)"
  by (simp add: z_handle_obj_poll_events_def)

text \<open>Delivery wakes pollers and adds no waiter to any queue.\<close>

lemma unpend_thread_waiters: "set (wait_qs (z_unpend_thread t k) w) \<subseteq> set (wait_qs k w)"
  by (auto simp: z_unpend_thread_def unpend_thread_no_timeout_def Let_def clear_flag_def
      upd_thread_def z_priq_dumb_remove_def split: option.splits if_splits
      dest: set_remove1_subset [THEN subsetD])

lemma handle_poll_events_waiters:
  "set (wait_qs (snd (z_handle_obj_poll_events events state k)) w) \<subseteq> set (wait_qs k w)"
proof -
  have "set (wait_qs (snd (signal_poller t state k)) w) \<subseteq> set (wait_qs k w)" for t
    using unpend_thread_waiters [of t k w]
    by (simp add: signal_poller_def Let_def z_ready_thread_def arch_thread_return_value_set_def
        upd_thread_def)
  then show ?thesis
    by (auto simp: z_handle_obj_poll_events_def signal_poll_event_def Let_def case_prod_beta
        set_event_ready_def upd_thread_def split: list.split option.split)
qed

end
