(* ===== verification/WaitObj.thy ===== *)
theory WaitObj
  imports Poll
begin

text \<open>
  What the kernel objects with a wait queue share: handing something to the first waiter, blocking
  the caller, waking everybody, and the system made of one object and the kernel around it (locale
  \<open>wait_object\<close>, interpreted for every such object in its theory).
\<close>

section \<open>Waking\<close>

text \<open>Take the first waiter off each round and give it a return value, until none is left.\<close>

fun wake_loop :: "int \<Rightarrow> nat \<Rightarrow> wait_q \<Rightarrow> kernel \<Rightarrow> kernel" where
  "wake_loop v 0 q k = k"
| "wake_loop v (Suc n) q k =
     (case z_unpend_first_thread q k of
        (None, k) \<Rightarrow> k
      | (Some t, k) \<Rightarrow> wake_loop v n q (z_ready_thread t (arch_thread_return_value_set t v k)))"

lemma reschedule_sel [simp]:
  "wait_qs (z_reschedule k) = wait_qs k" "runq (z_reschedule k) = runq k"
  "timeout_list (z_reschedule k) = timeout_list k" "idle_thread (z_reschedule k) = idle_thread k"
  by (simp_all add: z_reschedule_def)

lemma unpend_thread_sel [simp]:
  "idle_thread (z_unpend_thread t k) = idle_thread k" "current (z_unpend_thread t k) = current k"
  "in_isr (z_unpend_thread t k) = in_isr k" "runq (z_unpend_thread t k) = runq k"
  by (simp_all add: z_unpend_thread_def)

lemma retval_sel [simp]:
  "idle_thread (arch_thread_return_value_set t v k) = idle_thread k"
  "current (arch_thread_return_value_set t v k) = current k"
  "wait_qs (arch_thread_return_value_set t v k) = wait_qs k"
  "runq (arch_thread_return_value_set t v k) = runq k"
  "in_isr (arch_thread_return_value_set t v k) = in_isr k"
  "timeout_list (arch_thread_return_value_set t v k) = timeout_list k"
  by (simp_all add: arch_thread_return_value_set_def upd_thread_def)

lemma unpend_head_thread:
  assumes "kernel_wf k" "wait_qs k q = t # r"
  shows "wait_qs (z_unpend_thread t k) = (wait_qs k)(q := r)" "t \<noteq> idle_thread k"
    "z_is_inactive_timeout t (z_unpend_thread t k)"
  using unpend_head [OF assms] assms(1)
  by (simp_all add: z_unpend_thread_def)
     (simp add: z_is_inactive_timeout_def z_abort_thread_timeout_def timeout_list_abort
       keys_removed kernel_wf_def)

lemma wf_wake_head [wf_intros]:
  assumes "kernel_wf k" "wait_qs k q = t # r"
  shows "kernel_wf (z_ready_thread t (arch_thread_return_value_set t v (z_unpend_thread t k)))"
  unfolding z_ready_thread_def using assms unpend_head_thread(2) [OF assms]
  by (intro wf_intros) simp_all

lemma wake_loop_wf:
  "kernel_wf k \<Longrightarrow> length (wait_qs k q) < n \<Longrightarrow>
   kernel_wf (wake_loop v n q k) \<and> wait_qs (wake_loop v n q k) = (wait_qs k)(q := [])"
proof (induction n arbitrary: k)
  case (Suc n)
  show ?case
  proof (cases "wait_qs k q")
    case Nil
    then show ?thesis
      using Suc.prems by (auto simp: z_unpend_first_thread_def z_priq_dumb_best_def)
  next
    case (Cons t r)
    let ?k = "z_ready_thread t (arch_thread_return_value_set t v (z_unpend_thread t k))"
    have wq: "wait_qs ?k = (wait_qs k)(q := r)"
      using unpend_head_thread [OF Suc.prems(1) Cons] by (simp add: z_ready_thread_def)
    have "wake_loop v (Suc n) q k = wake_loop v n q ?k"
      by (simp add: Cons z_unpend_first_thread_def z_priq_dumb_best_def z_unpend_thread_def)
    then show ?thesis
      using Suc.IH [of ?k, unfolded wq fun_upd_upd] wf_wake_head [OF Suc.prems(1) Cons]
        Suc.prems(2) Cons by simp
  qed
qed simp

section \<open>Blocking\<close>

lemma pend_curr_thread:
  "thread_state (threads (z_pend_curr q timeout k) (current k)) =
     insert THREAD_PENDING (thread_state (threads k (current k)) - {THREAD_QUEUED})"
  "swap_retval (threads (z_pend_curr q timeout k) (current k)) = - EAGAIN"
  "in_isr (z_pend_curr q timeout k) = in_isr k"
  by (auto simp: z_pend_curr_def pend_def add_to_waitq_locked_def unready_thread_def z_swap_def
      z_is_thread_queued_def thread_defs Let_def)

lemma queue_ready:
  "z_is_thread_ready t k \<Longrightarrow> z_is_thread_queued t (ready_thread t k)"
  by (auto simp: ready_thread_def z_is_thread_queued_def set_flag_def upd_thread_def)

lemma unpend_thread_state:
  "thread_state (threads (z_unpend_thread t k) u) =
     (if u = t then thread_state (threads k t) - {THREAD_PENDING} else thread_state (threads k u))"
  "pended_on (threads (z_unpend_thread t k) t) = None"
  "swap_retval (threads (z_unpend_thread t k) u) = swap_retval (threads k u)"
  by (auto simp: z_unpend_thread_def unpend_thread_no_timeout_def thread_defs Let_def split: option.splits)

lemma ready_thread_state:
  "thread_state (threads (ready_thread t k) u) \<subseteq> insert THREAD_QUEUED (thread_state (threads k u))"
  by (auto simp: ready_thread_def set_flag_def upd_thread_def)

lemma reschedule_thread: "current k \<noteq> t \<Longrightarrow> threads (z_reschedule k) t = threads k t"
  by (simp add: z_reschedule_def z_swap_def upd_thread_def Let_def)

text \<open>The first waiter of a queue, taken off and made ready with a return value and perhaps data.\<close>

lemma unpend_first_Nil: "wait_qs k q = [] \<Longrightarrow> z_unpend_first_thread q k = (None, k)"
  by (simp add: z_unpend_first_thread_def z_priq_dumb_best_def)

lemma unpend_first_Cons: "wait_qs k q = t # r \<Longrightarrow> z_unpend_first_thread q k = (Some t, z_unpend_thread t k)"
  by (simp add: z_unpend_first_thread_def z_priq_dumb_best_def z_unpend_thread_def)

lemma unpend_thread_data [simp]: "swap_data (threads (z_unpend_thread t k) u) = swap_data (threads k u)"
  by (simp add: z_unpend_thread_def)

lemma reschedule_threads [simp]:
  "swap_data (threads (z_reschedule k) u) = swap_data (threads k u)"
  "pended_on (threads (z_reschedule k) u) = pended_on (threads k u)"
  "prio (threads (z_reschedule k) u) = prio (threads k u)"
  "thread_state (threads (z_reschedule k) u) = thread_state (threads k u)"
  by (simp_all add: z_reschedule_def z_swap_def upd_thread_def Let_def)

lemma wake_first:
  assumes "kernel_wf k" "wait_qs k q = t # r"
    and "k' = z_reschedule (z_ready_thread t (arch_thread_return_value_set t v (z_unpend_thread t k)))"
  shows "kernel_wf k'" "wait_qs k' = (wait_qs k)(q := r)"
    "swap_data (threads k' u) = swap_data (threads k u)"
    "current k \<noteq> t \<Longrightarrow> swap_retval (threads k' t) = v"
proof -
  show "kernel_wf k'"
    using assms by (auto intro: wf_reschedule wf_wake_head)
  show "wait_qs k' = (wait_qs k)(q := r)"
    using unpend_head_thread [OF assms(1,2)] by (simp add: assms(3) z_ready_thread_def)
  show "swap_data (threads k' u) = swap_data (threads k u)"
    by (simp add: assms(3) z_ready_thread_def arch_thread_return_value_set_def upd_thread_def)
  show "swap_retval (threads k' t) = v" if "current k \<noteq> t"
    using that by (simp add: assms(3) reschedule_thread z_ready_thread_def)
      (simp add: ready_thread_def arch_thread_return_value_set_def set_flag_def upd_thread_def queue_thread_def Let_def)
qed

lemma wake_first_data:
  assumes "kernel_wf k" "wait_qs k q = t # r"
    and "k' = z_reschedule (z_ready_thread t (z_thread_return_value_set_with_data t v d (z_unpend_thread t k)))"
  shows "kernel_wf k'" "wait_qs k' = (wait_qs k)(q := r)"
    "swap_data (threads k' u) = (if u = t then d else swap_data (threads k u))"
    "current k \<noteq> t \<Longrightarrow> swap_retval (threads k' t) = v"
proof -
  let ?k = "z_thread_return_value_set_with_data t v d (z_unpend_thread t k)"
  have wf: "kernel_wf ?k" using assms(1) by (intro wf_intros)
  have idle: "t \<noteq> idle_thread ?k"
    using unpend_head_thread(2) [OF assms(1,2)]
    by (simp add: z_thread_return_value_set_with_data_def upd_thread_def)
  have sel: "wait_qs ?k = wait_qs (z_unpend_thread t k)" "current ?k = current k"
    "swap_data (threads ?k u) = (if u = t then d else swap_data (threads k u))"
    "swap_retval (threads ?k t) = v"
    by (simp_all add: z_thread_return_value_set_with_data_def upd_thread_def)
  show "kernel_wf k'"
    unfolding assms(3) z_ready_thread_def using assms(1) idle by (intro wf_intros)
  show "wait_qs k' = (wait_qs k)(q := r)"
    using unpend_head_thread [OF assms(1,2)] sel(1) by (simp add: assms(3) z_ready_thread_def)
  show "swap_data (threads k' u) = (if u = t then d else swap_data (threads k u))"
    by (simp add: assms(3) z_ready_thread_def sel(3))
  show "swap_retval (threads k' t) = v" if "current k \<noteq> t"
    using that sel by (simp add: assms(3) reschedule_thread z_ready_thread_def)
qed

lemma pend_curr_sel:
  "wait_qs (z_pend_curr q timeout k) =
     (wait_qs k)(q := insort_stable (tprio k) (current k) (wait_qs k q))"
  "swap_data (threads (z_pend_curr q timeout k) u) = swap_data (threads k u)"
  "idle_thread (z_pend_curr q timeout k) = idle_thread k"
  "prio (threads (z_pend_curr q timeout k) u) = prio (threads k u)"
  by (simp_all add: z_pend_curr_def pend_def wait_qs_add_to_waitq)
    (simp_all add: z_swap_def Let_def upd_thread_def)

text \<open>What \<open>sys_clock_announce\<close> does with the timeout of a blocked thread at the deadline.\<close>

definition timeout_fires :: "tid \<Rightarrow> kernel \<Rightarrow> kernel" where
  "timeout_fires t k = z_thread_timeout t (snd (z_abort_thread_timeout t k))"

lemma timeout_fires_sel:
  assumes "kernel_wf k" "t \<in> set (wait_qs k q)"
    "thread_state (threads k t) \<inter> {THREAD_DEAD, THREAD_ABORTING} = {}"
  shows "wait_qs (timeout_fires t k) = (wait_qs k)(q := remove1 t (wait_qs k q))"
    "swap_retval (threads (timeout_fires t k) u) = swap_retval (threads k u)"
    "current (timeout_fires t k) = current k" "prio (threads (timeout_fires t k) u) = prio (threads k u)"
    "idle_thread (timeout_fires t k) = idle_thread k" "kernel_wf (timeout_fires t k)"
proof -
  let ?k = "snd (z_abort_thread_timeout t k)"
  have wf: "kernel_wf ?k" using assms(1) by (rule wf_abort_timeout)
  have po: "pended_on (threads ?k t) = Some q"
    using waiting_iff [OF assms(1), of t q] assms(2) by simp
  have eq: "timeout_fires t k =
      ready_thread t (clear_flag THREAD_SUSPENDED t (clear_flag THREAD_PRESTART t (unpend_thread_no_timeout t ?k)))"
    using po assms(3) by (auto simp: timeout_fires_def z_thread_timeout_def Let_def)
  show "wait_qs (timeout_fires t k) = (wait_qs k)(q := remove1 t (wait_qs k q))"
    using po wait_qs_unpend [of t ?k] by (simp add: eq clear_flag_def upd_thread_def)
  show "swap_retval (threads (timeout_fires t k) u) = swap_retval (threads k u)"
    "current (timeout_fires t k) = current k" "prio (threads (timeout_fires t k) u) = prio (threads k u)"
    "idle_thread (timeout_fires t k) = idle_thread k"
    by (simp_all add: eq clear_flag_def upd_thread_def)
  show "kernel_wf (timeout_fires t k)"
    unfolding timeout_fires_def
    using wf waiting_not_idle [OF assms(1,2)] by (intro wf_thread_timeout) simp_all
qed

section \<open>An object and the kernel around it\<close>

text \<open>
  \<open>other\<close>: whatever the kernel does besides the object's own operations, as long as only those
  queue threads on the object's wait queue and pass data with them. Waiters may leave: their
  timeout fires, or they are aborted.
\<close>

definition waiters_leave :: "wait_q \<Rightarrow> kernel \<Rightarrow> kernel \<Rightarrow> bool" where
  "waiters_leave q k k' \<longleftrightarrow>
     set (wait_qs k' q) \<subseteq> set (wait_qs k q) \<and> idle_thread k' = idle_thread k
     \<and> (\<forall>t \<in> set (wait_qs k' q). swap_data (threads k' t) = swap_data (threads k t))"

lemma waiters_leave_Nil: "waiters_leave q k k' \<Longrightarrow> wait_qs k q = [] \<Longrightarrow> wait_qs k' q = []"
  by (simp add: waiters_leave_def)

inductive obj_step ::
  "('o \<Rightarrow> wait_q) \<Rightarrow> ('o \<times> kernel \<Rightarrow> 'e list \<Rightarrow> 'o \<times> kernel \<Rightarrow> bool) \<Rightarrow>
   'o \<times> kernel \<Rightarrow> 'e list \<Rightarrow> 'o \<times> kernel \<Rightarrow> bool"
  for wq op where
  op: "op s es s' \<Longrightarrow> obj_step wq op s es s'"
| other: "kstep k k' \<Longrightarrow> waiters_leave (wq x) k k' \<Longrightarrow> obj_step wq op (x, k) [] (x, k')"

text \<open>Runs, with everything their operations transferred.\<close>

inductive obj_run ::
  "('o \<Rightarrow> wait_q) \<Rightarrow> ('o \<times> kernel \<Rightarrow> 'e list \<Rightarrow> 'o \<times> kernel \<Rightarrow> bool) \<Rightarrow>
   'o \<times> kernel \<Rightarrow> 'e list \<Rightarrow> 'o \<times> kernel \<Rightarrow> bool"
  for wq op where
  stop: "obj_run wq op s [] s"
| step: "obj_run wq op s es s' \<Longrightarrow> obj_step wq op s' es' s'' \<Longrightarrow> obj_run wq op s (es @ es') s''"

locale wait_object =
  fixes wq :: "'o \<Rightarrow> wait_q"
    and ok :: "'o \<Rightarrow> kernel \<Rightarrow> bool"
    and op :: "'o \<times> kernel \<Rightarrow> 'e list \<Rightarrow> 'o \<times> kernel \<Rightarrow> bool"
  assumes op_ok: "kernel_wf k \<Longrightarrow> ok x k \<Longrightarrow> op (x, k) es (x', k') \<Longrightarrow> kernel_wf k' \<and> ok x' k'"
    and ok_leave: "ok x k \<Longrightarrow> waiters_leave (wq x) k k' \<Longrightarrow> ok x k'"
begin

lemma obj_step_ok:
  assumes "obj_step wq op s es s'" "kernel_wf (snd s)" "ok (fst s) (snd s)"
  shows "kernel_wf (snd s') \<and> ok (fst s') (snd s')"
  using assms
proof (induction rule: obj_step.induct)
  case (op s es s')
  then show ?case using op_ok [of "snd s" "fst s" es "fst s'" "snd s'"] by simp
next
  case (other k k' x)
  then show ?case by (simp add: kstep_wf ok_leave [of x k k'])
qed

lemma run_ok:
  assumes "obj_run wq op s es s'" "kernel_wf (snd s)" "ok (fst s) (snd s)"
  shows "kernel_wf (snd s') \<and> ok (fst s') (snd s')"
  using assms by (induction rule: obj_run.induct) (auto dest: obj_step_ok)

end

section \<open>Refinement\<close>

text \<open>
  What an object promises, as a partial function on an abstract state that follows the events of a
  run: defined when the events are allowed.
\<close>

locale simulation = wait_object wq ok op
  for wq :: "'o \<Rightarrow> wait_q" and ok and op :: "'o \<times> kernel \<Rightarrow> 'e list \<Rightarrow> 'o \<times> kernel \<Rightarrow> bool" +
  fixes abs :: "'o \<Rightarrow> 'a"
    and spec :: "'e list \<Rightarrow> 'a \<Rightarrow> 'a option"
  assumes spec_Nil: "spec [] a = Some a"
    and spec_append: "spec (es @ es') a = (case spec es a of None \<Rightarrow> None | Some b \<Rightarrow> spec es' b)"
    and op_spec: "kernel_wf k \<Longrightarrow> ok x k \<Longrightarrow> op (x, k) es (x', k') \<Longrightarrow> spec es (abs x) = Some (abs x')"
begin

lemma step_spec:
  assumes "obj_step wq op s es s'" "kernel_wf (snd s)" "ok (fst s) (snd s)"
  shows "spec es (abs (fst s)) = Some (abs (fst s'))"
  using assms
proof (induction rule: obj_step.induct)
  case (op s es s')
  then show ?case using op_spec [of "snd s" "fst s" es "fst s'" "snd s'"] by simp
qed (simp add: spec_Nil)

lemma run_spec:
  assumes "obj_run wq op s es s'" "kernel_wf (snd s)" "ok (fst s) (snd s)"
  shows "spec es (abs (fst s)) = Some (abs (fst s')) \<and> kernel_wf (snd s') \<and> ok (fst s') (snd s')"
  using assms
proof (induction rule: obj_run.induct)
  case (step s es s' es' s'')
  then show ?case
    using step_spec [OF step.hyps(2)] obj_step_ok [OF step.hyps(2)] by (simp add: spec_append)
qed (simp add: spec_Nil)

end

section \<open>Containers\<close>

text \<open>
  The contract of an object that stores items: a bounded list, filled by \<open>ins\<close> and emptied from the
  front. A handover to a waiting thread is an item put and got at once.
\<close>

datatype 'm transfer = Put 'm | Got 'm | Cleared

fun box_run :: "('m \<Rightarrow> 'm list \<Rightarrow> 'm list) \<Rightarrow> nat \<Rightarrow> 'm transfer list \<Rightarrow> 'm list \<Rightarrow> 'm list option" where
  "box_run ins cap [] xs = Some xs"
| "box_run ins cap (Put m # es) xs =
     (if length xs < cap then box_run ins cap es (ins m xs) else None)"
| "box_run ins cap (Got m # es) xs =
     (case xs of [] \<Rightarrow> None | y # ys \<Rightarrow> if y = m then box_run ins cap es ys else None)"
| "box_run ins cap (Cleared # es) xs = box_run ins cap es []"

lemma box_run_append:
  "box_run ins cap (es @ es') xs =
     (case box_run ins cap es xs of None \<Rightarrow> None | Some ys \<Rightarrow> box_run ins cap es' ys)"
  by (induction ins cap es xs rule: box_run.induct) (auto split: list.split)

definition enqueue :: "'m \<Rightarrow> 'm list \<Rightarrow> 'm list" where
  "enqueue m xs = xs @ [m]"

text \<open>What went in is what came out and what is left, first in first out.\<close>

definition puts :: "'m transfer list \<Rightarrow> 'm list" where
  "puts es = concat (map (\<lambda>e. case e of Put m \<Rightarrow> [m] | _ \<Rightarrow> []) es)"

definition gots :: "'m transfer list \<Rightarrow> 'm list" where
  "gots es = concat (map (\<lambda>e. case e of Got m \<Rightarrow> [m] | _ \<Rightarrow> []) es)"

lemma fifo_order:
  "box_run enqueue cap es xs = Some ys \<Longrightarrow> Cleared \<notin> set es \<Longrightarrow> xs @ puts es = gots es @ ys"
proof (induction es arbitrary: xs)
  case (Cons e es)
  show ?case
  proof (cases e)
    case (Put m)
    then have "(xs @ [m]) @ puts es = gots es @ ys"
      using Cons.prems by (intro Cons.IH) (auto simp: enqueue_def split: if_splits)
    with Put show ?thesis by (simp add: puts_def gots_def)
  next
    case (Got m)
    then obtain r where "xs = m # r" "box_run enqueue cap es r = Some ys"
      using Cons.prems by (auto split: list.splits if_splits)
    with Got Cons show ?thesis by (simp add: puts_def gots_def)
  qed (use Cons.prems in simp)
qed (simp add: puts_def gots_def)

locale container = wait_object wq ok op
  for wq :: "'o \<Rightarrow> wait_q" and ok and op :: "'o \<times> kernel \<Rightarrow> 'm transfer list \<Rightarrow> 'o \<times> kernel \<Rightarrow> bool" +
  fixes contents :: "'o \<Rightarrow> 'm list"
    and capacity :: "'o \<Rightarrow> nat"
    and ins :: "'m \<Rightarrow> 'm list \<Rightarrow> 'm list"
  assumes op_box: "kernel_wf k \<Longrightarrow> ok x k \<Longrightarrow> op (x, k) es (x', k') \<Longrightarrow>
      box_run ins (capacity x) es (contents x) = Some (contents x') \<and> capacity x' = capacity x"

sublocale container \<subseteq> simulation wq ok op "\<lambda>x. (capacity x, contents x)"
    "\<lambda>es b. map_option (Pair (fst b)) (box_run ins (fst b) es (snd b))"
  by unfold_locales (auto simp: box_run_append op_box split: option.split)

context container
begin

lemma run_box:
  assumes "obj_run wq op s es s'" "kernel_wf (snd s)" "ok (fst s) (snd s)"
  shows "box_run ins (capacity (fst s)) es (contents (fst s)) = Some (contents (fst s'))
    \<and> kernel_wf (snd s') \<and> ok (fst s') (snd s')"
  using run_spec [OF assms] by auto

end

end
