(* ===== verification/Sem.thy ===== *)
theory Sem
  imports WaitObj
begin

text \<open>
  Counting semaphores, \<open>kernel/sem.c\<close>. A semaphore is its wait queue's name, its count and limit
  as 32-bit words and the events registered on it. A call that may block returns \<open>None\<close> when the
  caller was switched out; its return value is then the caller's \<open>swap_retval\<close> when it runs
  again. Shown here: the count stays within the limit and is positive only when nobody waits,
  a give hands the unit to the first waiter or counts it, and a blocked taker returns \<open>0\<close> when
  it was given the unit and \<open>-EAGAIN\<close> when its timeout fired first.
\<close>

section \<open>Operations\<close>

record k_sem =
  sem_q :: wait_q
  count :: u32
  limit :: u32
  sem_poll_events :: "nat list"

definition z_impl_k_sem_init :: "u32 \<Rightarrow> u32 \<Rightarrow> k_sem \<Rightarrow> kernel \<Rightarrow> int \<times> k_sem \<times> kernel" where
  "z_impl_k_sem_init initial_count lim sem k =
     (if lim = 0 \<or> initial_count > lim then (- EINVAL, sem, k)
      else (0, sem\<lparr>count := initial_count, limit := lim, sem_poll_events := []\<rparr>,
            k\<lparr>wait_qs := (wait_qs k)(sem_q sem := [])\<rparr>))"

definition handle_poll_events :: "k_sem \<Rightarrow> kernel \<Rightarrow> k_sem \<times> kernel" where
  "handle_poll_events sem k =
     (let (evs, k) = z_handle_obj_poll_events (sem_poll_events sem) K_POLL_STATE_SEM_AVAILABLE k
      in (sem\<lparr>sem_poll_events := evs\<rparr>, k))"

definition z_impl_k_sem_give :: "k_sem \<Rightarrow> kernel \<Rightarrow> k_sem \<times> kernel" where
  "z_impl_k_sem_give sem k =
     (let (thread, k) = z_unpend_first_thread (sem_q sem) k;
          (sem, k) = (case thread of
             Some t \<Rightarrow> (sem, z_ready_thread t (arch_thread_return_value_set t 0 k))
           | None \<Rightarrow>
               handle_poll_events
                 (sem\<lparr>count := count sem + (if count sem \<noteq> limit sem then 1 else 0)\<rparr>) k)
      in (sem, z_reschedule k))"

definition z_impl_k_sem_take :: "k_timeout \<Rightarrow> k_sem \<Rightarrow> kernel \<Rightarrow> int option \<times> k_sem \<times> kernel" where
  "z_impl_k_sem_take timeout sem k =
     (if count sem > 0 then (Some 0, sem\<lparr>count := count sem - 1\<rparr>, k)
      else if timeout = K_NO_WAIT then (Some (- EBUSY), sem, k)
      else (None, sem, z_pend_curr (sem_q sem) timeout k))"

definition z_impl_k_sem_reset :: "k_sem \<Rightarrow> kernel \<Rightarrow> k_sem \<times> kernel" where
  "z_impl_k_sem_reset sem k =
     (let k = wake_loop (- EAGAIN) (Suc (length (wait_qs k (sem_q sem)))) (sem_q sem) k;
          (sem, k) = handle_poll_events (sem\<lparr>count := 0\<rparr>) k
      in (sem, z_reschedule k))"

definition z_impl_k_sem_count_get :: "k_sem \<Rightarrow> u32" where
  "z_impl_k_sem_count_get sem = count sem"

section \<open>The invariant\<close>

definition sem_ok :: "k_sem \<Rightarrow> kernel \<Rightarrow> bool" where
  "sem_ok sem k \<longleftrightarrow>
     0 < limit sem \<and> count sem \<le> limit sem \<and> (0 < count sem \<longrightarrow> wait_qs k (sem_q sem) = [])"

lemma handle_poll_events_sel [simp]:
  "sem_q (fst (handle_poll_events sem k)) = sem_q sem"
  "count (fst (handle_poll_events sem k)) = count sem"
  "limit (fst (handle_poll_events sem k)) = limit sem"
  by (simp_all add: handle_poll_events_def Let_def case_prod_beta)

lemma handle_poll_events_queue:
  "wait_qs k w = [] \<Longrightarrow> wait_qs (snd (handle_poll_events sem k)) w = []"
  using handle_poll_events_waiters [of "sem_poll_events sem" K_POLL_STATE_SEM_AVAILABLE k w]
  by (simp add: handle_poll_events_def Let_def case_prod_beta)

lemma wf_handle_sem_events [wf_intros]: "kernel_wf k \<Longrightarrow> kernel_wf (snd (handle_poll_events sem k))"
  by (simp add: handle_poll_events_def Let_def case_prod_beta wf_handle_poll_events)

lemma handle_poll_events_none [simp]:
  "sem_poll_events sem = [] \<Longrightarrow> handle_poll_events sem k = (sem, k)"
  by (simp add: handle_poll_events_def)

text \<open>The two cases of a give.\<close>

lemma give_no_waiter:
  "wait_qs k (sem_q sem) = [] \<Longrightarrow>
   z_impl_k_sem_give sem k =
     (let (sem, k) = handle_poll_events
            (sem\<lparr>count := count sem + (if count sem \<noteq> limit sem then 1 else 0)\<rparr>) k
      in (sem, z_reschedule k))"
  by (simp add: z_impl_k_sem_give_def z_unpend_first_thread_def z_priq_dumb_best_def)

lemma give_waiter:
  assumes "wait_qs k (sem_q sem) = t # r"
  shows "z_impl_k_sem_give sem k =
    (sem, z_reschedule (z_ready_thread t (arch_thread_return_value_set t 0 (z_unpend_thread t k))))"
  using assms
  by (simp add: z_impl_k_sem_give_def z_unpend_first_thread_def z_priq_dumb_best_def z_unpend_thread_def)

lemma give_wf:
  assumes "kernel_wf k" "sem_ok sem k"
  shows "kernel_wf (snd (z_impl_k_sem_give sem k))"
    "sem_ok (fst (z_impl_k_sem_give sem k)) (snd (z_impl_k_sem_give sem k))"
proof (induct "wait_qs k (sem_q sem)")
  case Nil
  let ?sem = "sem\<lparr>count := count sem + (if count sem \<noteq> limit sem then 1 else 0)\<rparr>"
  have le: "count ?sem \<le> limit sem"
    using assms(2) by (auto simp: sem_ok_def intro: inc_le less_le [THEN iffD2])
  {
    case 1
    show ?case using Nil assms(1)
      by (simp add: give_no_waiter case_prod_beta wf_reschedule wf_handle_sem_events)
  next
    case 2
    show ?case using Nil assms(2) le handle_poll_events_queue [of k "sem_q sem" ?sem]
      by (simp add: give_no_waiter case_prod_beta sem_ok_def)
  }
next
  case (Cons t r)
  note w = Cons(3) [symmetric]
  {
    case 1
    show ?case using assms(1) w by (simp add: give_waiter wf_reschedule wf_wake_head)
  next
    case 2
    show ?case using assms w unpend_head_thread [OF assms(1) w]
      by (auto simp: give_waiter sem_ok_def z_ready_thread_def)
  }
qed

lemma take_wf:
  assumes "kernel_wf k" "sem_ok sem k" "running k" "z_impl_k_sem_take timeout sem k = (r, sem', k')"
  shows "kernel_wf k'" "sem_ok sem' k'"
proof -
  show "kernel_wf k'"
    using assms by (auto simp: z_impl_k_sem_take_def wf_pend_curr split: if_splits)
  have "count sem - 1 \<le> limit sem" if "0 < count sem"
    using that assms(2) by (auto simp: sem_ok_def word_le_nat_alt unat_minus_one word_gt_0)
  then show "sem_ok sem' k'"
    using assms by (auto simp: z_impl_k_sem_take_def sem_ok_def split: if_splits)
qed

lemma reset_wf:
  assumes "kernel_wf k" "sem_ok sem k"
  shows "kernel_wf (snd (z_impl_k_sem_reset sem k))"
    "sem_ok (fst (z_impl_k_sem_reset sem k)) (snd (z_impl_k_sem_reset sem k))"
    "count (fst (z_impl_k_sem_reset sem k)) = 0"
    "wait_qs (snd (z_impl_k_sem_reset sem k)) (sem_q sem) = []"
proof -
  let ?k = "wake_loop (- EAGAIN) (Suc (length (wait_qs k (sem_q sem)))) (sem_q sem) k"
  have k: "kernel_wf ?k" "wait_qs ?k (sem_q sem) = []"
    using wake_loop_wf [OF assms(1), of "sem_q sem" "Suc (length (wait_qs k (sem_q sem)))"] by auto
  show "kernel_wf (snd (z_impl_k_sem_reset sem k))"
    using k(1) by (simp add: z_impl_k_sem_reset_def Let_def case_prod_beta wf_intros
        del: wake_loop.simps)
  show "sem_ok (fst (z_impl_k_sem_reset sem k)) (snd (z_impl_k_sem_reset sem k))"
    using assms(2) by (simp add: z_impl_k_sem_reset_def Let_def case_prod_beta sem_ok_def
        del: wake_loop.simps)
  show "count (fst (z_impl_k_sem_reset sem k)) = 0"
    by (simp add: z_impl_k_sem_reset_def Let_def case_prod_beta del: wake_loop.simps)
  show "wait_qs (snd (z_impl_k_sem_reset sem k)) (sem_q sem) = []"
    using handle_poll_events_queue [OF k(2)]
    by (simp add: z_impl_k_sem_reset_def Let_def case_prod_beta del: wake_loop.simps)
qed

section \<open>Semaphore and kernel as one system\<close>

text \<open>
  \<open>other\<close>: whatever else the kernel does, as long as only \<open>k_sem_take\<close> queues threads on the
  semaphore's wait queue.
\<close>

definition sem_init :: "k_sem \<times> kernel \<Rightarrow> bool" where
  "sem_init s \<longleftrightarrow>
     (\<exists>c l sem k. kernel_init k \<and> z_impl_k_sem_init c l sem k = (0, fst s, snd s))"

inductive sstep :: "k_sem \<times> kernel \<Rightarrow> k_sem \<times> kernel \<Rightarrow> bool" where
  give: "sstep (sem, k) (z_impl_k_sem_give sem k)"
| take: "running k \<Longrightarrow> z_impl_k_sem_take timeout sem k = (r, sem', k') \<Longrightarrow> sstep (sem, k) (sem', k')"
| reset: "sstep (sem, k) (z_impl_k_sem_reset sem k)"
| other: "kstep k k' \<Longrightarrow> set (wait_qs k' (sem_q sem)) \<subseteq> set (wait_qs k (sem_q sem)) \<Longrightarrow>
    sstep (sem, k) (sem, k')"

inductive_cases sstep_cases: "sstep (sem, k) s'"

definition sem_inv :: "k_sem \<times> kernel \<Rightarrow> bool" where
  "sem_inv s \<longleftrightarrow> kernel_wf (snd s) \<and> sem_ok (fst s) (snd s)"

lemma sem_init_inv: "sem_init s \<Longrightarrow> sem_inv s"
proof -
  assume "sem_init s"
  then obtain c l sem k where k: "kernel_init k" "z_impl_k_sem_init c l sem k = (0, fst s, snd s)"
    by (auto simp: sem_init_def)
  have "(wait_qs k)(sem_q sem := []) = wait_qs k"
    using k(1) by (simp add: kernel_init_def fun_upd_idem)
  with k(2) have "s = (sem\<lparr>count := c, limit := l, sem_poll_events := []\<rparr>, k)" "0 < l" "c \<le> l"
    by (auto simp: z_impl_k_sem_init_def prod_eq_iff word_gt_0 not_less split: if_splits)
  then show ?thesis
    using k(1) init_wf [OF k(1)] by (simp add: sem_inv_def sem_ok_def kernel_init_def)
qed

lemma sem_step_inv: "sem_inv s \<Longrightarrow> sstep s s' \<Longrightarrow> sem_inv s'"
  by (erule sstep.cases)
     (auto simp: sem_inv_def intro: give_wf take_wf reset_wf kstep_wf, auto simp: sem_ok_def)

interpretation sem_sys: invariant_system sem_init sstep sem_inv
  by unfold_locales (blast intro: sem_init_inv sem_step_inv)+

text \<open>
  (C11) A semaphore set up by \<open>k_sem_init\<close> and used through the kernel never counts above its
  limit, and never has units to take while a thread waits for one.
\<close>

theorem sem_reachable_ok:
  assumes "reachable sem_init sstep (sem, k)"
  shows "count sem \<le> limit sem \<and> (0 < count sem \<longrightarrow> wait_qs k (sem_q sem) = []) \<and> kernel_wf k"
  using sem_sys.reachable_inv [OF assms] by (simp add: sem_inv_def sem_ok_def)

definition boot_sem :: k_sem where
  "boot_sem = \<lparr>sem_q = ObjQ 0, count = 0, limit = 1, sem_poll_events = []\<rparr>"

theorem sem_reachable_ok_witness:
  "case z_impl_k_sem_give boot_sem boot_kernel of (sem, k) \<Rightarrow> count sem = 1 \<and> kernel_wf k"
proof -
  have "sem_init (boot_sem, boot_kernel)"
    unfolding sem_init_def
    by (rule exI [of _ 0], rule exI [of _ 1], rule exI [of _ boot_sem], rule exI [of _ boot_kernel])
       (simp add: boot_init z_impl_k_sem_init_def boot_sem_def, simp add: boot_kernel_def fun_eq_iff)
  then have "reachable sem_init sstep (z_impl_k_sem_give boot_sem boot_kernel)"
    by (meson reachable.intros sstep.give)
  then have "kernel_wf (snd (z_impl_k_sem_give boot_sem boot_kernel))"
    using sem_reachable_ok [of "fst (z_impl_k_sem_give boot_sem boot_kernel)"
        "snd (z_impl_k_sem_give boot_sem boot_kernel)"] by simp
  moreover have "count (fst (z_impl_k_sem_give boot_sem boot_kernel)) = 1" by code_simp
  ultimately show ?thesis by (simp add: case_prod_beta)
qed

section \<open>Waiting with a timeout\<close>

text \<open>
  What becomes of a thread that blocked. \<open>switch_to\<close> is the moment the scheduler runs it again.
\<close>

definition switch_to :: "tid \<Rightarrow> kernel \<Rightarrow> kernel" where
  "switch_to t k = k\<lparr>in_isr := False, current := t, cache := t\<rparr>"

text \<open>
  A waiter \<open>t\<close> alone on the queue of a semaphore with no registered events.
\<close>

definition sole_waiter :: "tid \<Rightarrow> k_sem \<Rightarrow> kernel \<Rightarrow> bool" where
  "sole_waiter t sem k \<longleftrightarrow>
     kernel_wf k \<and> wait_qs k (sem_q sem) = [t] \<and> count sem = 0 \<and> sem_poll_events sem = []
     \<and> thread_state (threads k t) \<inter> {THREAD_PRESTART, THREAD_DEAD, THREAD_DUMMY, THREAD_SUSPENDED,
          THREAD_ABORTING} = {}
     \<and> swap_retval (threads k t) = - EAGAIN \<and> current k \<noteq> t"

text \<open>A thread about to wait, or back from it: ready, and nobody waits for the semaphore.\<close>

definition may_wait :: "k_sem \<Rightarrow> kernel \<Rightarrow> bool" where
  "may_wait sem k \<longleftrightarrow>
     kernel_wf k \<and> running k \<and> z_is_thread_ready (current k) k \<and> \<not> in_isr k
     \<and> THREAD_ABORTING \<notin> thread_state (threads k (current k))
     \<and> sem_poll_events sem = [] \<and> wait_qs k (sem_q sem) = []"

lemma take_blocks:
  assumes "may_wait sem k" "count sem = 0" "timeout \<noteq> K_NO_WAIT"
  shows "\<exists>k'. z_impl_k_sem_take timeout sem k = (None, sem, k') \<and> sole_waiter (current k) sem k'"
proof -
  let ?k = "z_pend_curr (sem_q sem) timeout k"
  have "wait_qs ?k (sem_q sem) = [current k]"
    using assms(1) by (simp add: may_wait_def z_pend_curr_def pend_def wait_qs_add_to_waitq)
  moreover have "kernel_wf ?k" "current ?k \<noteq> current k"
    using assms(1) by (simp_all add: may_wait_def wf_pend_curr pend_curr_switches)
  ultimately have "sole_waiter (current k) sem ?k"
    using assms by (auto simp: sole_waiter_def may_wait_def pend_curr_thread pred_defs)
  then show ?thesis
    using assms by (simp add: z_impl_k_sem_take_def)
qed

text \<open>Back to running: what \<open>may_wait\<close> asks of a woken thread.\<close>

lemma switch_to_may_wait:
  assumes "kernel_wf k" "t \<noteq> idle_thread k" "pended_on (threads k t) = None" "z_is_inactive_timeout t k"
    "thread_state (threads k t) \<inter> {THREAD_PENDING, THREAD_PRESTART, THREAD_DEAD, THREAD_DUMMY,
       THREAD_SUSPENDED, THREAD_ABORTING} = {}"
    "sem_poll_events sem = []" "wait_qs k (sem_q sem) = []"
  shows "may_wait sem (switch_to t k)"
proof -
  have "same_queues (k\<lparr>in_isr := False\<rparr>) (switch_to t k)"
    by (simp add: same_queues_def switch_to_def)
  then have "kernel_wf (switch_to t k)"
    using assms(1) by (blast intro: same_queues_wf wf_isr)
  then show ?thesis
    using assms by (auto simp: may_wait_def running_def switch_to_def pred_defs)
qed

text \<open>The give reaches the waiter first, from an interrupt or another thread.\<close>

lemma give_wakes_waiter:
  assumes "sole_waiter t sem k"
  shows "\<exists>k'. z_impl_k_sem_give sem k = (sem, k') \<and> swap_retval (threads k' t) = 0
    \<and> z_is_thread_queued t k' \<and> may_wait sem (switch_to t k')"
proof -
  let ?k1 = "arch_thread_return_value_set t 0 (z_unpend_thread t k)"
  let ?k = "z_ready_thread t ?k1"
  have w: "kernel_wf k" "wait_qs k (sem_q sem) = [t]"
    and fl: "thread_state (threads k t) \<inter> {THREAD_PRESTART, THREAD_DEAD, THREAD_DUMMY,
      THREAD_SUSPENDED, THREAD_ABORTING} = {}"
    and cur: "current k \<noteq> t"
    using assms by (simp_all add: sole_waiter_def)
  note h = unpend_head_thread [OF w]
  have st: "thread_state (threads ?k1 t) = thread_state (threads k t) - {THREAD_PENDING}"
    "pended_on (threads ?k1 t) = None" "swap_retval (threads ?k1 t) = 0"
    by (simp_all add: arch_thread_return_value_set_def upd_thread_def unpend_thread_state)
  have inact: "z_is_inactive_timeout t ?k1" using h(3) by (simp add: z_is_inactive_timeout_def)
  have "z_is_thread_ready t ?k1"
    using fl inact
    by (auto simp: z_is_thread_ready_def z_is_thread_prevented_from_running_def
        z_is_thread_timeout_active_def st)
  then have "z_is_thread_queued t ?k" by (simp add: z_ready_thread_def queue_ready)
  moreover have resch: "threads (z_reschedule ?k) t = threads ?k t"
    using cur by (simp add: reschedule_thread z_ready_thread_def)
  moreover have "may_wait sem (switch_to t (z_reschedule ?k))"
    using assms h inact st fl ready_thread_state [of t ?k1 t] wf_reschedule(1) [OF wf_wake_head [OF w, of 0]]
    by (intro switch_to_may_wait)
       (auto simp: resch, auto simp: z_ready_thread_def sole_waiter_def z_is_inactive_timeout_def)
  ultimately show ?thesis
    using give_waiter [OF w(2)] st by (simp add: z_ready_thread_def z_is_thread_queued_def)
qed

text \<open>The timeout fires first.\<close>

lemma timeout_wakes_waiter:
  assumes "sole_waiter t sem k"
  shows "swap_retval (threads (timeout_fires t k) t) = - EAGAIN
    \<and> z_is_thread_queued t (timeout_fires t k) \<and> may_wait sem (switch_to t (timeout_fires t k))"
proof -
  let ?k0 = "snd (z_abort_thread_timeout t k)"
  let ?k1 = "clear_flag THREAD_SUSPENDED t (clear_flag THREAD_PRESTART t (unpend_thread_no_timeout t ?k0))"
  have w: "kernel_wf k" "wait_qs k (sem_q sem) = [t]"
    and fl: "thread_state (threads k t) \<inter> {THREAD_PRESTART, THREAD_DEAD, THREAD_DUMMY,
      THREAD_SUSPENDED, THREAD_ABORTING} = {}" and ret: "swap_retval (threads k t) = - EAGAIN"
    using assms by (simp_all add: sole_waiter_def)
  have k0: "kernel_wf ?k0" using w(1) by (rule wf_abort_timeout)
  have h: "wait_qs (unpend_thread_no_timeout t ?k0) = (wait_qs k)(sem_q sem := [])"
    "t \<noteq> idle_thread ?k0"
    using unpend_head [OF k0, of "sem_q sem" t "[]"] w(2) by simp_all
  have po: "pended_on (threads k t) = Some (sem_q sem)"
    using waiting_iff [OF w(1), of t "sem_q sem"] w(2) by simp
  have st: "thread_state (threads ?k1 t) =
      thread_state (threads k t) - {THREAD_PENDING} - {THREAD_PRESTART} - {THREAD_SUSPENDED}"
    "pended_on (threads ?k1 t) = None" "swap_retval (threads ?k1 t) = - EAGAIN"
    using ret by (simp_all add: unpend_thread_no_timeout_def thread_defs Let_def po)
  have inact: "z_is_inactive_timeout t ?k1"
    using w(1) by (simp add: z_is_inactive_timeout_def clear_flag_def upd_thread_def
        z_abort_thread_timeout_def timeout_list_abort keys_removed kernel_wf_def)
  have eq: "timeout_fires t k = ready_thread t ?k1"
    using fl po by (simp add: timeout_fires_def z_thread_timeout_def Let_def)
  have "z_is_thread_ready t ?k1"
    using fl inact by (auto simp: z_is_thread_ready_def z_is_thread_prevented_from_running_def
        z_is_thread_timeout_active_def st)
  then have "z_is_thread_queued t (ready_thread t ?k1)" by (rule queue_ready)
  moreover have "kernel_wf (timeout_fires t k)"
    unfolding timeout_fires_def using k0 h(2) by (rule wf_thread_timeout)
  then have "may_wait sem (switch_to t (timeout_fires t k))"
    using assms h inact st fl ready_thread_state [of t ?k1 t]
    by (intro switch_to_may_wait)
       (auto simp: eq sole_waiter_def z_is_inactive_timeout_def)
  ultimately show ?thesis using st by (simp add: eq)
qed

text \<open>
  (C18) A thread that takes an empty semaphore blocks; it returns 0 if a give comes before its
  timeout, with the unit handed to it rather than counted, and \<open>-EAGAIN\<close> if the timeout fires
  first. Either way it is ready to run again and waits nowhere.
\<close>

theorem sem_wait_outcome:
  assumes "may_wait sem k" "count sem = 0" "timeout \<noteq> K_NO_WAIT"
  shows "\<exists>k1. z_impl_k_sem_take timeout sem k = (None, sem, k1)
    \<and> (\<exists>k2. z_impl_k_sem_give sem k1 = (sem, k2) \<and> swap_retval (threads k2 (current k)) = 0
         \<and> z_is_thread_queued (current k) k2 \<and> wait_qs k2 (sem_q sem) = [])
    \<and> swap_retval (threads (timeout_fires (current k) k1) (current k)) = - EAGAIN
    \<and> z_is_thread_queued (current k) (timeout_fires (current k) k1)
    \<and> wait_qs (timeout_fires (current k) k1) (sem_q sem) = []"
proof -
  obtain k1 where k1: "z_impl_k_sem_take timeout sem k = (None, sem, k1)"
    and w: "sole_waiter (current k) sem k1"
    using take_blocks [OF assms] by blast
  have "wait_qs k' (sem_q sem) = []" if "may_wait sem (switch_to t k')" for t k'
    using that by (simp add: may_wait_def switch_to_def)
  then show ?thesis
    using k1 give_wakes_waiter [OF w] timeout_wakes_waiter [OF w] by blast
qed

theorem sem_wait_outcome_witness:
  "\<exists>k1 k2. z_impl_k_sem_take 100 boot_sem boot2_kernel = (None, boot_sem, k1)
     \<and> z_impl_k_sem_give boot_sem k1 = (boot_sem, k2) \<and> swap_retval (threads k2 0) = 0
     \<and> swap_retval (threads (timeout_fires 0 k1) 0) = - EAGAIN"
proof -
  have c: "current boot2_kernel = 0" "in_isr boot2_kernel = False"
    "wait_qs boot2_kernel (ObjQ 0) = []" "timeout_list boot2_kernel = []"
    "thread_state (threads boot2_kernel 0) = {THREAD_QUEUED}"
    by (simp_all add: boot2_kernel_def boot_kernel_def boot_thread_def queue_thread_def set_flag_def
        upd_thread_def Let_def)
  have "may_wait boot_sem boot2_kernel"
    by (simp add: may_wait_def boot2_wf boot2_running c pred_defs boot_sem_def)
  then show ?thesis
    using sem_wait_outcome [of boot_sem boot2_kernel 100] by (auto simp: c boot_sem_def)
qed

end
