(* ===== verification/Stack.thy ===== *)
theory Stack
  imports WaitObj
begin

text \<open>
  Stacks of words, \<open>kernel/stack.c\<close>: an array of words between \<open>base\<close> and \<open>top\<close> with \<open>next\<close> behind
  the topmost item. Pointers are addresses, four per word, into a memory of words. A pop of an empty
  stack blocks, and a push hands its word to the first waiter. Shown here: the stack is a bounded
  list, last in first out, whatever the order of pushes, pops, timeouts and other kernel activity.
\<close>

section \<open>Operations\<close>

abbreviation (input) "K_STACK_FLAG_ALLOC \<equiv> (1 :: u8)"

type_synonym word_memory = "nat \<Rightarrow> u32"

record k_stack =
  stack_wait_q :: wait_q
  stack_base :: nat
  stack_next :: nat
  stack_top :: nat
  stack_flags :: u8

definition k_stack_init :: "nat \<Rightarrow> u32 \<Rightarrow> k_stack \<Rightarrow> kernel \<Rightarrow> k_stack \<times> kernel" where
  "k_stack_init buffer num_entries stack k =
     (stack\<lparr>stack_base := buffer, stack_next := buffer, stack_top := buffer + 4 * unat num_entries\<rparr>,
      k\<lparr>wait_qs := (wait_qs k)(stack_wait_q stack := [])\<rparr>)"

text \<open>\<open>malloc\<close> is \<open>z_thread_malloc\<close>: the address of a block of so many bytes, if there is one.\<close>

definition z_impl_k_stack_alloc_init ::
  "(u32 \<Rightarrow> nat option) \<Rightarrow> u32 \<Rightarrow> k_stack \<Rightarrow> kernel \<Rightarrow> int \<times> k_stack \<times> kernel" where
  "z_impl_k_stack_alloc_init malloc num_entries stack k =
     (case malloc (num_entries * 4) of
        Some buffer \<Rightarrow>
          let (stack, k) = k_stack_init buffer num_entries stack k
          in (0, stack\<lparr>stack_flags := K_STACK_FLAG_ALLOC\<rparr>, k)
      | None \<Rightarrow> (- ENOMEM, stack, k))"

text \<open>The block to free, if any, comes with the result.\<close>

definition k_stack_cleanup :: "k_stack \<Rightarrow> kernel \<Rightarrow> int \<times> nat option \<times> k_stack" where
  "k_stack_cleanup stack k =
     (if wait_qs k (stack_wait_q stack) \<noteq> [] then (- EAGAIN, None, stack)
      else if stack_flags stack AND K_STACK_FLAG_ALLOC \<noteq> 0
      then (0, Some (stack_base stack),
            stack\<lparr>stack_base := 0, stack_flags := stack_flags stack AND NOT K_STACK_FLAG_ALLOC\<rparr>)
      else (0, None, stack))"

definition z_impl_k_stack_push ::
  "u32 \<Rightarrow> k_stack \<times> word_memory \<Rightarrow> kernel \<Rightarrow> int \<times> (k_stack \<times> word_memory) \<times> kernel" where
  "z_impl_k_stack_push data s k =
     (case s of (stack, mem) \<Rightarrow>
        if stack_next stack = stack_top stack then (- ENOMEM, s, k)
        else case z_unpend_first_thread (stack_wait_q stack) k of
          (Some t, k) \<Rightarrow>
            (0, s, z_reschedule (z_ready_thread t (z_thread_return_value_set_with_data t 0 (DataWord data) k)))
        | (None, k) \<Rightarrow>
            (0, (stack\<lparr>stack_next := stack_next stack + 4\<rparr>, mem(stack_next stack := data)), k))"

text \<open>The word popped comes with the return value; \<open>None\<close> while the caller waits for one.\<close>

definition z_impl_k_stack_pop ::
  "k_timeout \<Rightarrow> k_stack \<times> word_memory \<Rightarrow> kernel \<Rightarrow>
   (int \<times> u32 option) option \<times> (k_stack \<times> word_memory) \<times> kernel" where
  "z_impl_k_stack_pop timeout s k =
     (case s of (stack, mem) \<Rightarrow>
        if stack_base stack < stack_next stack
        then let stack = stack\<lparr>stack_next := stack_next stack - 4\<rparr>
             in (Some (0, Some (mem (stack_next stack))), (stack, mem), k)
        else if timeout = K_NO_WAIT then (Some (- EBUSY, None), s, k)
        else (None, s, z_pend_curr (stack_wait_q stack) timeout k))"

text \<open>The rest of \<open>k_stack_pop\<close>, when the caller runs again.\<close>

definition k_stack_pop_return :: "tid \<Rightarrow> kernel \<Rightarrow> int \<times> u32 option" where
  "k_stack_pop_return t k =
     (if swap_retval (threads k t) = - EAGAIN then (- EAGAIN, None)
      else (0, case swap_data (threads k t) of DataWord w \<Rightarrow> Some w | _ \<Rightarrow> None))"

section \<open>Last in, first out\<close>

definition stack_ok :: "k_stack \<times> word_memory \<Rightarrow> kernel \<Rightarrow> bool" where
  "stack_ok s k \<longleftrightarrow>
     (\<exists>n m. stack_next (fst s) = stack_base (fst s) + 4 * n
          \<and> stack_top (fst s) = stack_base (fst s) + 4 * m \<and> n \<le> m)
     \<and> (stack_base (fst s) < stack_next (fst s) \<longrightarrow> wait_qs k (stack_wait_q (fst s)) = [])"

definition stack_contents :: "k_stack \<times> word_memory \<Rightarrow> u32 list" where
  "stack_contents s =
     rev (map (\<lambda>i. snd s (stack_base (fst s) + 4 * i))
           [0..<(stack_next (fst s) - stack_base (fst s)) div 4])"

definition stack_capacity :: "k_stack \<times> word_memory \<Rightarrow> nat" where
  "stack_capacity s = (stack_top (fst s) - stack_base (fst s)) div 4"

text \<open>
  The operations with what they transfer. A push onto an empty stack somebody waits at is a push and
  a pop: the second event is what the woken thread's \<open>k_stack_pop\<close> returns. \<open>store\<close> is any write of
  the program outside the stack's array.
\<close>

inductive stack_op ::
  "(k_stack \<times> word_memory) \<times> kernel \<Rightarrow> u32 transfer list \<Rightarrow> (k_stack \<times> word_memory) \<times> kernel \<Rightarrow> bool" where
  push: "z_impl_k_stack_push data s k = (0, s', k') \<Longrightarrow> wait_qs k (stack_wait_q (fst s)) = [] \<Longrightarrow>
    stack_op (s, k) [Put data] (s', k')"
| push_hand: "z_impl_k_stack_push data s k = (0, s', k') \<Longrightarrow> wait_qs k (stack_wait_q (fst s)) = t # r \<Longrightarrow>
    t \<noteq> current k \<Longrightarrow> k_stack_pop_return t k' = (0, Some w) \<Longrightarrow>
    stack_op (s, k) [Put data, Got w] (s', k')"
| push_full: "z_impl_k_stack_push data s k = (e, s', k') \<Longrightarrow> e \<noteq> 0 \<Longrightarrow> stack_op (s, k) [] (s', k')"
| pop: "z_impl_k_stack_pop timeout s k = (Some (0, Some w), s', k') \<Longrightarrow> stack_op (s, k) [Got w] (s', k')"
| pop_fail: "z_impl_k_stack_pop timeout s k = (Some (e, None), s', k') \<Longrightarrow> stack_op (s, k) [] (s', k')"
| pop_wait: "running k \<Longrightarrow> z_impl_k_stack_pop timeout s k = (None, s', k') \<Longrightarrow> stack_op (s, k) [] (s', k')"
| store: "a < stack_base (fst s) \<or> stack_top (fst s) \<le> a \<Longrightarrow> stack_op (s, k) [] ((fst s, (snd s)(a := v)), k)"

lemma stack_okE:
  assumes "stack_ok (st, mem) k"
  obtains n m where "stack_next st = stack_base st + 4 * n" "stack_top st = stack_base st + 4 * m" "n \<le> m"
    "0 < n \<longrightarrow> wait_qs k (stack_wait_q st) = []"
    "stack_contents (st, mem) = rev (map (\<lambda>i. mem (stack_base st + 4 * i)) [0..<n])"
    "stack_capacity (st, mem) = m"
  using assms by (auto simp: stack_ok_def stack_contents_def stack_capacity_def)

text \<open>A push that is accepted, with and without somebody waiting.\<close>

lemma push_stores:
  assumes "stack_ok (st, mem) k" "wait_qs k (stack_wait_q st) = []"
    and "z_impl_k_stack_push data (st, mem) k = (0, s', k')"
  shows "k' = k \<and> stack_ok s' k \<and> length (stack_contents (st, mem)) < stack_capacity (st, mem)
    \<and> stack_contents s' = data # stack_contents (st, mem) \<and> stack_capacity s' = stack_capacity (st, mem)"
proof -
  obtain n m where n: "stack_next st = stack_base st + 4 * n" "stack_top st = stack_base st + 4 * m" "n \<le> m"
    "0 < n \<longrightarrow> wait_qs k (stack_wait_q st) = []"
    "stack_contents (st, mem) = rev (map (\<lambda>i. mem (stack_base st + 4 * i)) [0..<n])"
    "stack_capacity (st, mem) = m"
    using assms(1) by (rule stack_okE)
  have s': "s' = (st\<lparr>stack_next := stack_base st + 4 * Suc n\<rparr>, mem(stack_base st + 4 * n := data))" "k' = k" "n < m"
    using assms(3) n by (auto simp: z_impl_k_stack_push_def unpend_first_Nil [OF assms(2)] split: if_splits)
  have "stack_ok s' k"
    using n(2) s'(3) assms(2) unfolding s' stack_ok_def
    by (intro conjI exI [of _ "Suc n"] exI [of _ m]) simp_all
  then show ?thesis using n s' by (simp add: stack_contents_def stack_capacity_def)
qed

lemma push_hands_over:
  assumes "kernel_wf k" "stack_ok (st, mem) k" "wait_qs k (stack_wait_q st) = t # r" "t \<noteq> current k"
    and "z_impl_k_stack_push data (st, mem) k = (0, s', k')"
  shows "s' = (st, mem) \<and> kernel_wf k' \<and> wait_qs k' (stack_wait_q st) = r \<and> stack_contents (st, mem) = []
    \<and> 0 < stack_capacity (st, mem) \<and> k_stack_pop_return t k' = (0, Some data)"
proof -
  obtain n m where n: "stack_next st = stack_base st + 4 * n" "stack_top st = stack_base st + 4 * m" "n \<le> m"
    "0 < n \<longrightarrow> wait_qs k (stack_wait_q st) = []"
    "stack_contents (st, mem) = rev (map (\<lambda>i. mem (stack_base st + 4 * i)) [0..<n])"
    "stack_capacity (st, mem) = m"
    using assms(2) by (rule stack_okE)
  have k': "k' = z_reschedule (z_ready_thread t (z_thread_return_value_set_with_data t 0 (DataWord data) (z_unpend_thread t k)))"
    "s' = (st, mem)" "n < m"
    using assms(5) n by (auto simp: z_impl_k_stack_push_def unpend_first_Cons [OF assms(3)] split: if_splits)
  then show ?thesis
    using wake_first_data [OF assms(1,3) k'(1)] assms(3,4) n by (auto simp: k_stack_pop_return_def)
qed

lemma pop_takes:
  assumes "stack_ok (st, mem) k" "z_impl_k_stack_pop timeout (st, mem) k = (Some (0, Some w), s', k')"
  shows "k' = k \<and> stack_ok s' k \<and> stack_contents (st, mem) = w # stack_contents s'
    \<and> stack_capacity s' = stack_capacity (st, mem)"
proof -
  obtain n m where n: "stack_next st = stack_base st + 4 * n" "stack_top st = stack_base st + 4 * m" "n \<le> m"
    "0 < n \<longrightarrow> wait_qs k (stack_wait_q st) = []"
    "stack_contents (st, mem) = rev (map (\<lambda>i. mem (stack_base st + 4 * i)) [0..<n])"
    "stack_capacity (st, mem) = m"
    using assms(1) by (rule stack_okE)
  then obtain l where l: "n = Suc l"
    using assms(2) by (cases n) (auto simp: z_impl_k_stack_pop_def split: if_splits)
  have s': "s' = (st\<lparr>stack_next := stack_base st + 4 * l\<rparr>, mem)" "k' = k" "w = mem (stack_base st + 4 * l)"
    using assms(2) n(1) l by (auto simp: z_impl_k_stack_pop_def Let_def split: if_splits)
  have "stack_ok s' k"
    using n l unfolding s' stack_ok_def
    by (intro conjI exI [of _ l] exI [of _ m]) simp_all
  then show ?thesis using n l s' by (simp add: stack_contents_def stack_capacity_def)
qed

lemma pop_blocks:
  assumes "stack_ok s k" "z_impl_k_stack_pop timeout s k = (None, s', k')"
  shows "s' = s \<and> k' = z_pend_curr (stack_wait_q (fst s)) timeout k \<and> stack_next (fst s) \<le> stack_base (fst s)"
  using assms by (auto simp: z_impl_k_stack_pop_def Let_def split: if_splits prod.splits)

lemma stack_op_ok:
  assumes "kernel_wf k" "stack_ok s k" "stack_op (s, k) es (s', k')"
  shows "(kernel_wf k' \<and> stack_ok s' k')
    \<and> box_run (#) (stack_capacity s) es (stack_contents s) = Some (stack_contents s')
    \<and> stack_capacity s' = stack_capacity s"
  using assms(3)
proof cases
  case (push data)
  then show ?thesis
    using push_stores [of "fst s" "snd s" k data s' k'] assms(1,2) by auto
next
  case (push_hand data t r w)
  then show ?thesis
    using push_hands_over [of k "fst s" "snd s" t r data s' k'] assms(1,2)
    by (auto simp: stack_ok_def stack_contents_def)
next
  case (push_full data e)
  then have "s' = s" "k' = k"
    by (auto simp: z_impl_k_stack_push_def split: if_splits prod.splits option.splits)
  with assms push_full show ?thesis by simp
next
  case (pop timeout w)
  then show ?thesis
    using pop_takes [of "fst s" "snd s" k timeout w s' k'] assms(1,2) by auto
next
  case (pop_fail timeout e)
  then have "s' = s" "k' = k"
    by (auto simp: z_impl_k_stack_pop_def Let_def split: if_splits prod.splits)
  with assms pop_fail show ?thesis by simp
next
  case (pop_wait timeout)
  then show ?thesis
    using pop_blocks [OF assms(2) pop_wait(3)] assms(1,2)
    by (auto simp: stack_ok_def wf_pend_curr)
next
  case (store a v)
  obtain n m where "stack_next (fst s) = stack_base (fst s) + 4 * n" "stack_top (fst s) = stack_base (fst s) + 4 * m" "n \<le> m"
    using assms(2) by (auto simp: stack_ok_def)
  then have "stack_contents s' = stack_contents s"
    using store by (auto simp: stack_contents_def)
  then show ?thesis using assms store by (auto simp: stack_ok_def stack_capacity_def)
qed

lemma stack_ok_leave: "stack_ok s k \<Longrightarrow> waiters_leave (stack_wait_q (fst s)) k k' \<Longrightarrow> stack_ok s k'"
  by (auto simp: stack_ok_def dest: waiters_leave_Nil)

interpretation stack_box: container "\<lambda>s. stack_wait_q (fst s)" stack_ok stack_op stack_contents stack_capacity "(#)"
proof
  show "kernel_wf k' \<and> stack_ok s' k'" if "kernel_wf k" "stack_ok s k" "stack_op (s, k) es (s', k')" for k s es s' k'
    using stack_op_ok [OF that] by simp
  show "box_run (#) (stack_capacity s) es (stack_contents s) = Some (stack_contents s')
      \<and> stack_capacity s' = stack_capacity s"
    if "kernel_wf k" "stack_ok s k" "stack_op (s, k) es (s', k')" for k s es s' k'
    using stack_op_ok [OF that] by simp
qed (rule stack_ok_leave)

text \<open>
  (C38) A stack is a bounded list used at one end: whatever pushes and pops, by whichever threads and
  interrupts, with threads waiting, timing out and being switched in between, all that
  was pushed and popped is a run of a last-in-first-out list of the array's capacity, from the old
  contents to the new ones; a push to a waiting thread is that thread's pop.
\<close>

theorem stack_is_lifo:
  assumes "obj_run (\<lambda>s. stack_wait_q (fst s)) stack_op (s, k) es (s', k')" "kernel_wf k" "stack_ok s k"
  shows "box_run (#) (stack_capacity s) es (stack_contents s) = Some (stack_contents s')
    \<and> stack_ok s' k' \<and> kernel_wf k'"
  using stack_box.run_box [OF assms(1)] assms(2,3) by simp

text \<open>A stack of two words, after boot.\<close>

definition boot_stack :: "k_stack \<times> word_memory" where
  "boot_stack = (fst (k_stack_init 100 2 \<lparr>stack_wait_q = ObjQ 0, stack_base = 0, stack_next = 0, stack_top = 0,
     stack_flags = 0\<rparr> boot_kernel), \<lambda>_. 0)"

lemma boot_stack_ok: "stack_ok boot_stack boot_kernel"
  unfolding stack_ok_def
  by (rule conjI, rule exI [of _ 0], rule exI [of _ 2]) (simp_all add: boot_stack_def k_stack_init_def)

lemma boot_stack_box: "stack_contents boot_stack = []" "stack_capacity boot_stack = 2"
  by (simp_all add: boot_stack_def k_stack_init_def stack_contents_def stack_capacity_def)

theorem stack_is_lifo_witness:
  "\<exists>s' k'. obj_run (\<lambda>s. stack_wait_q (fst s)) stack_op (boot_stack, boot_kernel) [Put 7, Put 8, Got 8] (s', k')
     \<and> stack_contents s' = [7]"
proof -
  have wq: "wait_qs boot_kernel = (\<lambda>_. [])" by (simp add: boot_kernel_def)
  let ?op = "\<lambda>s es s'. obj_step (\<lambda>s. stack_wait_q (fst s)) stack_op (s, boot_kernel) es (s', boot_kernel)"
  define s1 where "s1 = fst (snd (z_impl_k_stack_push 7 boot_stack boot_kernel))"
  define s2 where "s2 = fst (snd (z_impl_k_stack_push 8 s1 boot_kernel))"
  define s3 where "s3 = fst (snd (z_impl_k_stack_pop K_NO_WAIT s2 boot_kernel))"
  note d = boot_stack_def k_stack_init_def s1_def s2_def s3_def z_impl_k_stack_push_def z_impl_k_stack_pop_def
    unpend_first_Nil wq Let_def
  have "?op boot_stack [Put 7] s1"
    by (rule obj_step.op, rule stack_op.push) (simp_all add: d)
  moreover have "?op s1 [Put 8] s2"
    by (rule obj_step.op, rule stack_op.push) (simp_all add: d)
  moreover have "?op s2 [Got 8] s3"
    by (rule obj_step.op, rule stack_op.pop [where timeout = K_NO_WAIT]) (simp add: d)
  ultimately have run: "obj_run (\<lambda>s. stack_wait_q (fst s)) stack_op (boot_stack, boot_kernel)
      ((([] @ [Put 7]) @ [Put 8]) @ [Got 8]) (s3, boot_kernel)"
    by (intro obj_run.step [OF obj_run.step [OF obj_run.step [OF obj_run.stop]]])
  from stack_is_lifo [OF this init_wf [OF boot_init] boot_stack_ok]
  have "stack_contents s3 = [7]"
    by (simp add: boot_stack_box)
  with run show ?thesis by (intro exI [of _ s3] exI [of _ boot_kernel]) simp
qed

text \<open>
  The size of the array is computed in 32 bits: for \<open>0x40000001\<close> entries four bytes are asked for,
  and the stack believes in an array of over a billion words.
\<close>

lemma stack_alloc_wraps:
  assumes "malloc 4 = Some a"
  shows "\<exists>stack' k'. z_impl_k_stack_alloc_init malloc 0x40000001 stack k = (0, stack', k')
    \<and> stack_capacity (stack', mem) = 0x40000001"
proof -
  have "(0x100000004 :: u32) = 4" by simp
  with assms have "malloc 0x100000004 = Some a" by (simp only:)
  then show ?thesis
    by (simp add: z_impl_k_stack_alloc_init_def k_stack_init_def stack_capacity_def Let_def)
qed

end
