(* ===== verification/MsgQ.thy ===== *)
theory MsgQ
  imports WaitObj
begin

text \<open>
  Message queues, \<open>kernel/msg_q.c\<close>: a ring of fixed-size messages in a byte memory, with one wait
  queue for the threads that wait for a message and, when the ring is full, for those that wait for
  room. A waiting thread's \<open>swap_data\<close> points to its buffer. Shown here: the ring stays well
  formed, and whatever is put and got, waited for and timed out is a run of a bounded
  first-in-first-out list.
\<close>

section \<open>Memory\<close>

type_synonym byte_memory = "nat \<Rightarrow> u8"

definition bytes_at :: "byte_memory \<Rightarrow> nat \<Rightarrow> nat \<Rightarrow> u8 list" where
  "bytes_at mem a n = map mem [a..<a + n]"

definition mem_copy :: "nat \<Rightarrow> nat \<Rightarrow> nat \<Rightarrow> byte_memory \<Rightarrow> byte_memory" where
  "mem_copy dst src n mem = (\<lambda>a. if dst \<le> a \<and> a < dst + n then mem (src + (a - dst)) else mem a)"

definition swap_ptr :: "swap_data \<Rightarrow> nat" where
  "swap_ptr d = (case d of NoData \<Rightarrow> 0 | DataWord w \<Rightarrow> unat w | DataPtr p \<Rightarrow> p)"

section \<open>Operations\<close>

abbreviation (input) "K_MSGQ_FLAG_ALLOC \<equiv> (1 :: u8)"

record k_msgq =
  msgq_wait_q :: wait_q
  msg_size :: u32
  max_msgs :: u32
  buffer_start :: nat
  buffer_end :: nat
  read_ptr :: nat
  write_ptr :: nat
  used_msgs :: u32
  msgq_flags :: u8

definition k_msgq_init :: "nat \<Rightarrow> u32 \<Rightarrow> u32 \<Rightarrow> k_msgq \<Rightarrow> kernel \<Rightarrow> k_msgq \<times> kernel" where
  "k_msgq_init buffer sz msgs q k =
     (q\<lparr>msg_size := sz, max_msgs := msgs, buffer_start := buffer,
        buffer_end := buffer + unat (msgs * sz), read_ptr := buffer, write_ptr := buffer,
        used_msgs := 0, msgq_flags := 0\<rparr>,
      k\<lparr>wait_qs := (wait_qs k)(msgq_wait_q q := [])\<rparr>)"

text \<open>\<open>malloc\<close> is \<open>z_thread_malloc\<close>.\<close>

definition z_impl_k_msgq_alloc_init ::
  "(u32 \<Rightarrow> nat option) \<Rightarrow> u32 \<Rightarrow> u32 \<Rightarrow> k_msgq \<Rightarrow> kernel \<Rightarrow> int \<times> k_msgq \<times> kernel" where
  "z_impl_k_msgq_alloc_init malloc sz msgs q k =
     (if 2 ^ 32 \<le> unat sz * unat msgs then (- EINVAL, q, k)
      else case malloc (sz * msgs) of
        Some buffer \<Rightarrow>
          let (q, k) = k_msgq_init buffer sz msgs q k
          in (0, q\<lparr>msgq_flags := K_MSGQ_FLAG_ALLOC\<rparr>, k)
      | None \<Rightarrow> (- ENOMEM, q, k))"

text \<open>The block to free, if any, comes with the result.\<close>

definition k_msgq_cleanup :: "k_msgq \<Rightarrow> kernel \<Rightarrow> int \<times> nat option \<times> k_msgq" where
  "k_msgq_cleanup q k =
     (if wait_qs k (msgq_wait_q q) \<noteq> [] then (- EBUSY, None, q)
      else if msgq_flags q AND K_MSGQ_FLAG_ALLOC \<noteq> 0
      then (0, Some (buffer_start q), q\<lparr>msgq_flags := msgq_flags q AND NOT K_MSGQ_FLAG_ALLOC\<rparr>)
      else (0, None, q))"

text \<open>A pointer moved to the next message, back to the start behind the last.\<close>

definition msgq_next :: "k_msgq \<Rightarrow> nat \<Rightarrow> nat" where
  "msgq_next q p =
     (let p = p + unat (msg_size q) in if p = buffer_end q then buffer_start q else p)"

definition msgq_store :: "nat \<Rightarrow> k_msgq \<times> byte_memory \<Rightarrow> k_msgq \<times> byte_memory" where
  "msgq_store src s =
     (case s of (q, mem) \<Rightarrow>
        (q\<lparr>write_ptr := msgq_next q (write_ptr q), used_msgs := used_msgs q + 1\<rparr>,
         mem_copy (write_ptr q) src (unat (msg_size q)) mem))"

definition z_impl_k_msgq_put ::
  "nat \<Rightarrow> k_timeout \<Rightarrow> k_msgq \<times> byte_memory \<Rightarrow> kernel \<Rightarrow> int option \<times> (k_msgq \<times> byte_memory) \<times> kernel" where
  "z_impl_k_msgq_put data timeout s k =
     (case s of (q, mem) \<Rightarrow>
        if used_msgs q < max_msgs q
        then case z_unpend_first_thread (msgq_wait_q q) k of
            (Some t, k) \<Rightarrow>
              (Some 0, (q, mem_copy (swap_ptr (swap_data (threads k t))) data (unat (msg_size q)) mem),
               z_reschedule (z_ready_thread t (arch_thread_return_value_set t 0 k)))
          | (None, k) \<Rightarrow> (Some 0, msgq_store data s, k)
        else if timeout = K_NO_WAIT then (Some (- ENOMSG), s, k)
        else
          let k = upd_thread (current k) (\<lambda>th. th\<lparr>swap_data := DataPtr data\<rparr>) k
          in (None, s, z_pend_curr (msgq_wait_q q) timeout k))"

record k_msgq_attrs =
  attrs_msg_size :: u32
  attrs_max_msgs :: u32
  attrs_used_msgs :: u32

definition z_impl_k_msgq_get_attrs :: "k_msgq \<Rightarrow> k_msgq_attrs" where
  "z_impl_k_msgq_get_attrs q =
     \<lparr>attrs_msg_size = msg_size q, attrs_max_msgs = max_msgs q, attrs_used_msgs = used_msgs q\<rparr>"

definition z_impl_k_msgq_get ::
  "nat \<Rightarrow> k_timeout \<Rightarrow> k_msgq \<times> byte_memory \<Rightarrow> kernel \<Rightarrow> int option \<times> (k_msgq \<times> byte_memory) \<times> kernel" where
  "z_impl_k_msgq_get data timeout s k =
     (case s of (q, mem) \<Rightarrow>
        if 0 < used_msgs q
        then
          let mem = mem_copy data (read_ptr q) (unat (msg_size q)) mem;
              q = q\<lparr>read_ptr := msgq_next q (read_ptr q), used_msgs := used_msgs q - 1\<rparr>
          in case z_unpend_first_thread (msgq_wait_q q) k of
               (Some t, k) \<Rightarrow>
                 (Some 0, msgq_store (swap_ptr (swap_data (threads k t))) (q, mem),
                  z_reschedule (z_ready_thread t (arch_thread_return_value_set t 0 k)))
             | (None, k) \<Rightarrow> (Some 0, (q, mem), k)
        else if timeout = K_NO_WAIT then (Some (- ENOMSG), s, k)
        else
          let k = upd_thread (current k) (\<lambda>th. th\<lparr>swap_data := DataPtr data\<rparr>) k
          in (None, s, z_pend_curr (msgq_wait_q q) timeout k))"

definition z_impl_k_msgq_peek ::
  "nat \<Rightarrow> k_msgq \<times> byte_memory \<Rightarrow> int \<times> (k_msgq \<times> byte_memory)" where
  "z_impl_k_msgq_peek data s =
     (case s of (q, mem) \<Rightarrow>
        if 0 < used_msgs q then (0, (q, mem_copy data (read_ptr q) (unat (msg_size q)) mem))
        else (- ENOMSG, s))"

definition z_impl_k_msgq_purge :: "k_msgq \<Rightarrow> kernel \<Rightarrow> k_msgq \<times> kernel" where
  "z_impl_k_msgq_purge q k =
     (let k = wake_loop (- ENOMSG) (Suc (length (wait_qs k (msgq_wait_q q)))) (msgq_wait_q q) k
      in (q\<lparr>used_msgs := 0, read_ptr := write_ptr q\<rparr>, z_reschedule k))"

definition z_impl_k_msgq_num_free_get :: "k_msgq \<Rightarrow> u32" where
  "z_impl_k_msgq_num_free_get q = max_msgs q - used_msgs q"

definition z_impl_k_msgq_num_used_get :: "k_msgq \<Rightarrow> u32" where
  "z_impl_k_msgq_num_used_get q = used_msgs q"

section \<open>First in, first out\<close>

text \<open>
  The ring holds the messages from the read index on, \<open>used_msgs\<close> of them; the write pointer is
  behind the last. Threads wait only at an empty queue, for a message, or at a full one, for room.
\<close>

definition ring_addr :: "k_msgq \<Rightarrow> nat \<Rightarrow> nat" where
  "ring_addr q i = buffer_start q + (i mod unat (max_msgs q)) * unat (msg_size q)"

definition read_index :: "k_msgq \<Rightarrow> nat" where
  "read_index q = (read_ptr q - buffer_start q) div unat (msg_size q)"

definition msgq_contents :: "k_msgq \<times> byte_memory \<Rightarrow> u8 list list" where
  "msgq_contents s =
     map (\<lambda>i. bytes_at (snd s) (ring_addr (fst s) (read_index (fst s) + i)) (unat (msg_size (fst s))))
       [0..<unat (used_msgs (fst s))]"

definition ring_ok :: "k_msgq \<Rightarrow> bool" where
  "ring_ok q \<longleftrightarrow>
     0 < msg_size q \<and> 0 < max_msgs q \<and> used_msgs q \<le> max_msgs q
     \<and> buffer_end q = buffer_start q + unat (max_msgs q) * unat (msg_size q)
     \<and> read_ptr q = ring_addr q (read_index q) \<and> read_index q < unat (max_msgs q)
     \<and> write_ptr q = ring_addr q (read_index q + unat (used_msgs q))"

definition outside :: "k_msgq \<Rightarrow> nat \<Rightarrow> bool" where
  "outside q a \<longleftrightarrow> a + unat (msg_size q) \<le> buffer_start q \<or> buffer_end q \<le> a"

definition msgq_ok :: "k_msgq \<times> byte_memory \<Rightarrow> kernel \<Rightarrow> bool" where
  "msgq_ok s k \<longleftrightarrow>
     ring_ok (fst s)
     \<and> (wait_qs k (msgq_wait_q (fst s)) \<noteq> [] \<longrightarrow> used_msgs (fst s) = 0 \<or> used_msgs (fst s) = max_msgs (fst s))
     \<and> (\<forall>t \<in> set (wait_qs k (msgq_wait_q (fst s))). outside (fst s) (swap_ptr (swap_data (threads k t))))"

lemma bytes_at_cong: "(\<And>i. a \<le> i \<Longrightarrow> i < a + n \<Longrightarrow> mem i = mem' i) \<Longrightarrow> bytes_at mem a n = bytes_at mem' a n"
  by (simp add: bytes_at_def)

lemma bytes_at_copied [simp]: "bytes_at (mem_copy dst src n mem) dst n = bytes_at mem src n"
proof -
  have "map (mem_copy dst src n mem) [dst..<dst + n] = map (\<lambda>i. mem (src + i)) [0..<n]"
    by (simp add: mem_copy_def list_eq_iff_nth_eq)
  also have "\<dots> = map mem [src..<src + n]"
    by (simp add: list_eq_iff_nth_eq)
  finally show ?thesis by (simp add: bytes_at_def)
qed

lemma bytes_at_elsewhere:
  "a + n \<le> dst \<or> dst + m \<le> a \<Longrightarrow> bytes_at (mem_copy dst src m mem) a n = bytes_at mem a n"
  by (rule bytes_at_cong) (auto simp: mem_copy_def)

text \<open>Places of the ring do not overlap, and lie in the buffer.\<close>

lemma ring_addr_apart:
  assumes "i mod unat (max_msgs q) \<noteq> j mod unat (max_msgs q)"
  shows "ring_addr q i + unat (msg_size q) \<le> ring_addr q j \<or> ring_addr q j + unat (msg_size q) \<le> ring_addr q i"
proof -
  have "a * c + c \<le> b * c \<or> b * c + c \<le> a * c" if "a \<noteq> b" for a b c :: nat
  proof (cases "a < b")
    case True
    then have "Suc a * c \<le> b * c" by (intro mult_le_mono) simp_all
    then show ?thesis by simp
  next
    case False
    with that have "Suc b * c \<le> a * c" by (intro mult_le_mono) simp_all
    then show ?thesis by simp
  qed
  from this [OF assms, of "unat (msg_size q)"] show ?thesis
    by (simp only: ring_addr_def add.assoc add_le_cancel_left)
qed

lemma ring_addr_inside:
  assumes "ring_ok q"
  shows "buffer_start q \<le> ring_addr q i" "ring_addr q i + unat (msg_size q) \<le> buffer_end q"
proof -
  have "0 < unat (max_msgs q)" using assms by (simp add: ring_ok_def word_less_nat_alt)
  then have "Suc (i mod unat (max_msgs q)) * unat (msg_size q) \<le> unat (max_msgs q) * unat (msg_size q)"
    by (intro mult_le_mono) (simp_all add: Suc_leI)
  then show "buffer_start q \<le> ring_addr q i" "ring_addr q i + unat (msg_size q) \<le> buffer_end q"
    using assms by (simp_all add: ring_ok_def ring_addr_def)
qed

lemma ring_addr_index:
  assumes "0 < msg_size q" "read_ptr q = ring_addr q i"
  shows "read_index q = i mod unat (max_msgs q)"
  using assms by (simp add: read_index_def ring_addr_def word_less_nat_alt)

lemma msgq_next_addr:
  assumes "ring_ok q"
  shows "msgq_next q (ring_addr q i) = ring_addr q (Suc i)"
proof -
  let ?n = "unat (max_msgs q)" and ?z = "unat (msg_size q)"
  have pos: "0 < ?n" "0 < ?z" and e: "buffer_end q = buffer_start q + ?n * ?z"
    using assms by (simp_all add: ring_ok_def word_less_nat_alt)
  have step: "ring_addr q i + ?z = buffer_start q + Suc (i mod ?n) * ?z" by (simp add: ring_addr_def)
  show ?thesis
  proof (cases "Suc (i mod ?n) = ?n")
    case True
    then have "Suc i mod ?n = 0" by (simp add: mod_Suc)
    with True show ?thesis by (simp add: msgq_next_def Let_def step e) (simp add: ring_addr_def)
  next
    case False
    then have "Suc i mod ?n = Suc (i mod ?n)" by (simp add: mod_Suc)
    moreover have "Suc (i mod ?n) * ?z \<noteq> ?n * ?z" using False pos(2) by (simp del: mult_Suc)
    ultimately show ?thesis using step by (simp add: msgq_next_def Let_def e del: mult_Suc) (simp add: ring_addr_def)
  qed
qed

lemma ring_addr_upd [simp]:
  "ring_addr (q\<lparr>read_ptr := p, used_msgs := u\<rparr>) = ring_addr q"
  "ring_addr (q\<lparr>write_ptr := p, used_msgs := u\<rparr>) = ring_addr q"
  "ring_addr (q\<lparr>used_msgs := u, read_ptr := p\<rparr>) = ring_addr q"
  "read_index (q\<lparr>write_ptr := p, used_msgs := u\<rparr>) = read_index q"
  by (auto simp: ring_addr_def read_index_def)

lemma store_ring:
  assumes "ring_ok q" "used_msgs q < max_msgs q" "msgq_store src (q, mem) = (q', mem')"
  shows "ring_ok q'" "msgq_contents (q', mem') = msgq_contents (q, mem) @ [bytes_at mem src (unat (msg_size q))]"
    "used_msgs q' = used_msgs q + 1"
    "max_msgs q' = max_msgs q" "msgq_wait_q q' = msgq_wait_q q" "outside q' = outside q"
proof -
  let ?n = "unat (max_msgs q)" and ?z = "unat (msg_size q)" and ?u = "unat (used_msgs q)"
  have q': "q' = q\<lparr>write_ptr := msgq_next q (write_ptr q), used_msgs := used_msgs q + 1\<rparr>"
    "mem' = mem_copy (ring_addr q (read_index q + ?u)) src ?z mem"
    using assms(1,3) by (auto simp: msgq_store_def ring_ok_def)
  have u: "unat (used_msgs q + 1) = Suc ?u" "?u < ?n"
    using assms(2) unat_inc [OF assms(2)] by (simp_all add: word_less_nat_alt)
  show "ring_ok q'"
    using assms(1) u msgq_next_addr [OF assms(1), of "read_index q + ?u"]
    by (simp add: ring_ok_def q' word_le_nat_alt)
  have "bytes_at mem' (ring_addr q (read_index q + i)) ?z = bytes_at mem (ring_addr q (read_index q + i)) ?z"
    if "i < ?u" for i
    unfolding q'(2) by (rule bytes_at_elsewhere, rule ring_addr_apart) (rule mod_add_neq [OF that u(2)])
  then show "msgq_contents (q', mem') = msgq_contents (q, mem) @ [bytes_at mem src ?z]"
    by (simp add: msgq_contents_def q'(1) u) (simp add: q'(2))
  show "used_msgs q' = used_msgs q + 1" "max_msgs q' = max_msgs q" "msgq_wait_q q' = msgq_wait_q q"
    "outside q' = outside q"
    by (auto simp: q' outside_def)
qed

lemma take_ring:
  assumes "ring_ok q" "0 < used_msgs q" "outside q data"
    and "q' = q\<lparr>read_ptr := msgq_next q (read_ptr q), used_msgs := used_msgs q - 1\<rparr>"
    and "mem' = mem_copy data (read_ptr q) (unat (msg_size q)) mem"
  shows "ring_ok q'"
    "msgq_contents (q, mem) = bytes_at mem' data (unat (msg_size q)) # msgq_contents (q', mem')"
    "outside q' = outside q"
proof -
  let ?n = "unat (max_msgs q)" and ?z = "unat (msg_size q)" and ?u = "unat (used_msgs q)"
  have r: "read_ptr q' = ring_addr q (Suc (read_index q))"
    using assms(1) msgq_next_addr [OF assms(1), of "read_index q"] by (simp add: ring_ok_def assms(4))
  have ra: "ring_addr q' = ring_addr q" by (simp add: assms(4))
  have ri: "read_index q' = Suc (read_index q) mod ?n"
    using ring_addr_index [of q' "Suc (read_index q)"] r ra assms(1,4) by (simp add: ring_ok_def)
  have u: "?u = Suc (unat (used_msgs q'))"
    using unat_dec [OF assms(2)] by (simp add: assms(4))
  have at: "ring_addr q (read_index q' + i) = ring_addr q (Suc (read_index q) + i)" for i
    by (simp add: ri ring_addr_def mod_add_left_eq)
  have "0 < ?n" using assms(1) by (simp add: ring_ok_def word_less_nat_alt)
  then show "ring_ok q'"
    using assms(1) u at [of 0] at [of "unat (used_msgs q')"] r ri
    by (simp add: ring_ok_def ra word_le_nat_alt) (simp add: assms(4))
  have "bytes_at mem' (ring_addr q i) ?z = bytes_at mem (ring_addr q i) ?z" for i
    unfolding assms(5) using ring_addr_inside [OF assms(1), of i] assms(3)
    by (intro bytes_at_elsewhere) (auto simp: outside_def)
  moreover have "bytes_at mem' data ?z = bytes_at mem (ring_addr q (read_index q)) ?z"
    using assms(1) by (simp add: assms(5) ring_ok_def)
  moreover have "msg_size q' = msg_size q" by (simp add: assms(4))
  ultimately show "msgq_contents (q, mem) = bytes_at mem' data ?z # msgq_contents (q', mem')"
    by (simp add: msgq_contents_def u ra at map_upt_Suc del: upt_Suc)
  show "outside q' = outside q" by (auto simp: assms(4) outside_def)
qed

definition msgq_capacity :: "k_msgq \<times> byte_memory \<Rightarrow> nat" where
  "msgq_capacity s = unat (max_msgs (fst s))"

text \<open>
  The operations with the messages they transfer, as the buffers of the threads hold them: a message
  put is what the sender's buffer held, a message got what the receiver's buffer holds afterwards.
  A put that finds a thread waiting for a message is a put and a get; a get that finds a thread
  waiting for room is a get and a put. Buffers of threads are outside the ring.
\<close>

inductive msgq_op ::
  "(k_msgq \<times> byte_memory) \<times> kernel \<Rightarrow> u8 list transfer list \<Rightarrow> (k_msgq \<times> byte_memory) \<times> kernel \<Rightarrow> bool" where
  put: "z_impl_k_msgq_put data timeout (q, mem) k = (Some 0, s', k') \<Longrightarrow> wait_qs k (msgq_wait_q q) = [] \<Longrightarrow>
    msgq_op ((q, mem), k) [Put (bytes_at mem data (unat (msg_size q)))] (s', k')"
| put_hand: "z_impl_k_msgq_put data timeout (q, mem) k = (Some 0, (q', mem'), k') \<Longrightarrow>
    wait_qs k (msgq_wait_q q) = t # r \<Longrightarrow>
    msgq_op ((q, mem), k)
      [Put (bytes_at mem data (unat (msg_size q))),
       Got (bytes_at mem' (swap_ptr (swap_data (threads k t))) (unat (msg_size q)))] ((q', mem'), k')"
| put_fail: "z_impl_k_msgq_put data timeout s k = (Some e, s', k') \<Longrightarrow> e \<noteq> 0 \<Longrightarrow> msgq_op (s, k) [] (s', k')"
| put_wait: "running k \<Longrightarrow> outside (fst s) data \<Longrightarrow>
    z_impl_k_msgq_put data timeout s k = (None, s', k') \<Longrightarrow> msgq_op (s, k) [] (s', k')"
| get: "outside q data \<Longrightarrow> z_impl_k_msgq_get data timeout (q, mem) k = (Some 0, (q', mem'), k') \<Longrightarrow>
    wait_qs k (msgq_wait_q q) = [] \<Longrightarrow>
    msgq_op ((q, mem), k) [Got (bytes_at mem' data (unat (msg_size q)))] ((q', mem'), k')"
| get_refill: "outside q data \<Longrightarrow> z_impl_k_msgq_get data timeout (q, mem) k = (Some 0, (q', mem'), k') \<Longrightarrow>
    wait_qs k (msgq_wait_q q) = t # r \<Longrightarrow> p = swap_ptr (swap_data (threads k t)) \<Longrightarrow>
    p + unat (msg_size q) \<le> data \<or> data + unat (msg_size q) \<le> p \<Longrightarrow>
    msgq_op ((q, mem), k)
      [Got (bytes_at mem' data (unat (msg_size q))), Put (bytes_at mem p (unat (msg_size q)))] ((q', mem'), k')"
| get_fail: "z_impl_k_msgq_get data timeout s k = (Some e, s', k') \<Longrightarrow> e \<noteq> 0 \<Longrightarrow> msgq_op (s, k) [] (s', k')"
| get_wait: "running k \<Longrightarrow> outside (fst s) data \<Longrightarrow>
    z_impl_k_msgq_get data timeout s k = (None, s', k') \<Longrightarrow> msgq_op (s, k) [] (s', k')"
| peek: "outside (fst s) data \<Longrightarrow> msgq_op (s, k) [] (snd (z_impl_k_msgq_peek data s), k)"
| purge: "msgq_op ((q, mem), k) [Cleared] ((fst (z_impl_k_msgq_purge q k), mem), snd (z_impl_k_msgq_purge q k))"
| store: "a < buffer_start (fst s) \<or> buffer_end (fst s) \<le> a \<Longrightarrow> msgq_op (s, k) [] ((fst s, (snd s)(a := v)), k)"

lemma pend_ok:
  assumes "kernel_wf k" "msgq_ok (q, mem) k" "running k" "outside q data"
    and "used_msgs q = 0 \<or> used_msgs q = max_msgs q"
    and "k' = z_pend_curr (msgq_wait_q q) timeout (upd_thread (current k) (\<lambda>th. th\<lparr>swap_data := DataPtr data\<rparr>) k)"
  shows "kernel_wf k' \<and> msgq_ok (q, mem) k'"
proof -
  let ?k = "upd_thread (current k) (\<lambda>th. th\<lparr>swap_data := DataPtr data\<rparr>) k"
  have "same_queues k ?k" by (simp add: same_queues_def upd_thread_def)
  then have "kernel_wf ?k" using assms(1) by (rule same_queues_wf)
  moreover have "running ?k" using assms(3) by (simp add: running_def upd_thread_def z_is_inactive_timeout_def)
  ultimately have "kernel_wf k'" unfolding assms(6) by (rule wf_pend_curr)
  moreover have "wait_qs ?k = wait_qs k" "current ?k = current k"
    "swap_data (threads ?k t) = (if t = current k then DataPtr data else swap_data (threads k t))" for t
    by (simp_all add: upd_thread_def)
  ultimately show ?thesis
    using assms(2,4,5) by (auto simp: msgq_ok_def assms(6) pend_curr_sel swap_ptr_def)
qed

lemma put_ok:
  assumes "kernel_wf k" "msgq_ok (q, mem) k" "z_impl_k_msgq_put data timeout (q, mem) k = (Some 0, (q', mem'), k')"
  shows "kernel_wf k' \<and> msgq_ok (q', mem') k' \<and> max_msgs q' = max_msgs q \<and> used_msgs q < max_msgs q
    \<and> (case wait_qs k (msgq_wait_q q) of
         [] \<Rightarrow> msgq_contents (q', mem') = msgq_contents (q, mem) @ [bytes_at mem data (unat (msg_size q))]
       | t # r \<Rightarrow> msgq_contents (q, mem) = [] \<and> msgq_contents (q', mem') = []
           \<and> bytes_at mem' (swap_ptr (swap_data (threads k t))) (unat (msg_size q)) =
               bytes_at mem data (unat (msg_size q)))"
proof (cases "wait_qs k (msgq_wait_q q)")
  case Nil
  then have "used_msgs q < max_msgs q" "msgq_store data (q, mem) = (q', mem')" "k' = k"
    using assms(3) by (auto simp: z_impl_k_msgq_put_def unpend_first_Nil split: if_splits)
  with Nil store_ring [of q data mem q' mem'] assms(1,2) show ?thesis
    by (simp add: msgq_ok_def)
next
  case (Cons t r)
  let ?p = "swap_ptr (swap_data (threads k t))"
  have q': "used_msgs q < max_msgs q" "q' = q" "mem' = mem_copy ?p data (unat (msg_size q)) mem"
    and k': "k' = z_reschedule (z_ready_thread t (arch_thread_return_value_set t 0 (z_unpend_thread t k)))"
    using assms(3) by (auto simp: z_impl_k_msgq_put_def unpend_first_Cons [OF Cons] split: if_splits)
  have empty: "used_msgs q = 0" using assms(2) q'(1) Cons by (auto simp: msgq_ok_def)
  then have "msgq_contents (q, m) = []" for m by (simp add: msgq_contents_def)
  then show ?thesis
    using q' wake_first(1-3) [OF assms(1) Cons k'] assms(2) Cons empty by (simp add: msgq_ok_def)
qed

lemma store_elsewhere:
  assumes "ring_ok q" "outside q a" "msgq_store src (q, mem) = (q', mem')"
  shows "bytes_at mem' a (unat (msg_size q)) = bytes_at mem a (unat (msg_size q))"
proof -
  have "write_ptr q = ring_addr q (read_index q + unat (used_msgs q))" using assms(1) by (simp add: ring_ok_def)
  then have "mem' = mem_copy (ring_addr q (read_index q + unat (used_msgs q))) src (unat (msg_size q)) mem"
    using assms(3) by (auto simp: msgq_store_def)
  then show ?thesis
    using ring_addr_inside [OF assms(1), of "read_index q + unat (used_msgs q)"] assms(2)
    by (simp only: outside_def) (intro bytes_at_elsewhere, linarith)
qed

lemma get_ok:
  assumes "kernel_wf k" "msgq_ok (q, mem) k" "outside q data"
    and "z_impl_k_msgq_get data timeout (q, mem) k = (Some 0, (q', mem'), k')"
  shows "kernel_wf k' \<and> msgq_ok (q', mem') k' \<and> max_msgs q' = max_msgs q
    \<and> (case wait_qs k (msgq_wait_q q) of
         [] \<Rightarrow> msgq_contents (q, mem) = bytes_at mem' data (unat (msg_size q)) # msgq_contents (q', mem')
       | t # r \<Rightarrow> swap_ptr (swap_data (threads k t)) + unat (msg_size q) \<le> data
             \<or> data + unat (msg_size q) \<le> swap_ptr (swap_data (threads k t)) \<longrightarrow>
           (\<exists>ms. msgq_contents (q, mem) = bytes_at mem' data (unat (msg_size q)) # ms
             \<and> msgq_contents (q', mem') = ms @ [bytes_at mem (swap_ptr (swap_data (threads k t))) (unat (msg_size q))]
             \<and> length ms < unat (max_msgs q)))"
proof -
  define q1 where "q1 = q\<lparr>read_ptr := msgq_next q (read_ptr q), used_msgs := used_msgs q - 1\<rparr>"
  define mem1 where "mem1 = mem_copy data (read_ptr q) (unat (msg_size q)) mem"
  have some: "0 < used_msgs q" using assms(4) by (auto simp: z_impl_k_msgq_get_def split: if_splits)
  have ring: "ring_ok q" "used_msgs q \<le> max_msgs q" using assms(2) by (simp_all add: msgq_ok_def ring_ok_def)
  note t1 = take_ring [OF ring(1) some assms(3) q1_def mem1_def]
  have q1: "msg_size q1 = msg_size q" "max_msgs q1 = max_msgs q" "msgq_wait_q q1 = msgq_wait_q q"
    "used_msgs q1 = used_msgs q - 1" by (simp_all add: q1_def)
  have less: "used_msgs q1 < max_msgs q1"
    using ring(2) unat_dec [OF some] by (simp add: q1 word_le_nat_alt word_less_nat_alt)
  show ?thesis
  proof (cases "wait_qs k (msgq_wait_q q)")
    case Nil
    then have "(q', mem') = (q1, mem1)" "k' = k"
      using assms(4) some by (simp_all add: z_impl_k_msgq_get_def unpend_first_Nil q1_def mem1_def Let_def)
    with Nil t1 assms(1,2) q1 show ?thesis by (simp add: msgq_ok_def)
  next
    case (Cons t r)
    let ?p = "swap_ptr (swap_data (threads k t))"
    have st: "msgq_store ?p (q1, mem1) = (q', mem')"
      and k': "k' = z_reschedule (z_ready_thread t (arch_thread_return_value_set t 0 (z_unpend_thread t k)))"
      using assms(4) some Cons
      by (simp_all add: z_impl_k_msgq_get_def unpend_first_Cons q1_def mem1_def Let_def)
    have full: "used_msgs q = max_msgs q" using assms(2) Cons some by (auto simp: msgq_ok_def)
    note s1 = store_ring [OF t1(1) less st]
    have data: "bytes_at mem' data (unat (msg_size q)) = bytes_at mem1 data (unat (msg_size q))"
      using store_elsewhere [OF t1(1) _ st, of data] assms(3) t1(3) by (simp add: q1)
    have "msgq_ok (q', mem') k'"
      using assms(2) wake_first(2,3) [OF assms(1) Cons k'] Cons s1 t1(3) full
      by (simp add: msgq_ok_def q1)
    moreover have "length (msgq_contents (q1, mem1)) < unat (max_msgs q)"
      using less by (simp add: msgq_contents_def q1 word_less_nat_alt)
    moreover have "bytes_at mem1 ?p (unat (msg_size q)) = bytes_at mem ?p (unat (msg_size q))"
      if "?p + unat (msg_size q) \<le> data \<or> data + unat (msg_size q) \<le> ?p"
      using that unfolding mem1_def by (rule bytes_at_elsewhere)
    ultimately show ?thesis
      using wake_first(1) [OF assms(1) Cons k'] s1 t1(2) q1 data by (simp add: Cons)
  qed
qed

lemma ring_ok_same:
  "ring_ok q \<Longrightarrow> outside q a \<Longrightarrow> msgq_contents (q, mem_copy a b (unat (msg_size q)) mem) = msgq_contents (q, mem)"
proof -
  assume q: "ring_ok q" "outside q a"
  have "bytes_at (mem_copy a b (unat (msg_size q)) mem) (ring_addr q i) (unat (msg_size q)) =
      bytes_at mem (ring_addr q i) (unat (msg_size q))" for i
    using q ring_addr_inside [OF q(1), of i] by (intro bytes_at_elsewhere) (auto simp: outside_def)
  then show ?thesis by (simp add: msgq_contents_def)
qed

lemma purge_ok:
  assumes "kernel_wf k" "msgq_ok (q, mem) k" "(q', k') = z_impl_k_msgq_purge q k"
  shows "kernel_wf k' \<and> msgq_ok (q', mem) k' \<and> msgq_contents (q', mem) = [] \<and> max_msgs q' = max_msgs q"
proof -
  let ?k = "wake_loop (- ENOMSG) (Suc (length (wait_qs k (msgq_wait_q q)))) (msgq_wait_q q) k"
  have w: "kernel_wf ?k" "wait_qs ?k = (wait_qs k)(msgq_wait_q q := [])"
    using wake_loop_wf [OF assms(1), where q = "msgq_wait_q q" and v = "- ENOMSG"
        and n = "Suc (length (wait_qs k (msgq_wait_q q)))"] by (simp_all del: wake_loop.simps)
  have q': "q' = q\<lparr>used_msgs := 0, read_ptr := write_ptr q\<rparr>" "k' = z_reschedule ?k"
    using assms(3) by (simp_all add: z_impl_k_msgq_purge_def Let_def del: wake_loop.simps)
  have ring: "ring_ok q" using assms(2) by (simp add: msgq_ok_def)
  then have n: "0 < unat (max_msgs q)" "0 < msg_size q" by (simp_all add: ring_ok_def word_less_nat_alt)
  have "read_ptr q' = ring_addr q' (read_index q + unat (used_msgs q))"
    using ring by (simp add: q' ring_ok_def)
  moreover from this have "read_index q' = (read_index q + unat (used_msgs q)) mod unat (max_msgs q)"
    using ring_addr_index [of q'] n by (simp add: q')
  ultimately have "ring_ok q'"
    using ring n by (simp add: ring_ok_def) (simp add: q' ring_addr_def)
  then show ?thesis
    using w wf_reschedule(1) [OF w(1)] 
    by (simp add: msgq_ok_def q' msgq_contents_def del: wake_loop.simps)
qed

lemma msgq_ok_leave: "msgq_ok s k \<Longrightarrow> waiters_leave (msgq_wait_q (fst s)) k k' \<Longrightarrow> msgq_ok s k'"
  by (auto simp: msgq_ok_def waiters_leave_def)

lemma msgq_op_ok:
  assumes "kernel_wf k" "msgq_ok s k" "msgq_op (s, k) es (s', k')"
  shows "(kernel_wf k' \<and> msgq_ok s' k')
    \<and> box_run enqueue (msgq_capacity s) es (msgq_contents s) = Some (msgq_contents s')
    \<and> msgq_capacity s' = msgq_capacity s"
  using assms(3)
proof cases
  case (put data timeout q mem)
  then show ?thesis
    using put_ok [of k q mem data timeout "fst s'" "snd s'" k'] assms(1,2)
    by (simp add: msgq_capacity_def enqueue_def msgq_contents_def word_less_nat_alt)
next
  case (put_hand data timeout q mem q' mem' t r)
  then show ?thesis
    using put_ok [of k q mem data timeout q' mem' k'] assms(1,2)
    by (auto simp: msgq_capacity_def enqueue_def word_less_nat_alt)
next
  case (put_fail data timeout e)
  then have "s' = s" "k' = k"
    by (auto simp: z_impl_k_msgq_put_def Let_def split: if_splits prod.splits option.splits)
  with assms put_fail show ?thesis by simp
next
  case (put_wait data timeout)
  then have w: "s' = s" "\<not> used_msgs (fst s) < max_msgs (fst s)" "k' = z_pend_curr (msgq_wait_q (fst s)) timeout
      (upd_thread (current k) (\<lambda>th. th\<lparr>swap_data := DataPtr data\<rparr>) k)"
    by (auto simp: z_impl_k_msgq_put_def Let_def split: if_splits prod.splits option.splits)
  then have "used_msgs (fst s) = max_msgs (fst s)" using assms(2) by (auto simp: msgq_ok_def ring_ok_def)
  then show ?thesis
    using pend_ok [of k "fst s" "snd s" data k' timeout] w put_wait assms by simp
next
  case (get q data timeout mem q' mem')
  then show ?thesis
    using get_ok [of k q mem data timeout q' mem' k'] assms(1,2) by (simp add: msgq_capacity_def)
next
  case (get_refill q data timeout mem q' mem' t r p)
  then show ?thesis
    using get_ok [of k q mem data timeout q' mem' k'] assms(1,2) by (auto simp: msgq_capacity_def enqueue_def)
next
  case (get_fail data timeout e)
  then have "s' = s" "k' = k"
    by (auto simp: z_impl_k_msgq_get_def Let_def split: if_splits prod.splits option.splits)
  with assms get_fail show ?thesis by simp
next
  case (get_wait data timeout)
  then have w: "s' = s" "used_msgs (fst s) = 0" "k' = z_pend_curr (msgq_wait_q (fst s)) timeout
      (upd_thread (current k) (\<lambda>th. th\<lparr>swap_data := DataPtr data\<rparr>) k)"
    by (auto simp: z_impl_k_msgq_get_def Let_def word_gt_0 split: if_splits prod.splits option.splits)
  then show ?thesis
    using pend_ok [of k "fst s" "snd s" data k' timeout] get_wait assms by simp
next
  case (peek data)
  then show ?thesis
    using assms ring_ok_same [of "fst s" data "read_ptr (fst s)" "snd s"]
    by (auto simp: z_impl_k_msgq_peek_def msgq_ok_def msgq_capacity_def split: prod.splits)
next
  case (purge q mem)
  then show ?thesis
    using purge_ok [of k q mem "fst s'" k'] assms(1,2) by (simp add: msgq_capacity_def)
next
  case (store a v)
  have ring: "ring_ok (fst s)" using assms(2) by (simp add: msgq_ok_def)
  have "bytes_at ((snd s)(a := v)) (ring_addr (fst s) i) (unat (msg_size (fst s))) =
      bytes_at (snd s) (ring_addr (fst s) i) (unat (msg_size (fst s)))" for i
    using ring_addr_inside [OF ring, of i] store by (intro bytes_at_cong) auto
  then have "msgq_contents s' = msgq_contents s" using store by (simp add: msgq_contents_def)
  with assms store show ?thesis by (simp add: msgq_ok_def msgq_capacity_def)
qed

interpretation msgq_box: container "\<lambda>s. msgq_wait_q (fst s)" msgq_ok msgq_op msgq_contents msgq_capacity enqueue
proof
  show "kernel_wf k' \<and> msgq_ok s' k'" if "kernel_wf k" "msgq_ok s k" "msgq_op (s, k) es (s', k')" for k s es s' k'
    using msgq_op_ok [OF that] by simp
  show "box_run enqueue (msgq_capacity s) es (msgq_contents s) = Some (msgq_contents s')
      \<and> msgq_capacity s' = msgq_capacity s"
    if "kernel_wf k" "msgq_ok s k" "msgq_op (s, k) es (s', k')" for k s es s' k'
    using msgq_op_ok [OF that] by simp
qed (rule msgq_ok_leave)

text \<open>
  (C9) A message queue is a bounded list, first in first out: in every run of puts, gets, peeks and
  purges by any threads, waiting or not, timing out or aborted, the messages put and got, as
  the threads' buffers hold them, are a run of such a list from the old contents to the new ones.
  Without a purge, the old contents and the messages put are, in this order, the messages got and
  the new contents: none is lost, doubled, reordered or damaged.
\<close>

theorem msgq_is_fifo:
  assumes "obj_run (\<lambda>s. msgq_wait_q (fst s)) msgq_op (s, k) es (s', k')" "kernel_wf k" "msgq_ok s k"
  shows "box_run enqueue (msgq_capacity s) es (msgq_contents s) = Some (msgq_contents s')
    \<and> (Cleared \<notin> set es \<longrightarrow> msgq_contents s @ puts es = gots es @ msgq_contents s')
    \<and> msgq_ok s' k' \<and> kernel_wf k'"
  using msgq_box.run_box [OF assms(1)] assms(2,3) by (auto dest: fifo_order)

text \<open>A queue of three messages of two bytes, after boot; somebody's message is at address 50.\<close>

definition boot_msgq :: "k_msgq \<times> byte_memory" where
  "boot_msgq = (fst (k_msgq_init 100 2 3 \<lparr>msgq_wait_q = ObjQ 0, msg_size = 0, max_msgs = 0, buffer_start = 0,
     buffer_end = 0, read_ptr = 0, write_ptr = 0, used_msgs = 0, msgq_flags = 0\<rparr> boot_kernel),
     (\<lambda>_. 0)(50 := 7, 51 := 8))"

lemma boot_msgq_ok: "msgq_ok boot_msgq boot_kernel"
  by (simp add: msgq_ok_def ring_ok_def boot_msgq_def k_msgq_init_def ring_addr_def read_index_def
      boot_kernel_def)

lemma boot_msgq_box: "msgq_contents boot_msgq = []" "msgq_capacity boot_msgq = 3"
  by (simp_all add: boot_msgq_def k_msgq_init_def msgq_contents_def msgq_capacity_def)

theorem msgq_is_fifo_witness:
  "\<exists>s' k'. obj_run (\<lambda>s. msgq_wait_q (fst s)) msgq_op (boot_msgq, boot_kernel) [Put [7, 8], Got [7, 8]] (s', k')
     \<and> msgq_contents s' = []"
proof -
  have wq: "wait_qs boot_kernel = (\<lambda>_. [])" by (simp add: boot_kernel_def)
  define s1 where "s1 = fst (snd (z_impl_k_msgq_put 50 K_NO_WAIT boot_msgq boot_kernel))"
  define s2 where "s2 = fst (snd (z_impl_k_msgq_get 60 K_NO_WAIT s1 boot_kernel))"
  note d = boot_msgq_def k_msgq_init_def s1_def s2_def z_impl_k_msgq_put_def z_impl_k_msgq_get_def
    unpend_first_Nil wq Let_def msgq_store_def mem_copy_def msgq_next_def bytes_at_def outside_def upt_rec
  have "msgq_op ((fst boot_msgq, snd boot_msgq), boot_kernel)
      [Put (bytes_at (snd boot_msgq) 50 (unat (msg_size (fst boot_msgq))))] (s1, boot_kernel)"
    by (rule msgq_op.put [where timeout = K_NO_WAIT]) (simp_all add: d)
  moreover have "bytes_at (snd boot_msgq) 50 (unat (msg_size (fst boot_msgq))) = [7, 8]" by (simp add: d)
  ultimately have "msgq_op (boot_msgq, boot_kernel) [Put [7, 8]] (s1, boot_kernel)" by simp
  moreover have "msgq_op ((fst s1, snd s1), boot_kernel)
      [Got (bytes_at (snd s2) 60 (unat (msg_size (fst s1))))] ((fst s2, snd s2), boot_kernel)"
    by (rule msgq_op.get [where timeout = K_NO_WAIT]) (simp_all add: d)
  moreover have "bytes_at (snd s2) 60 (unat (msg_size (fst s1))) = [7, 8]" by (simp add: d)
  ultimately have run: "obj_run (\<lambda>s. msgq_wait_q (fst s)) msgq_op (boot_msgq, boot_kernel)
      (([] @ [Put [7, 8]]) @ [Got [7, 8]]) (s2, boot_kernel)"
    by (intro obj_run.step [OF obj_run.step [OF obj_run.stop]] obj_step.op) simp_all
  from msgq_is_fifo [OF this init_wf [OF boot_init] boot_msgq_ok]
  have "msgq_contents s2 = []" by (simp add: boot_msgq_box enqueue_def)
  with run show ?thesis by (intro exI [of _ s2] exI [of _ boot_kernel]) simp
qed

end
