(* ===== verification/MemSlab.thy ===== *)
theory MemSlab
  imports WaitObj
begin

text \<open>
  Memory slabs, \<open>kernel/mem_slab.c\<close>: blocks of one size from a buffer, the free ones chained through
  their first word. Addresses are numbers, \<open>0\<close> is \<open>NULL\<close>; the memory maps an address to the
  pointer stored there. Shown here: the chain holds every free block once, a block is never handed
  out while somebody has it, and the count of used blocks is right.
\<close>

section \<open>Operations\<close>

type_synonym ptr_memory = "nat \<Rightarrow> nat"

record k_mem_slab =
  slab_wait_q :: wait_q
  num_blocks :: u32
  block_size :: u32
  slab_buffer :: nat
  free_list :: nat
  num_used :: u32

text \<open>The loop of \<open>create_free_list\<close>, \<open>p\<close> going through the blocks.\<close>

primrec create_free_loop :: "nat \<Rightarrow> nat \<Rightarrow> k_mem_slab \<times> ptr_memory \<Rightarrow> k_mem_slab \<times> ptr_memory" where
  "create_free_loop 0 p s = s"
| "create_free_loop (Suc n) p s =
     create_free_loop n (p + unat (block_size (fst s)))
       ((fst s)\<lparr>free_list := p\<rparr>, (snd s)(p := free_list (fst s)))"

definition create_free_list :: "k_mem_slab \<times> ptr_memory \<Rightarrow> int \<times> k_mem_slab \<times> ptr_memory" where
  "create_free_list s =
     (case s of (slab, mem) \<Rightarrow>
        if (block_size slab OR of_nat (slab_buffer slab)) AND 3 \<noteq> 0 then (- EINVAL, s)
        else (0, create_free_loop (unat (num_blocks slab)) (slab_buffer slab) (slab\<lparr>free_list := 0\<rparr>, mem)))"

text \<open>The slabs defined at build time, in the order of their section; the first that fails ends it.\<close>

primrec init_mem_slab_module :: "k_mem_slab list \<Rightarrow> ptr_memory \<Rightarrow> int \<times> k_mem_slab list \<times> ptr_memory" where
  "init_mem_slab_module [] mem = (0, [], mem)"
| "init_mem_slab_module (slab # slabs) mem =
     (case create_free_list (slab, mem) of
        (rc, slab, mem) \<Rightarrow>
          if rc < 0 then (rc, slab # slabs, mem)
          else (case init_mem_slab_module slabs mem of (rc, slabs, mem) \<Rightarrow> (rc, slab # slabs, mem)))"

definition k_mem_slab_init ::
  "nat \<Rightarrow> u32 \<Rightarrow> u32 \<Rightarrow> k_mem_slab \<times> ptr_memory \<Rightarrow> kernel \<Rightarrow> int \<times> (k_mem_slab \<times> ptr_memory) \<times> kernel" where
  "k_mem_slab_init buffer bsize nblocks s k =
     (let (rc, s) = create_free_list
            ((fst s)\<lparr>num_blocks := nblocks, block_size := bsize, slab_buffer := buffer, num_used := 0\<rparr>, snd s)
      in if rc < 0 then (rc, s, k)
         else (rc, s, k\<lparr>wait_qs := (wait_qs k)(slab_wait_q (fst s) := [])\<rparr>))"

text \<open>Result and block; \<open>None\<close> while the caller waits for one.\<close>

definition k_mem_slab_alloc ::
  "k_timeout \<Rightarrow> k_mem_slab \<times> ptr_memory \<Rightarrow> kernel \<Rightarrow> (int \<times> nat) option \<times> (k_mem_slab \<times> ptr_memory) \<times> kernel" where
  "k_mem_slab_alloc timeout s k =
     (case s of (slab, mem) \<Rightarrow>
        if free_list slab \<noteq> 0
        then (Some (0, free_list slab),
              (slab\<lparr>free_list := mem (free_list slab), num_used := num_used slab + 1\<rparr>, mem), k)
        else if timeout = K_NO_WAIT then (Some (- ENOMEM, 0), s, k)
        else (None, s, z_pend_curr (slab_wait_q slab) timeout k))"

text \<open>The rest of \<open>k_mem_slab_alloc\<close>, when the caller runs again.\<close>

definition k_mem_slab_alloc_return :: "tid \<Rightarrow> kernel \<Rightarrow> int \<times> nat option" where
  "k_mem_slab_alloc_return t k =
     (let result = swap_retval (threads k t)
      in (result, if result = 0 then (case swap_data (threads k t) of DataPtr p \<Rightarrow> Some p | _ \<Rightarrow> None) else None))"

definition k_mem_slab_free ::
  "nat \<Rightarrow> k_mem_slab \<times> ptr_memory \<Rightarrow> kernel \<Rightarrow> (k_mem_slab \<times> ptr_memory) \<times> kernel" where
  "k_mem_slab_free block s k =
     (case s of (slab, mem) \<Rightarrow>
        case (if free_list slab = 0 then z_unpend_first_thread (slab_wait_q slab) k else (None, k)) of
          (Some t, k) \<Rightarrow>
            (s, z_reschedule (z_ready_thread t (z_thread_return_value_set_with_data t 0 (DataPtr block) k)))
        | (None, k) \<Rightarrow>
            ((slab\<lparr>free_list := block, num_used := num_used slab - 1\<rparr>, mem(block := free_list slab)), k))"

definition k_mem_slab_num_used_get :: "k_mem_slab \<Rightarrow> u32" where
  "k_mem_slab_num_used_get slab = num_used slab"

definition k_mem_slab_max_used_get :: "k_mem_slab \<Rightarrow> u32" where
  "k_mem_slab_max_used_get slab = 0"

definition k_mem_slab_num_free_get :: "k_mem_slab \<Rightarrow> u32" where
  "k_mem_slab_num_free_get slab = num_blocks slab - num_used slab"

section \<open>The chain of free blocks\<close>

primrec chain :: "ptr_memory \<Rightarrow> nat \<Rightarrow> nat list \<Rightarrow> bool" where
  "chain mem p [] = (p = 0)"
| "chain mem p (a # as) = (p = a \<and> a \<noteq> 0 \<and> chain mem (mem a) as)"

lemma chain_upd [simp]: "a \<notin> set as \<Longrightarrow> chain (mem(a := v)) p as = chain mem p as"
  by (induction as arbitrary: p) auto

lemma chain_head: "chain mem p as \<Longrightarrow> p \<noteq> 0 \<longleftrightarrow> as \<noteq> []"
  by (cases as) auto

fun walk :: "nat \<Rightarrow> ptr_memory \<Rightarrow> nat \<Rightarrow> nat list" where
  "walk 0 mem p = []"
| "walk (Suc n) mem p = (if p = 0 then [] else p # walk n mem (mem p))"

lemma chain_walk: "chain mem p as \<Longrightarrow> length as \<le> n \<Longrightarrow> walk n mem p = as"
proof (induction as arbitrary: p n)
  case Nil
  then show ?case by (cases n) auto
next
  case (Cons a as)
  then show ?case by (cases n) auto
qed

definition free_blocks :: "k_mem_slab \<times> ptr_memory \<Rightarrow> nat list" where
  "free_blocks s = walk (unat (num_blocks (fst s))) (snd s) (free_list (fst s))"

definition blocks :: "k_mem_slab \<times> ptr_memory \<Rightarrow> nat set" where
  "blocks s = (\<lambda>i. slab_buffer (fst s) + i * unat (block_size (fst s))) ` {..<unat (num_blocks (fst s))}"

definition allocated :: "k_mem_slab \<times> ptr_memory \<Rightarrow> nat set" where
  "allocated s = blocks s - set (free_blocks s)"

definition slab_ok :: "k_mem_slab \<times> ptr_memory \<Rightarrow> kernel \<Rightarrow> bool" where
  "slab_ok s k \<longleftrightarrow>
     0 < block_size (fst s) \<and> 0 < slab_buffer (fst s)
     \<and> chain (snd s) (free_list (fst s)) (free_blocks s)
     \<and> distinct (free_blocks s) \<and> set (free_blocks s) \<subseteq> blocks s
     \<and> length (free_blocks s) + unat (num_used (fst s)) = unat (num_blocks (fst s))
     \<and> (wait_qs k (slab_wait_q (fst s)) \<noteq> [] \<longrightarrow> free_list (fst s) = 0)"

lemma card_blocks: "0 < block_size (fst s) \<Longrightarrow> card (blocks s) = unat (num_blocks (fst s))"
  unfolding blocks_def by (subst card_image) (auto simp: inj_on_def word_less_nat_alt)

text \<open>The blocks in use are as many as counted.\<close>

lemma card_allocated: "slab_ok s k \<Longrightarrow> card (allocated s) = unat (num_used (fst s))"
proof -
  assume ok: "slab_ok s k"
  then have "card (set (free_blocks s)) + unat (num_used (fst s)) = card (blocks s)"
    by (simp add: slab_ok_def card_blocks distinct_card)
  with ok show ?thesis by (simp add: allocated_def card_Diff_subset slab_ok_def)
qed

lemma free_blocks_eq:
  "chain mem (free_list slab) as \<Longrightarrow> length as \<le> unat (num_blocks slab) \<Longrightarrow> free_blocks (slab, mem) = as"
  by (simp add: free_blocks_def chain_walk)

section \<open>No block twice\<close>

datatype slab_event = Alloc nat | Free nat

text \<open>What a slab promises, on the set of blocks in use.\<close>

fun slab_run :: "nat set \<Rightarrow> slab_event list \<Rightarrow> nat set \<Rightarrow> nat set option" where
  "slab_run B [] A = Some A"
| "slab_run B (Alloc a # es) A = (if a \<in> B \<and> a \<notin> A then slab_run B es (insert a A) else None)"
| "slab_run B (Free a # es) A = (if a \<in> A then slab_run B es (A - {a}) else None)"

lemma slab_run_append:
  "slab_run B (es @ es') A = (case slab_run B es A of None \<Rightarrow> None | Some A' \<Rightarrow> slab_run B es' A')"
  by (induction B es A rule: slab_run.induct) auto

text \<open>
  A block freed while somebody waits is that thread's at once. Blocks are freed by those who have
  them, and \<open>store\<close>, any write of the program, leaves the first words of the free ones alone.
\<close>

inductive slab_op ::
  "(k_mem_slab \<times> ptr_memory) \<times> kernel \<Rightarrow> slab_event list \<Rightarrow> (k_mem_slab \<times> ptr_memory) \<times> kernel \<Rightarrow> bool" where
  alloc: "k_mem_slab_alloc timeout s k = (Some (0, a), s', k') \<Longrightarrow> slab_op (s, k) [Alloc a] (s', k')"
| alloc_fail: "k_mem_slab_alloc timeout s k = (Some (e, a), s', k') \<Longrightarrow> e \<noteq> 0 \<Longrightarrow> slab_op (s, k) [] (s', k')"
| alloc_wait: "running k \<Longrightarrow> k_mem_slab_alloc timeout s k = (None, s', k') \<Longrightarrow> slab_op (s, k) [] (s', k')"
| free: "a \<in> allocated s \<Longrightarrow> k_mem_slab_free a s k = (s', k') \<Longrightarrow> wait_qs k (slab_wait_q (fst s)) = [] \<Longrightarrow>
    slab_op (s, k) [Free a] (s', k')"
| free_hand: "a \<in> allocated s \<Longrightarrow> k_mem_slab_free a s k = (s', k') \<Longrightarrow>
    wait_qs k (slab_wait_q (fst s)) = t # r \<Longrightarrow> t \<noteq> current k \<Longrightarrow>
    k_mem_slab_alloc_return t k' = (0, Some b) \<Longrightarrow> slab_op (s, k) [Free a, Alloc b] (s', k')"
| store: "a \<notin> set (free_blocks s) \<Longrightarrow> slab_op (s, k) [] ((fst s, (snd s)(a := v)), k)"

lemma alloc_ok:
  assumes "slab_ok s k" "k_mem_slab_alloc timeout s k = (Some (0, a), s', k')"
  shows "k' = k \<and> slab_ok s' k \<and> a \<in> blocks s \<and> a \<notin> allocated s \<and> allocated s' = insert a (allocated s)
    \<and> blocks s' = blocks s"
proof -
  obtain slab mem where s: "s = (slab, mem)" by (cases s)
  then have s': "free_list slab \<noteq> 0" "a = free_list slab" "k' = k"
    "s' = (slab\<lparr>free_list := mem a, num_used := num_used slab + 1\<rparr>, mem)"
    using assms(2) by (auto simp: k_mem_slab_alloc_def split: if_splits)
  have "chain mem a (free_blocks s)" using assms(1) s' by (simp add: slab_ok_def s)
  moreover from this obtain as where as: "free_blocks s = a # as" using s' by (cases "free_blocks s") auto
  ultimately have ch: "chain mem (mem a) as" by simp
  have len: "Suc (length as) + unat (num_used slab) = unat (num_blocks slab)"
    using assms(1) as by (simp add: slab_ok_def s)
  then have "num_used slab < num_blocks slab" by (simp add: word_less_nat_alt)
  then have u: "unat (num_used slab + 1) = Suc (unat (num_used slab))" by (rule unat_inc)
  have fb: "free_blocks s' = as" using ch len unfolding s'(4) by (intro free_blocks_eq) simp_all
  have bl: "blocks s' = blocks s" by (simp add: blocks_def s s')
  show ?thesis
    using assms(1) as ch len u fb bl s'
    by (auto simp: slab_ok_def allocated_def s dest: chain_head)
qed

lemma free_ok:
  assumes "slab_ok s k" "a \<in> allocated s" "k_mem_slab_free a s k = (s', k')" "wait_qs k (slab_wait_q (fst s)) = []"
  shows "k' = k \<and> slab_ok s' k \<and> allocated s' = allocated s - {a} \<and> blocks s' = blocks s"
proof -
  obtain slab mem where s: "s = (slab, mem)" by (cases s)
  then have s': "s' = (slab\<lparr>free_list := a, num_used := num_used slab - 1\<rparr>, mem(a := free_list slab))" "k' = k"
    using assms(3,4) by (auto simp: k_mem_slab_free_def unpend_first_Nil split: if_splits)
  have ok: "chain mem (free_list slab) (free_blocks s)" "0 < slab_buffer slab"
    "length (free_blocks s) + unat (num_used slab) = unat (num_blocks slab)"
    using assms(1) by (simp_all add: slab_ok_def s)
  have a: "a \<in> blocks s" "a \<notin> set (free_blocks s)" "a \<noteq> 0"
    using assms(2) ok(2) by (auto simp: allocated_def blocks_def s)
  have "card (allocated s) \<noteq> 0"
    using assms(2) by (auto simp: allocated_def blocks_def card_eq_0_iff)
  then have "unat (num_used slab) \<noteq> 0" using card_allocated [OF assms(1)] by (simp add: s)
  then have "0 < num_used slab" by (auto simp: word_gt_0)
  then have u: "Suc (unat (num_used slab - 1)) = unat (num_used slab)" by (rule unat_dec)
  have fb: "free_blocks s' = a # free_blocks s"
    using ok a u unfolding s'(1) by (intro free_blocks_eq) simp_all
  have "slab_ok s' k"
    using assms(1,4) ok a u by (simp add: slab_ok_def fb) (simp add: s s' blocks_def)
  moreover have "blocks s' = blocks s" by (simp add: s s' blocks_def)
  ultimately show ?thesis using s'(2) fb by (auto simp: allocated_def)
qed

lemma free_hand_ok:
  assumes "kernel_wf k" "slab_ok s k" "k_mem_slab_free a s k = (s', k')"
    and "wait_qs k (slab_wait_q (fst s)) = t # r" "t \<noteq> current k" "k_mem_slab_alloc_return t k' = (0, Some b)"
  shows "s' = s \<and> kernel_wf k' \<and> slab_ok s k' \<and> b = a"
proof -
  obtain slab mem where s: "s = (slab, mem)" by (cases s)
  have empty: "free_list slab = 0" using assms(2,4) by (simp add: slab_ok_def s)
  have k': "k' = z_reschedule (z_ready_thread t (z_thread_return_value_set_with_data t 0 (DataPtr a) (z_unpend_thread t k)))"
    "s' = s"
    using assms(3,4) empty by (auto simp: k_mem_slab_free_def unpend_first_Cons s)
  note w = wake_first_data [OF assms(1,4) k'(1)]
  have "b = a" using assms(6) w(3) [of t] by (simp add: k_mem_slab_alloc_return_def Let_def split: if_splits)
  then show ?thesis using w assms(2) empty k'(2) by (simp add: slab_ok_def s)
qed

lemma slab_op_ok:
  assumes "kernel_wf k" "slab_ok s k" "slab_op (s, k) es (s', k')"
  shows "(kernel_wf k' \<and> slab_ok s' k') \<and> slab_run (blocks s) es (allocated s) = Some (allocated s')
    \<and> blocks s' = blocks s"
  using assms(3)
proof cases
  case (alloc timeout a)
  then show ?thesis using alloc_ok [OF assms(2) alloc(2)] assms(1) by auto
next
  case (alloc_fail timeout e a)
  then have "s' = s" "k' = k" by (auto simp: k_mem_slab_alloc_def split: if_splits prod.splits)
  with alloc_fail assms show ?thesis by simp
next
  case (alloc_wait timeout)
  then have "s' = s" "k' = z_pend_curr (slab_wait_q (fst s)) timeout k" "free_list (fst s) = 0"
    by (auto simp: k_mem_slab_alloc_def split: if_splits prod.splits)
  with alloc_wait assms show ?thesis by (simp add: slab_ok_def wf_pend_curr)
next
  case (free a)
  then show ?thesis using free_ok [OF assms(2) free(2-4)] assms(1) by auto
next
  case (free_hand a t r b)
  then show ?thesis
    using free_hand_ok [OF assms(1,2), of a s' k' t r b]
    by (auto simp: allocated_def)
next
  case (store a v)
  have "chain (snd s') (free_list (fst s')) (free_blocks s)"
    using assms(2) store by (simp add: slab_ok_def)
  then have "free_blocks s' = free_blocks s"
    using assms(2) store free_blocks_eq [of "snd s'" "fst s'" "free_blocks s"] by (simp add: slab_ok_def)
  then show ?thesis
    using assms store by (simp add: slab_ok_def allocated_def blocks_def)
qed

lemma slab_ok_leave: "slab_ok s k \<Longrightarrow> waiters_leave (slab_wait_q (fst s)) k k' \<Longrightarrow> slab_ok s k'"
  by (auto simp: slab_ok_def dest: waiters_leave_Nil)

interpretation slab_sim: simulation "\<lambda>s. slab_wait_q (fst s)" slab_ok slab_op "\<lambda>s. (blocks s, allocated s)"
  "\<lambda>es b. map_option (Pair (fst b)) (slab_run (fst b) es (snd b))"
proof
  show "kernel_wf k' \<and> slab_ok s' k'" if "kernel_wf k" "slab_ok s k" "slab_op (s, k) es (s', k')" for k s es s' k'
    using slab_op_ok [OF that] by simp
  show "map_option (Pair (fst (blocks s, allocated s)))
      (slab_run (fst (blocks s, allocated s)) es (snd (blocks s, allocated s))) = Some (blocks s', allocated s')"
    if "kernel_wf k" "slab_ok s k" "slab_op (s, k) es (s', k')" for k s es s' k'
    using slab_op_ok [OF that] by simp
qed (auto simp: slab_run_append slab_ok_leave split: option.split)

text \<open>
  (C37) A memory slab never hands out a block that somebody has, and only its own blocks: in every
  run of allocations and frees, waited for or not, each allocated block is one of the slab's
  and not in use, up to the frees before. The count of used blocks is their number.
\<close>

theorem slab_never_doubles:
  assumes "obj_run (\<lambda>s. slab_wait_q (fst s)) slab_op (s, k) es (s', k')" "kernel_wf k" "slab_ok s k"
  shows "slab_run (blocks s) es (allocated s) = Some (allocated s')
    \<and> unat (k_mem_slab_num_used_get (fst s')) = card (allocated s') \<and> slab_ok s' k' \<and> kernel_wf k'"
  using slab_sim.run_spec [OF assms(1)] assms(2,3)
  by (auto simp: k_mem_slab_num_used_get_def card_allocated)

text \<open>A slab just initialised: all blocks free.\<close>

lemma create_free_loop_chain:
  assumes "0 < p" "0 < block_size slab" "chain mem (free_list slab) as" "\<forall>a \<in> set as. a < p"
    and "create_free_loop n p (slab, mem) = (slab', mem')"
  shows "chain mem' (free_list slab') (rev (map (\<lambda>i. p + i * unat (block_size slab)) [0..<n]) @ as)
    \<and> slab' = slab\<lparr>free_list := free_list slab'\<rparr>"
  using assms
proof (induction n arbitrary: p slab mem as)
  case (Suc n)
  let ?z = "unat (block_size slab)"
  have z: "0 < ?z" using Suc.prems(2) by (simp add: word_less_nat_alt)
  have "chain mem' (free_list slab') (rev (map (\<lambda>i. (p + ?z) + i * ?z) [0..<n]) @ p # as)
      \<and> slab' = (slab\<lparr>free_list := p\<rparr>)\<lparr>free_list := free_list slab'\<rparr>"
    using Suc.IH [of "p + ?z" "slab\<lparr>free_list := p\<rparr>" "mem(p := free_list slab)" "p # as"] Suc.prems z
    by fastforce
  then show ?case by (simp add: map_upt_Suc del: upt_Suc) (simp add: algebra_simps)
qed simp

lemma slab_init_ok:
  assumes "k_mem_slab_init buffer bsize nblocks s k = (0, s', k')" "0 < buffer" "0 < bsize"
  shows "slab_ok s' k' \<and> allocated s' = {} \<and> blocks s' = (\<lambda>i. buffer + i * unat bsize) ` {..<unat nblocks}"
proof -
  let ?slab = "(fst s)\<lparr>num_blocks := nblocks, block_size := bsize, slab_buffer := buffer, num_used := 0\<rparr>"
  obtain slab' mem' where s': "s' = (slab', mem')" by (cases s')
  have loop: "create_free_loop (unat nblocks) buffer (?slab\<lparr>free_list := 0\<rparr>, snd s) = (slab', mem')"
    and k': "wait_qs k' (slab_wait_q slab') = []"
    using assms(1) s' by (auto simp: k_mem_slab_init_def create_free_list_def Let_def split: if_splits prod.splits)
  let ?as = "rev (map (\<lambda>i. buffer + i * unat bsize) [0..<unat nblocks])"
  have ch: "chain mem' (free_list slab') ?as" "slab' = ?slab\<lparr>free_list := free_list slab'\<rparr>"
    using create_free_loop_chain [OF _ _ _ _ loop, of "[]"] assms(2,3) by auto
  have sel: "num_blocks slab' = nblocks" "block_size slab' = bsize" "slab_buffer slab' = buffer" "num_used slab' = 0"
    by (subst ch(2), simp)+
  have fb: "free_blocks s' = ?as" unfolding s' by (rule free_blocks_eq) (simp_all add: ch(1) sel)
  have "distinct ?as" using assms(3) by (simp add: distinct_map inj_on_def word_less_nat_alt)
  moreover have "blocks s' = (\<lambda>i. buffer + i * unat bsize) ` {..<unat nblocks}"
    by (simp add: blocks_def s' sel)
  ultimately show ?thesis
    using ch(1) k' assms(2,3) by (auto simp: slab_ok_def fb allocated_def) (auto simp: s' sel)
qed

definition boot_slab :: "k_mem_slab \<times> ptr_memory" where
  "boot_slab = (\<lparr>slab_wait_q = ObjQ 0, num_blocks = 0, block_size = 0, slab_buffer = 0, free_list = 0,
     num_used = 0\<rparr>, \<lambda>_. 0)"

theorem slab_never_doubles_witness:
  "\<exists>s a b s' k'. k_mem_slab_init 100 8 2 boot_slab boot_kernel = (0, s, boot_kernel)
     \<and> obj_run (\<lambda>s. slab_wait_q (fst s)) slab_op (s, boot_kernel) [Alloc a, Alloc b] (s', k')
     \<and> a \<noteq> b \<and> allocated s' = {100, 108}"
proof -
  define s0 where "s0 = fst (snd (k_mem_slab_init 100 8 2 boot_slab boot_kernel))"
  define s1 where "s1 = fst (snd (k_mem_slab_alloc K_NO_WAIT s0 boot_kernel))"
  define s2 where "s2 = fst (snd (k_mem_slab_alloc K_NO_WAIT s1 boot_kernel))"
  have two: "create_free_loop 2 p s = create_free_loop (Suc (Suc 0)) p s" for p s
    by (simp only: numeral_2_eq_2)
  note d = two k_mem_slab_init_def create_free_list_def boot_slab_def s0_def s1_def s2_def k_mem_slab_alloc_def
    Let_def
  have init: "k_mem_slab_init 100 8 2 boot_slab boot_kernel = (0, s0, boot_kernel)"
    by (simp add: d) (simp add: boot_kernel_def fun_eq_iff)
  have ok: "slab_ok s0 boot_kernel" "allocated s0 = {}" "blocks s0 = {100, 108}"
  proof -
    have "{..<2 :: nat} = {0, 1}" by auto
    then show "slab_ok s0 boot_kernel" "allocated s0 = {}" "blocks s0 = {100, 108}"
      using slab_init_ok [OF init] by simp_all
  qed
  have "slab_op (s0, boot_kernel) [Alloc 108] (s1, boot_kernel)"
    by (rule slab_op.alloc [where timeout = K_NO_WAIT]) (simp add: d)
  moreover have "slab_op (s1, boot_kernel) [Alloc 100] (s2, boot_kernel)"
    by (rule slab_op.alloc [where timeout = K_NO_WAIT]) (simp add: d)
  ultimately have run: "obj_run (\<lambda>s. slab_wait_q (fst s)) slab_op (s0, boot_kernel)
      (([] @ [Alloc 108]) @ [Alloc 100]) (s2, boot_kernel)"
    by (intro obj_run.step [OF obj_run.step [OF obj_run.stop]] obj_step.op)
  from slab_never_doubles [OF this init_wf [OF boot_init] ok(1)] have "allocated s2 = {100, 108}"
    by (simp add: ok)
  with run init show ?thesis
    by (intro exI [of _ s0] exI [of _ 108] exI [of _ 100] exI [of _ s2] exI [of _ boot_kernel]) simp
qed

end
