(* ===== verification/Mutex.thy ===== *)
theory Mutex
  imports WaitObj
begin

text \<open>
  Mutexes with priority inheritance, \<open>kernel/mutex.c\<close>. The owner is a thread or \<open>None\<close>; a definition
  that reads through the owner's pointer returns \<open>None\<close> when that pointer is \<open>NULL\<close>. Shown here: a
  mutex is held by one thread at a time, as often as that thread locked it, a waiter lifts the
  owner's priority, and a waiter whose timeout fires just before the mutex is released reads through
  a null pointer when it runs.
\<close>

section \<open>Operations\<close>

abbreviation (input) "CONFIG_PRIORITY_CEILING \<equiv> (0 :: int)"
abbreviation (input) "EPERM \<equiv> (1 :: int)"

record k_mutex =
  mutex_wait_q :: wait_q
  owner :: "tid option"
  lock_count :: u32
  owner_orig_prio :: int

definition z_impl_k_mutex_init :: "k_mutex \<Rightarrow> kernel \<Rightarrow> int \<times> k_mutex \<times> kernel" where
  "z_impl_k_mutex_init m k =
     (0, m\<lparr>owner := None, lock_count := 0\<rparr>, k\<lparr>wait_qs := (wait_qs k)(mutex_wait_q m := [])\<rparr>)"

definition z_is_prio_higher :: "int \<Rightarrow> int \<Rightarrow> bool" where
  "z_is_prio_higher p test_prio \<longleftrightarrow> p < test_prio"

definition z_get_new_prio_with_ceiling :: "int \<Rightarrow> int" where
  "z_get_new_prio_with_ceiling p = (if p \<ge> CONFIG_PRIORITY_CEILING then p else CONFIG_PRIORITY_CEILING)"

definition new_prio_for_inheritance :: "int \<Rightarrow> int \<Rightarrow> int" where
  "new_prio_for_inheritance target lim =
     z_get_new_prio_with_ceiling (if z_is_prio_higher target lim then target else lim)"

definition adjust_owner_prio :: "k_mutex \<Rightarrow> int \<Rightarrow> kernel \<Rightarrow> (bool \<times> kernel) option" where
  "adjust_owner_prio m new_prio k =
     (case owner m of
        None \<Rightarrow> None
      | Some t \<Rightarrow> Some (if prio (threads k t) \<noteq> new_prio then z_set_prio t new_prio k else (False, k)))"

text \<open>
  \<open>k_mutex_lock\<close> up to the point where it returns or the caller is switched out; the flag is the
  local variable \<open>resched\<close>, needed by the rest.
\<close>

definition z_impl_k_mutex_lock ::
  "k_timeout \<Rightarrow> k_mutex \<Rightarrow> kernel \<Rightarrow> (int option \<times> bool \<times> k_mutex \<times> kernel) option" where
  "z_impl_k_mutex_lock timeout m k =
     (if lock_count m = 0 \<or> owner m = Some (current k)
      then Some (Some 0, False,
             m\<lparr>owner_orig_prio := (if lock_count m = 0 then prio (threads k (current k)) else owner_orig_prio m),
               lock_count := lock_count m + 1, owner := Some (current k)\<rparr>, k)
      else if timeout = K_NO_WAIT then Some (Some (- EBUSY), False, m, k)
      else case owner m of
          None \<Rightarrow> None
        | Some t \<Rightarrow>
            (let new_prio = new_prio_for_inheritance (prio (threads k (current k))) (prio (threads k t))
            in case (if z_is_prio_higher new_prio (prio (threads k t)) then adjust_owner_prio m new_prio k
                     else Some (False, k)) of
                 None \<Rightarrow> None
               | Some (resch, k) \<Rightarrow> Some (None, resch, m, z_pend_curr (mutex_wait_q m) timeout k)))"

text \<open>The rest, when the caller \<open>t\<close> runs again.\<close>

definition k_mutex_lock_return :: "bool \<Rightarrow> tid \<Rightarrow> k_mutex \<Rightarrow> kernel \<Rightarrow> (int \<times> kernel) option" where
  "k_mutex_lock_return resch t m k =
     (if swap_retval (threads k t) = 0 then Some (0, k)
      else
        let new_prio = (case z_priq_dumb_best (wait_qs k (mutex_wait_q m)) of
              Some waiter \<Rightarrow> new_prio_for_inheritance (prio (threads k waiter)) (owner_orig_prio m)
            | None \<Rightarrow> owner_orig_prio m)
        in case adjust_owner_prio m new_prio k of
             None \<Rightarrow> None
           | Some (b, k) \<Rightarrow> Some (- EAGAIN, if b \<or> resch then z_reschedule k else k))"

text \<open>
  \<open>None\<close> as the inner result: the caller was switched out before \<open>k_sched_unlock\<close>, which it then
  calls when it runs again.
\<close>

definition z_impl_k_mutex_unlock :: "k_mutex \<Rightarrow> kernel \<Rightarrow> (int option \<times> k_mutex \<times> kernel) option" where
  "z_impl_k_mutex_unlock m k =
     (if owner m = None then Some (Some (- EINVAL), m, k)
      else if owner m \<noteq> Some (current k) then Some (Some (- EPERM), m, k)
      else
        let k = k_sched_lock k
        in if lock_count m - 1 \<noteq> 0
           then Some (Some 0, m\<lparr>lock_count := lock_count m - 1\<rparr>, k_sched_unlock k)
           else case adjust_owner_prio m (owner_orig_prio m) k of
               None \<Rightarrow> None
             | Some (b, k) \<Rightarrow>
                 (case z_unpend_first_thread (mutex_wait_q m) k of
                    (Some t, k) \<Rightarrow>
                      let m = m\<lparr>owner := Some t, owner_orig_prio := prio (threads k t)\<rparr>;
                          k' = z_reschedule (z_ready_thread t (arch_thread_return_value_set t 0 k))
                      in Some (if current k' = current k then (Some 0, m, k_sched_unlock k') else (None, m, k'))
                  | (None, k) \<Rightarrow> Some (Some 0, m\<lparr>owner := None, lock_count := 0\<rparr>, k_sched_unlock k)))"

section \<open>Mutual exclusion\<close>

datatype lock_event = Locked tid | Unlocked tid

text \<open>What a mutex promises: the thread that holds it, and how often.\<close>

fun lock_run :: "lock_event list \<Rightarrow> (tid \<times> nat) option \<Rightarrow> (tid \<times> nat) option option" where
  "lock_run [] h = Some h"
| "lock_run (Locked t # es) h =
     (case h of
        None \<Rightarrow> lock_run es (Some (t, 1))
      | Some (u, n) \<Rightarrow> if u = t then lock_run es (Some (t, Suc n)) else None)"
| "lock_run (Unlocked t # es) h =
     (case h of
        None \<Rightarrow> None
      | Some (u, n) \<Rightarrow> if u = t then lock_run es (if n = 1 then None else Some (t, n - 1)) else None)"

lemma lock_run_append:
  "lock_run (es @ es') h = (case lock_run es h of None \<Rightarrow> None | Some h' \<Rightarrow> lock_run es' h')"
  by (induction es h rule: lock_run.induct) (auto split: option.split)

definition holder :: "k_mutex \<Rightarrow> (tid \<times> nat) option" where
  "holder m = (case owner m of None \<Rightarrow> None | Some t \<Rightarrow> Some (t, unat (lock_count m)))"

text \<open>What an unlock does: nothing but for the owner; the last one passes the mutex to the first waiter.\<close>

definition unlock_events :: "k_mutex \<Rightarrow> kernel \<Rightarrow> lock_event list" where
  "unlock_events m k =
     (if owner m \<noteq> Some (current k) then []
      else Unlocked (current k) #
        (if lock_count m = 1 then map Locked (take 1 (wait_qs k (mutex_wait_q m))) else []))"

inductive mutex_op :: "k_mutex \<times> kernel \<Rightarrow> lock_event list \<Rightarrow> k_mutex \<times> kernel \<Rightarrow> bool" where
  lock: "running k \<Longrightarrow> lock_count m + 1 \<noteq> 0 \<Longrightarrow>
    z_impl_k_mutex_lock timeout m k = Some (Some 0, b, m', k') \<Longrightarrow> mutex_op (m, k) [Locked (current k)] (m', k')"
| lock_fail: "z_impl_k_mutex_lock timeout m k = Some (Some e, b, m', k') \<Longrightarrow> e \<noteq> 0 \<Longrightarrow> mutex_op (m, k) [] (m', k')"
| lock_wait: "running k \<Longrightarrow> z_impl_k_mutex_lock timeout m k = Some (None, b, m', k') \<Longrightarrow> mutex_op (m, k) [] (m', k')"
| lock_return: "k_mutex_lock_return b t m k = Some (r, k') \<Longrightarrow> mutex_op (m, k) [] (m, k')"
| unlock: "z_impl_k_mutex_unlock m k = Some (r, m', k') \<Longrightarrow> mutex_op (m, k) (unlock_events m k) (m', k')"

definition mutex_ok :: "k_mutex \<Rightarrow> kernel \<Rightarrow> bool" where
  "mutex_ok m k \<longleftrightarrow>
     (lock_count m = 0 \<longleftrightarrow> owner m = None)
     \<and> (wait_qs k (mutex_wait_q m) \<noteq> [] \<longrightarrow> owner m \<noteq> None)
     \<and> (\<forall>t. owner m = Some t \<longrightarrow> t \<noteq> idle_thread k)"

lemma set_prio_sel [simp]:
  "wait_qs (snd (z_set_prio t p k)) = wait_qs k" "idle_thread (snd (z_set_prio t p k)) = idle_thread k"
  "current (snd (z_set_prio t p k)) = current k" "timeout_list (snd (z_set_prio t p k)) = timeout_list k"
  "pended_on (threads (snd (z_set_prio t p k)) u) = pended_on (threads k u)"
  "swap_retval (threads (snd (z_set_prio t p k)) u) = swap_retval (threads k u)"
  "prio (threads (snd (z_set_prio t p k)) u) = (if u = t then p else prio (threads k u))"
  by (simp_all add: z_set_prio_def Let_def dequeue_thread_def queue_thread_def clear_flag_def set_flag_def
      upd_thread_def)

lemma sched_lock_sel [simp]:
  "wait_qs (k_sched_lock k) = wait_qs k" "idle_thread (k_sched_lock k) = idle_thread k"
  "current (k_sched_lock k) = current k" "wait_qs (k_sched_unlock k) = wait_qs k"
  "idle_thread (k_sched_unlock k) = idle_thread k"
  "prio (threads (k_sched_lock k) u) = prio (threads k u)"
  "swap_retval (threads (k_sched_lock k) u) = swap_retval (threads k u)"
  by (simp_all add: k_sched_lock_def k_sched_unlock_def Let_def z_reschedule_irqlock_def upd_thread_def)

lemma mutex_ok_cong:
  "wait_qs k' = wait_qs k \<Longrightarrow> idle_thread k' = idle_thread k \<Longrightarrow> mutex_ok m k' = mutex_ok m k"
  by (simp add: mutex_ok_def)

lemma adjust_owner_prio_ok:
  assumes "kernel_wf k" "mutex_ok m k" "adjust_owner_prio m p k = Some (b, k')"
  shows "kernel_wf k' \<and> mutex_ok m k' \<and> wait_qs k' = wait_qs k \<and> idle_thread k' = idle_thread k
    \<and> current k' = current k \<and> (running k \<longrightarrow> running k')"
proof -
  obtain t where t: "owner m = Some t" "t \<noteq> idle_thread k"
    using assms(2,3) by (auto simp: adjust_owner_prio_def mutex_ok_def split: option.splits)
  then have k': "k' = (if prio (threads k t) \<noteq> p then snd (z_set_prio t p k) else k)"
    using assms(3) by (simp add: adjust_owner_prio_def split: if_splits)
  then show ?thesis
    using assms(1,2) t wf_set_prio [OF assms(1) t(2), of p]
    by (auto simp: mutex_ok_def running_def z_is_inactive_timeout_def)
qed

lemma lock_takes:
  assumes "mutex_ok m k" "running k" "lock_count m + 1 \<noteq> 0" "z_impl_k_mutex_lock timeout m k = Some (Some 0, b, m', k')"
  shows "k' = k \<and> mutex_ok m' k \<and> lock_run [Locked (current k)] (holder m) = Some (holder m')
    \<and> owner m' = Some (current k) \<and> mutex_wait_q m' = mutex_wait_q m"
proof -
  have m': "lock_count m = 0 \<or> owner m = Some (current k)" "k' = k" "owner m' = Some (current k)"
    "lock_count m' = lock_count m + 1" "mutex_wait_q m' = mutex_wait_q m"
    using assms(4) by (auto simp: z_impl_k_mutex_lock_def Let_def split: if_splits option.splits)
  have "unat (lock_count m + 1) = Suc (unat (lock_count m))"
    using assms(3) unat_dec [of "lock_count m + 1"] by (simp add: word_gt_0)
  then show ?thesis
    using assms m' by (auto simp: mutex_ok_def holder_def running_def split: option.split)
qed

lemma lock_blocks:
  assumes "kernel_wf k" "mutex_ok m k" "running k" "z_impl_k_mutex_lock timeout m k = Some (None, b, m', k')"
  shows "m' = m \<and> kernel_wf k' \<and> mutex_ok m k'"
proof -
  have nz: "lock_count m \<noteq> 0 \<and> owner m \<noteq> Some (current k)" "timeout \<noteq> K_NO_WAIT"
    using assms(4) by (auto simp: z_impl_k_mutex_lock_def split: if_splits)
  then obtain t where t: "owner m = Some t" using assms(2) by (auto simp: mutex_ok_def)
  define p where "p = new_prio_for_inheritance (prio (threads k (current k))) (prio (threads k t))"
  define adj where "adj = (if z_is_prio_higher p (prio (threads k t)) then adjust_owner_prio m p k else Some (False, k))"
  have "(case adj of None \<Rightarrow> None | Some (b, k) \<Rightarrow> Some (None, b, m, z_pend_curr (mutex_wait_q m) timeout k)) =
      Some (None :: int option, b, m', k')"
    unfolding adj_def p_def using assms(4) nz by (simp add: z_impl_k_mutex_lock_def t Let_def split del: if_split)
  then obtain k1 where k1: "adj = Some (b, k1)" "m' = m" "k' = z_pend_curr (mutex_wait_q m) timeout k1"
    by (cases adj) auto
  then have "kernel_wf k1" "mutex_ok m k1" "running k1"
    using assms(1-3) adjust_owner_prio_ok [of k m p b k1] by (auto simp: adj_def split: if_splits)
  then show ?thesis
    using t k1 wf_pend_curr [of k1 "mutex_wait_q m" timeout] by (simp add: mutex_ok_def pend_curr_sel)
qed

lemma lock_return_ok:
  assumes "kernel_wf k" "mutex_ok m k" "k_mutex_lock_return b t m k = Some (r, k')"
  shows "kernel_wf k' \<and> mutex_ok m k'"
proof (cases "swap_retval (threads k t) = 0")
  case True
  with assms show ?thesis by (simp add: k_mutex_lock_return_def)
next
  case False
  define p where "p = (case z_priq_dumb_best (wait_qs k (mutex_wait_q m)) of
      Some waiter \<Rightarrow> new_prio_for_inheritance (prio (threads k waiter)) (owner_orig_prio m)
    | None \<Rightarrow> owner_orig_prio m)"
  from False assms(3) have "(case adjust_owner_prio m p k of None \<Rightarrow> None
      | Some (b', k) \<Rightarrow> Some (- EAGAIN, if b' \<or> b then z_reschedule k else k)) = Some (r, k')"
    by (simp add: k_mutex_lock_return_def Let_def p_def)
  then obtain b' k1 where k1: "adjust_owner_prio m p k = Some (b', k1)" "k' = (if b' \<or> b then z_reschedule k1 else k1)"
    by (cases "adjust_owner_prio m p k") auto
  then show ?thesis
    using adjust_owner_prio_ok [OF assms(1,2) k1(1)] wf_reschedule(1) [of k1]
      mutex_ok_cong [of "z_reschedule k1" k1 m] by simp
qed

lemma unlock_ok:
  assumes "kernel_wf k" "mutex_ok m k" "z_impl_k_mutex_unlock m k = Some (r, m', k')"
  shows "kernel_wf k' \<and> mutex_ok m' k' \<and> lock_run (unlock_events m k) (holder m) = Some (holder m')"
proof (cases "owner m = Some (current k)")
  case False
  then have "m' = m" "k' = k" using assms(3) by (auto simp: z_impl_k_mutex_unlock_def split: if_splits)
  with assms False show ?thesis by (simp add: unlock_events_def)
next
  case own: True
  let ?k = "k_sched_lock k"
  have lc: "0 < lock_count m" using assms(2) own by (simp add: mutex_ok_def word_gt_0)
  have k: "kernel_wf ?k" "mutex_ok m ?k" using assms(1,2) by (simp_all add: wf_sched_lock mutex_ok_def)
  show ?thesis
  proof (cases "lock_count m = 1")
    case False
    then have "m' = m\<lparr>lock_count := lock_count m - 1\<rparr>" "k' = k_sched_unlock ?k"
      using assms(3) own by (auto simp: z_impl_k_mutex_unlock_def Let_def)
    moreover have "unat (lock_count m) \<noteq> 1" using False by (simp add: word_unat_eq_iff)
    ultimately show ?thesis
      using assms(2) own False lc k(1) unat_dec [OF lc]
      by (auto simp: mutex_ok_def holder_def unlock_events_def wf_sched_lock)
  next
    case one: True
    obtain b k1 where adj: "adjust_owner_prio m (owner_orig_prio m) ?k = Some (b, k1)"
      using own by (cases "the (adjust_owner_prio m (owner_orig_prio m) ?k)") (simp add: adjust_owner_prio_def)
    note k1 = adjust_owner_prio_ok [OF k adj]
    show ?thesis
    proof (cases "wait_qs k (mutex_wait_q m)")
      case Nil
      then have "z_unpend_first_thread (mutex_wait_q m) k1 = (None, k1)"
        using k1 by (intro unpend_first_Nil) simp
      then have "m' = m\<lparr>owner := None, lock_count := 0\<rparr>" "k' = k_sched_unlock k1"
        using assms(3) own one adj by (auto simp: z_impl_k_mutex_unlock_def Let_def)
      with own one Nil k1 show ?thesis
        by (simp add: mutex_ok_def holder_def unlock_events_def wf_sched_lock)
    next
      case (Cons t r)
      then have w: "wait_qs k1 (mutex_wait_q m) = t # r" using k1 by simp
      define k2 where "k2 = z_reschedule (z_ready_thread t (arch_thread_return_value_set t 0 (z_unpend_thread t k1)))"
      have m': "m' = m\<lparr>owner := Some t, owner_orig_prio := prio (threads (z_unpend_thread t k1) t)\<rparr>"
        "k' = k2 \<or> k' = k_sched_unlock k2"
        using assms(3) own one adj
        by (auto simp: z_impl_k_mutex_unlock_def Let_def unpend_first_Cons [OF w] k2_def split: if_splits)
      have k2: "kernel_wf k2" "idle_thread k2 = idle_thread k1" "t \<noteq> idle_thread k1"
        using wake_first(1) [OF _ w k2_def] unpend_head_thread(2) [OF _ w] k1
        by (simp_all add: k2_def z_ready_thread_def)
      have "mutex_ok m' k'" using m' k2(2,3) one by (auto simp: mutex_ok_def)
      moreover have "kernel_wf k'" using m'(2) k2(1) by (auto simp: wf_sched_lock)
      ultimately show ?thesis using own one Cons m'(1) by (simp add: holder_def unlock_events_def)
    qed
  qed
qed

lemma mutex_op_ok:
  assumes "kernel_wf k" "mutex_ok m k" "mutex_op (m, k) es (m', k')"
  shows "(kernel_wf k' \<and> mutex_ok m' k') \<and> lock_run es (holder m) = Some (holder m')"
  using assms(3)
proof cases
  case (lock timeout b)
  then show ?thesis using lock_takes [OF assms(2) lock(2-4)] assms(1) by simp
next
  case (lock_fail timeout e b)
  then have "m' = m" "k' = k"
    by (auto simp: z_impl_k_mutex_lock_def Let_def split: if_splits option.splits)
  with assms lock_fail show ?thesis by simp
next
  case (lock_wait timeout b)
  then show ?thesis using lock_blocks [OF assms(1,2) lock_wait(2,3)] by simp
next
  case (lock_return b t r)
  then show ?thesis using lock_return_ok [OF assms(1,2) lock_return(3)] by simp
next
  case (unlock r)
  then show ?thesis using unlock_ok [OF assms(1,2) unlock(2)] by simp
qed

lemma mutex_ok_leave: "mutex_ok m k \<Longrightarrow> waiters_leave (mutex_wait_q m) k k' \<Longrightarrow> mutex_ok m k'"
  by (auto simp: mutex_ok_def waiters_leave_def)

interpretation mutex_sim: simulation mutex_wait_q mutex_ok mutex_op holder lock_run
proof
  show "kernel_wf k' \<and> mutex_ok m' k'" if "kernel_wf k" "mutex_ok m k" "mutex_op (m, k) es (m', k')" for k m es m' k'
    using mutex_op_ok [OF that] by simp
  show "lock_run es (holder m) = Some (holder m')"
    if "kernel_wf k" "mutex_ok m k" "mutex_op (m, k) es (m', k')" for k m es m' k'
    using mutex_op_ok [OF that] by simp
qed (auto simp: lock_run_append mutex_ok_leave)

text \<open>
  (C10) A mutex is held by at most one thread: in every run of locks and unlocks, with waiting,
  timeouts and priorities changing in between, a lock succeeds or a waiter is given the mutex only
  when nobody holds it, or the same thread does, and it is free again after as many unlocks, by that
  thread alone, as there were locks.
\<close>

theorem mutex_excludes:
  assumes "obj_run mutex_wait_q mutex_op (m, k) es (m', k')" "kernel_wf k" "mutex_ok m k"
  shows "lock_run es (holder m) = Some (holder m') \<and> mutex_ok m' k' \<and> kernel_wf k'"
  using mutex_sim.run_spec [OF assms(1)] assms(2,3) by simp

definition boot_mutex :: k_mutex where
  "boot_mutex = \<lparr>mutex_wait_q = ObjQ 0, owner = None, lock_count = 0, owner_orig_prio = 0\<rparr>"

theorem mutex_excludes_witness:
  "\<exists>m k. obj_run mutex_wait_q mutex_op (boot_mutex, boot2_kernel) [Locked 0, Locked 0] (m, k) \<and> holder m = Some (0, 2)"
proof -
  define m1 where "m1 = boot_mutex\<lparr>owner_orig_prio := prio (threads boot2_kernel 0), lock_count := 1, owner := Some 0\<rparr>"
  have cur: "current boot2_kernel = 0" by (simp add: boot2_kernel_def boot_kernel_def queue_thread_def Let_def)
  have "mutex_op (boot_mutex, boot2_kernel) [Locked (current boot2_kernel)] (m1, boot2_kernel)"
    by (rule mutex_op.lock [OF boot2_running, where timeout = K_NO_WAIT and b = False])
      (simp_all add: z_impl_k_mutex_lock_def boot_mutex_def m1_def cur)
  moreover have "mutex_op (m1, boot2_kernel) [Locked (current boot2_kernel)] (m1\<lparr>lock_count := 2\<rparr>, boot2_kernel)"
    by (rule mutex_op.lock [OF boot2_running, where timeout = K_NO_WAIT and b = False])
      (simp_all add: z_impl_k_mutex_lock_def boot_mutex_def m1_def cur)
  ultimately have run: "obj_run mutex_wait_q mutex_op (boot_mutex, boot2_kernel)
      (([] @ [Locked 0]) @ [Locked 0]) (m1\<lparr>lock_count := 2\<rparr>, boot2_kernel)"
    by (intro obj_run.step [OF obj_run.step [OF obj_run.stop]] obj_step.op) (simp_all add: cur)
  have "mutex_ok boot_mutex boot2_kernel"
    by (simp add: mutex_ok_def boot_mutex_def boot2_kernel_def boot_kernel_def)
  from mutex_excludes [OF run boot2_wf this] have "holder (m1\<lparr>lock_count := 2\<rparr>) = Some (0, 2)"
    by (auto simp: holder_def boot_mutex_def numeral_2_eq_2)
  with run show ?thesis by auto
qed

section \<open>Priority inheritance\<close>

lemma inherited_prio: "(if max 0 (min a c) < c then max 0 (min a c) else c) = min c (max 0 a)" for a c :: int
  by (auto simp: max_def min_def)

text \<open>
  (C35) A thread that has to wait for a mutex lifts the owner to its own priority, or to the ceiling
  if it is a cooperative thread, and never lowers it.
\<close>

theorem mutex_inherits:
  assumes "mutex_ok m k" "z_impl_k_mutex_lock timeout m k = Some (None, b, m', k')"
  shows "\<exists>t. owner m = Some t \<and> t \<noteq> current k \<and> m' = m
    \<and> prio (threads k' t) = min (prio (threads k t)) (max CONFIG_PRIORITY_CEILING (prio (threads k (current k))))"
proof -
  have nz: "lock_count m \<noteq> 0" "owner m \<noteq> Some (current k)" "timeout \<noteq> K_NO_WAIT"
    using assms(2) by (auto simp: z_impl_k_mutex_lock_def split: if_splits)
  then obtain t where t: "owner m = Some t" using assms(1) by (auto simp: mutex_ok_def)
  define p where "p = new_prio_for_inheritance (prio (threads k (current k))) (prio (threads k t))"
  have p: "p = max 0 (min (prio (threads k (current k))) (prio (threads k t)))"
    by (simp add: p_def new_prio_for_inheritance_def z_get_new_prio_with_ceiling_def z_is_prio_higher_def)
  show ?thesis
  proof (cases "p < prio (threads k t)")
    case True
    then have "m' = m" "k' = z_pend_curr (mutex_wait_q m) timeout (snd (z_set_prio t p k))"
      using assms(2) nz
      by (auto simp: z_impl_k_mutex_lock_def t Let_def z_is_prio_higher_def adjust_owner_prio_def
          p_def [symmetric] case_prod_beta)
    moreover from True have "p = min (prio (threads k t)) (max 0 (prio (threads k (current k))))"
      using inherited_prio [of "prio (threads k (current k))" "prio (threads k t)"]
      by (simp only: p [symmetric] if_True)
    ultimately show ?thesis using t nz by (simp add: pend_curr_sel)
  next
    case False
    then have "m' = m" "k' = z_pend_curr (mutex_wait_q m) timeout k"
      using assms(2) nz by (auto simp: z_impl_k_mutex_lock_def t Let_def z_is_prio_higher_def p_def [symmetric])
    moreover from False have "prio (threads k t) = min (prio (threads k t)) (max 0 (prio (threads k (current k))))"
      using inherited_prio [of "prio (threads k (current k))" "prio (threads k t)"]
      by (simp only: p [symmetric] if_False)
    ultimately show ?thesis using t nz by (simp add: pend_curr_sel)
  qed
qed

text \<open>
  Thread 0 waits for a mutex that thread 1 holds, which runs meanwhile.
\<close>

definition held_mutex :: k_mutex where
  "held_mutex = \<lparr>mutex_wait_q = ObjQ 0, owner = Some 1, lock_count = 1, owner_orig_prio = 7\<rparr>"

lemma boot2_sel:
  "current boot2_kernel = 0" "idle_thread boot2_kernel = 2" "wait_qs boot2_kernel = (\<lambda>_. [])"
  "prio (threads boot2_kernel t) = (if t = 2 then 15 else 7)"
  by (simp_all add: boot2_kernel_def boot_kernel_def boot_thread_def queue_thread_def set_flag_def upd_thread_def Let_def)

lemma held_mutex_lock:
  "mutex_ok held_mutex boot2_kernel"
  "z_impl_k_mutex_lock 100 held_mutex boot2_kernel = Some (None, False, held_mutex, z_pend_curr (ObjQ 0) 100 boot2_kernel)"
  by (simp_all add: mutex_ok_def held_mutex_def boot2_sel z_impl_k_mutex_lock_def Let_def
      new_prio_for_inheritance_def z_is_prio_higher_def z_get_new_prio_with_ceiling_def)

theorem mutex_inherits_witness:
  "prio (threads (z_pend_curr (ObjQ 0) 100 boot2_kernel) 1) = 7"
  using mutex_inherits [OF held_mutex_lock] by (simp add: boot2_sel) (simp add: held_mutex_def boot2_sel)

section \<open>A timeout and an unlock\<close>

text \<open>
  (C36) A waiter whose timeout fires while the owner runs, and who gets to run only after the owner
  has unlocked the mutex, reads the priority of the mutex's owner through a null pointer on its
  way out of \<open>k_mutex_lock\<close>: nothing checks that somebody still owns it.
\<close>

theorem mutex_timeout_null:
  assumes "kernel_wf k" "mutex_ok m k" "owner m = Some (current k)" "lock_count m = 1"
    and "wait_qs k (mutex_wait_q m) = [w]" "w \<noteq> current k"
    and "thread_state (threads k w) \<inter> {THREAD_DEAD, THREAD_ABORTING} = {}" "swap_retval (threads k w) = - EAGAIN"
  shows "\<exists>m' k'. z_impl_k_mutex_unlock m (timeout_fires w k) = Some (Some 0, m', k')
    \<and> owner m' = None \<and> k_mutex_lock_return resch w m' k' = None"
proof -
  let ?k = "timeout_fires w k"
  have "w \<in> set (wait_qs k (mutex_wait_q m))" using assms(5) by simp
  note f = timeout_fires_sel [OF assms(1) this assms(7)]
  obtain b k1 where adj: "adjust_owner_prio m (owner_orig_prio m) (k_sched_lock ?k) = Some (b, k1)"
    using assms(3) by (cases "the (adjust_owner_prio m (owner_orig_prio m) (k_sched_lock ?k))")
      (simp add: adjust_owner_prio_def)
  then have "k1 = (if prio (threads k (current k)) \<noteq> owner_orig_prio m
      then snd (z_set_prio (current k) (owner_orig_prio m) (k_sched_lock ?k)) else k_sched_lock ?k)"
    using assms(3) f by (auto simp: adjust_owner_prio_def split: if_splits)
  then have k1: "wait_qs k1 (mutex_wait_q m) = []" "current k1 = current k" "swap_retval (threads k1 w) = - EAGAIN"
    using assms(5,8) by (simp_all add: f)
  have un: "z_impl_k_mutex_unlock m ?k = Some (Some 0, m\<lparr>owner := None, lock_count := 0\<rparr>, k_sched_unlock k1)"
    using assms(3,4) adj by (simp add: z_impl_k_mutex_unlock_def Let_def f unpend_first_Nil [OF k1(1)])
  have "swap_retval (threads (k_sched_unlock k1) w) = - EAGAIN"
    using k1 assms(6)
    by (simp add: k_sched_unlock_def Let_def z_reschedule_irqlock_def z_swap_def upd_thread_def)
  then have "k_mutex_lock_return resch w (m\<lparr>owner := None, lock_count := 0\<rparr>) (k_sched_unlock k1) = None"
    by (simp add: k_mutex_lock_return_def Let_def adjust_owner_prio_def)
  with un show ?thesis by simp
qed

theorem mutex_timeout_null_witness:
  "\<exists>k m' k'. z_impl_k_mutex_lock 100 held_mutex boot2_kernel = Some (None, False, held_mutex, k)
     \<and> z_impl_k_mutex_unlock held_mutex (timeout_fires 0 k) = Some (Some 0, m', k')
     \<and> k_mutex_lock_return False 0 m' k' = None"
proof -
  let ?k = "z_pend_curr (ObjQ 0) 100 boot2_kernel"
  have wf: "kernel_wf ?k" by (intro wf_pend_curr boot2_wf boot2_running)
  have "runq ?k = [1]" by code_simp
  then have cur: "current ?k = 1" by (simp add: next_up_pend_curr(1) next_up_def z_priq_dumb_best_def)
  have q: "wait_qs ?k (mutex_wait_q held_mutex) = [0]" by (simp add: pend_curr_sel boot2_sel held_mutex_def)
  have own: "owner held_mutex = Some (current ?k)" "lock_count held_mutex = 1" "0 \<noteq> current ?k"
    by (simp_all add: cur held_mutex_def)
  have "thread_state (threads boot2_kernel 0) = {THREAD_QUEUED}"
    by (simp add: boot2_kernel_def boot_kernel_def boot_thread_def queue_thread_def set_flag_def upd_thread_def Let_def)
  then have st: "thread_state (threads ?k 0) \<inter> {THREAD_DEAD, THREAD_ABORTING} = {}" "swap_retval (threads ?k 0) = - EAGAIN"
    using pend_curr_thread [of "ObjQ 0" 100 boot2_kernel] by (simp_all add: boot2_sel)
  have ok: "mutex_ok held_mutex ?k" by (simp add: mutex_ok_def held_mutex_def pend_curr_sel boot2_sel)
  show ?thesis
    using mutex_timeout_null [OF wf ok own(1,2) q own(3) st, of False] held_mutex_lock(2) by blast
qed

end
