(* ===== verification/Sx12xx.thy ===== *)
theory Sx12xx
  imports Sem
begin

text \<open>
  The LoRa driver, \<open>drivers/lora/sx12xx_common.c\<close>, behind the API of \<open>include/drivers/lora.h\<close>. The
  radio chip library (\<open>Radio\<close>, LoRaMac-node) is not part of the repository: its functions are
  outputs, recorded in \<open>calls\<close> in the order they are made, and what it reports back comes in
  through the callbacks. The programs above the driver record their own outputs in the same
  list, and an access outside an array as \<open>OutOfBounds\<close>.

  While a thread waits in \<open>lora_recv\<close> the outside world moves on: \<open>script\<close> lists what it does.
  \<open>Late\<close> is a packet whose callback ran before the receive call looked at the semaphore,
  \<open>Arrive\<close> one that comes so many milliseconds after the call, unless the wait's timeout fires
  before, and \<open>Silence\<close>, like the end of the script, lets the timeout fire. A receive that
  nothing ends is \<open>None\<close>.

  Shown here: what a receive returns in each case, that it never copies more than the caller's
  buffer holds, and that the driver is ready for the next call afterwards.
\<close>

section \<open>State\<close>

datatype effect =
    RadioInit
  | RadioSleep
  | SetChannel u32
  | SetTxConfig u8 u32 u8 u8 u8 u16 bool bool bool u8 bool u32
  | SetRxConfig u8 u8 u8 u32 u16 u16 bool u8 bool bool u8 bool bool
  | SetMaxPayloadLength u32
  | Send "u8 list" u32
  | Rx u32
  | SetTxContinuousWave u32 u8 u16
  | KSleep nat \<comment> \<open>milliseconds\<close>
  | Notify "u8 list"
  | ThreadCreate nat string
  | ThreadAbort nat
  | OutOfBounds \<comment> \<open>an access outside an array\<close>
  | DivByZero

type_synonym packet = "u8 list \<times> u16 \<times> u8" \<comment> \<open>payload, RSSI, SNR (two's complement)\<close>

datatype rx_event = Late packet | Arrive nat packet | Silence

record radio =
  kern :: kernel
  data_sem :: k_sem
  rx_buf :: "u8 list"
  rx_len :: u8
  rx_snr :: u8
  rx_rssi :: u16
  calls :: "effect list"
  script :: "rx_event list"
  uptime :: nat

definition call :: "effect \<Rightarrow> ('a) radio_scheme \<Rightarrow> 'a radio_scheme" where
  "call c w = w\<lparr>calls := calls w @ [c]\<rparr>"

text \<open>The enumerations fit a byte, and the compiler stores them in one.\<close>

record lora_modem_config =
  frequency :: u32
  bandwidth :: u8
  datarate :: u8
  coding_rate :: u8
  preamble_len :: u16
  tx_power :: u8
  tx :: bool

section \<open>Callbacks\<close>

definition sx12xx_ev_rx_done :: "u8 list \<Rightarrow> u16 \<Rightarrow> u16 \<Rightarrow> u8 \<Rightarrow> 'a radio_scheme \<Rightarrow> 'a radio_scheme" where
  "sx12xx_ev_rx_done payload len rssi snr w =
     (let w = call RadioSleep w;
          w = w\<lparr>rx_buf := payload, rx_len := ucast len, rx_rssi := rssi, rx_snr := snr\<rparr>;
          (sem, k) = z_impl_k_sem_give (data_sem w) (kern w)
      in w\<lparr>data_sem := sem, kern := k\<rparr>)"

definition sx12xx_ev_tx_done :: "'a radio_scheme \<Rightarrow> 'a radio_scheme" where
  "sx12xx_ev_tx_done w = call RadioSleep w"

definition rx_done :: "packet \<Rightarrow> 'a radio_scheme \<Rightarrow> 'a radio_scheme" where
  "rx_done p w = (case p of (payload, rssi, snr) \<Rightarrow>
     sx12xx_ev_rx_done payload (of_nat (length payload)) rssi snr w)"

section \<open>API\<close>

definition sx12xx_lora_send :: "u8 list \<Rightarrow> u32 \<Rightarrow> 'a radio_scheme \<Rightarrow> int \<times> 'a radio_scheme" where
  "sx12xx_lora_send data data_len w =
     (0, call (Send data data_len) (call (SetMaxPayloadLength data_len) w))"

text \<open>
  The packets already received run their callback, then the call itself. \<open>sem_wait\<close> is
  \<open>k_sem_take\<close> together with what happens until it returns.
\<close>

fun deliver_late :: "rx_event list \<Rightarrow> 'a radio_scheme \<Rightarrow> 'a radio_scheme" where
  "deliver_late (Late p # es) w =
     (let t = current (kern w);
          w = rx_done p w
      in deliver_late es (w\<lparr>kern := switch_to t (kern w)\<rparr>))"
| "deliver_late es w = w\<lparr>script := es\<rparr>"

definition timeout_ms :: "k_timeout \<Rightarrow> nat" where
  "timeout_ms timeout = nat (timeout * 1000 div 32768)"

definition sem_wait :: "k_timeout \<Rightarrow> 'a radio_scheme \<Rightarrow> (int \<times> 'a radio_scheme) option" where
  "sem_wait timeout w =
     (let t = current (kern w)
      in case z_impl_k_sem_take timeout (data_sem w) (kern w) of
           (Some r, sem, k) \<Rightarrow> Some (r, w\<lparr>data_sem := sem, kern := k\<rparr>)
         | (None, sem, k) \<Rightarrow>
             let w = w\<lparr>data_sem := sem, kern := k\<rparr>;
                 timed_out = (\<lambda>es.
                   if timeout = K_FOREVER then None
                   else
                     let w = w\<lparr>script := es, uptime := uptime w + timeout_ms timeout,
                               kern := timeout_fires t (kern w)\<rparr>
                     in Some (swap_retval (threads (kern w) t), w\<lparr>kern := switch_to t (kern w)\<rparr>))
             in case script w of
                  Arrive ms p # es \<Rightarrow>
                    if timeout \<noteq> K_FOREVER \<and> timeout_ms timeout < ms
                    then timed_out (Arrive (ms - timeout_ms timeout) p # es)
                    else
                      let w = rx_done p (w\<lparr>script := es, uptime := uptime w + ms\<rparr>)
                      in Some (swap_retval (threads (kern w) t), w\<lparr>kern := switch_to t (kern w)\<rparr>)
                | Silence # es \<Rightarrow> timed_out es
                | es \<Rightarrow> timed_out es)"

text \<open>
  \<open>data\<close> is the caller's buffer before and after. The copy goes through \<open>rx_len\<close>, cut to
  \<open>size\<close>; the bytes behind it stay.
\<close>

definition memcpy :: "u8 list \<Rightarrow> u8 list \<Rightarrow> nat \<Rightarrow> u8 list" where
  "memcpy dst src n = take n src @ drop (length (take n src)) dst"

definition sx12xx_lora_recv ::
  "u8 list \<Rightarrow> u8 \<Rightarrow> k_timeout \<Rightarrow> 'a radio_scheme \<Rightarrow>
   (int \<times> u8 list \<times> (u16 \<times> u8) option \<times> 'a radio_scheme) option" where
  "sx12xx_lora_recv data sz timeout w = do {
     let w = deliver_late (script w) w;
     let w = call (Rx 0) (call (SetMaxPayloadLength 255) w);
     (ret, w) \<leftarrow> sem_wait timeout w;
     if ret < 0 then Some (ret, data, None, w)
     else do {
       let w = (if rx_len w > sz then w\<lparr>rx_len := sz\<rparr> else w);
       Some (uint (rx_len w), memcpy data (rx_buf w) (unat (rx_len w)),
             Some (rx_rssi w, rx_snr w), w)
     }
   }"

definition sx12xx_lora_config :: "lora_modem_config \<Rightarrow> 'a radio_scheme \<Rightarrow> int \<times> 'a radio_scheme" where
  "sx12xx_lora_config config w =
     (let w = call (SetChannel (frequency config)) w
      in (0,
          if tx config
          then call (SetTxConfig (tx_power config) 0 (bandwidth config) (datarate config)
                      (coding_rate config) (preamble_len config) False True False 0 False 4000) w
          else call (SetRxConfig (bandwidth config) (datarate config) (coding_rate config)
                      0 (preamble_len config) 10 False 0 False False 0 False True) w))"

definition sx12xx_lora_test_cw :: "u32 \<Rightarrow> u8 \<Rightarrow> u16 \<Rightarrow> 'a radio_scheme \<Rightarrow> int \<times> 'a radio_scheme" where
  "sx12xx_lora_test_cw freq pow duration w = (0, call (SetTxContinuousWave freq pow duration) w)"

definition sx12xx_init :: "'a radio_scheme \<Rightarrow> int \<times> 'a radio_scheme" where
  "sx12xx_init w =
     (let (_, sem, k) = z_impl_k_sem_init 0 (- 1) (data_sem w) (kern w);
          w = w\<lparr>data_sem := sem, kern := k\<rparr>
      in (0, call RadioSleep (call RadioInit w)))"

section \<open>The driver behind the device API\<close>

record 'w lora_driver_api =
  api_config :: "lora_modem_config \<Rightarrow> 'w \<Rightarrow> int \<times> 'w"
  api_send :: "u8 list \<Rightarrow> u32 \<Rightarrow> 'w \<Rightarrow> int \<times> 'w"
  api_recv :: "u8 list \<Rightarrow> u8 \<Rightarrow> k_timeout \<Rightarrow> 'w \<Rightarrow> (int \<times> u8 list \<times> (u16 \<times> u8) option \<times> 'w) option"
  api_test_cw :: "(u32 \<Rightarrow> u8 \<Rightarrow> u16 \<Rightarrow> 'w \<Rightarrow> int \<times> 'w) option"
  api_init :: "'w \<Rightarrow> int \<times> 'w"

definition sx127x_lora_api :: "('a radio_scheme) lora_driver_api" where
  "sx127x_lora_api =
     \<lparr>api_config = sx12xx_lora_config, api_send = sx12xx_lora_send, api_recv = sx12xx_lora_recv,
      api_test_cw = Some sx12xx_lora_test_cw, api_init = sx12xx_init\<rparr>"

definition lora_config :: "lora_modem_config \<Rightarrow> 'a radio_scheme \<Rightarrow> int \<times> 'a radio_scheme" where
  "lora_config = api_config sx127x_lora_api"

definition lora_init :: "'a radio_scheme \<Rightarrow> int \<times> 'a radio_scheme" where
  "lora_init = api_init sx127x_lora_api"

definition lora_send :: "u8 list \<Rightarrow> u32 \<Rightarrow> 'a radio_scheme \<Rightarrow> int \<times> 'a radio_scheme" where
  "lora_send = api_send sx127x_lora_api"

definition lora_recv ::
  "u8 list \<Rightarrow> u8 \<Rightarrow> k_timeout \<Rightarrow> 'a radio_scheme \<Rightarrow>
   (int \<times> u8 list \<times> (u16 \<times> u8) option \<times> 'a radio_scheme) option" where
  "lora_recv = api_recv sx127x_lora_api"

definition lora_test_cw :: "u32 \<Rightarrow> u8 \<Rightarrow> u16 \<Rightarrow> 'a radio_scheme \<Rightarrow> int \<times> 'a radio_scheme" where
  "lora_test_cw freq pow duration w =
     (case api_test_cw sx127x_lora_api of
        None \<Rightarrow> (- ENOSYS, w)
      | Some f \<Rightarrow> f freq pow duration w)"

section \<open>What a receive returns\<close>

lemmas lora_api_defs =
  lora_config_def lora_init_def lora_send_def lora_recv_def lora_test_cw_def sx127x_lora_api_def

text \<open>
  The calling thread runs, nobody waits on \<open>data_sem\<close>, and \<open>n\<close> packets are counted on it that
  no receive has fetched.
\<close>

definition listening :: "u32 \<Rightarrow> 'a radio_scheme \<Rightarrow> bool" where
  "listening n w \<longleftrightarrow> may_wait (data_sem w) (kern w) \<and> count (data_sem w) = n"

lemma call_sel [simp]:
  "kern (call c w) = kern w" "data_sem (call c w) = data_sem w" "rx_buf (call c w) = rx_buf w"
  "rx_len (call c w) = rx_len w" "rx_snr (call c w) = rx_snr w" "rx_rssi (call c w) = rx_rssi w"
  "script (call c w) = script w" "uptime (call c w) = uptime w" "calls (call c w) = calls w @ [c]"
  "radio.more (call c w) = radio.more w"
  by (simp_all add: call_def)

lemma listening_call [simp]: "listening n (call c w) = listening n w"
  by (simp add: listening_def)

lemma ucast_of_nat_u8: "ucast (of_nat n :: u16) = (of_nat n :: u8)"
  by (rule bit_word_eqI) (simp add: bit_simps unsigned_of_nat)

lemma unat_of_nat_u8: "n < 256 \<Longrightarrow> unat (of_nat n :: u8) = n"
  by (simp add: unat_of_nat)

lemma u8_min:
  fixes sz :: u8
  assumes "n < 256"
  shows "unat (min (of_nat n) sz) = min n (unat sz)" "uint (min (of_nat n) sz) = int (min n (unat sz))"
proof -
  show "unat (min (of_nat n) sz) = min n (unat sz)"
    using assms by (simp add: min_def word_le_nat_alt unat_of_nat_u8)
  then show "uint (min (of_nat n) sz) = int (min n (unat sz))" by (simp only: uint_nat)
qed

text \<open>The semaphore and kernel part of a wait, from the contract of \<open>k_sem_take\<close> and \<open>k_sem_give\<close>.\<close>

lemma sem_wait_packet:
  assumes "listening 0 w" "timeout \<noteq> K_NO_WAIT" "script w = Arrive ms (pl, rssi, snr) # es"
    and "timeout = K_FOREVER \<or> ms \<le> timeout_ms timeout"
  shows "\<exists>k. sem_wait timeout w = Some (0, w\<lparr>kern := k, script := es, uptime := uptime w + ms,
      calls := calls w @ [RadioSleep], rx_buf := pl, rx_len := of_nat (length pl), rx_rssi := rssi,
      rx_snr := snr\<rparr>) \<and> may_wait (data_sem w) k"
proof -
  obtain k1 where k1: "z_impl_k_sem_take timeout (data_sem w) (kern w) = (None, data_sem w, k1)"
    and wt: "sole_waiter (current (kern w)) (data_sem w) k1"
    using take_blocks [of "data_sem w" "kern w" timeout] assms by (auto simp: listening_def)
  obtain k2 where k2: "z_impl_k_sem_give (data_sem w) k1 = (data_sem w, k2)"
    "swap_retval (threads k2 (current (kern w))) = 0"
    "may_wait (data_sem w) (switch_to (current (kern w)) k2)"
    using give_wakes_waiter [OF wt] by blast
  show ?thesis
    using k2 by (intro exI [of _ "switch_to (current (kern w)) k2"])
      (use assms(4) in \<open>auto simp: sem_wait_def k1 assms(3) rx_done_def sx12xx_ev_rx_done_def call_def Let_def
        ucast_of_nat_u8\<close>)
qed

text \<open>What a wait that hears nothing in time leaves of the script.\<close>

definition unheard :: "nat \<Rightarrow> rx_event list \<Rightarrow> rx_event list \<Rightarrow> bool" where
  "unheard ms es es' \<longleftrightarrow> es = [] \<and> es' = [] \<or> es = Silence # es'
     \<or> (\<exists>ms' p rest. es = Arrive ms' p # rest \<and> ms < ms' \<and> es' = Arrive (ms' - ms) p # rest)"

lemma sem_wait_silence:
  assumes "listening 0 w" "timeout \<noteq> K_NO_WAIT" "timeout \<noteq> K_FOREVER" "unheard (timeout_ms timeout) (script w) es"
  shows "\<exists>k. sem_wait timeout w =
      Some (- EAGAIN, w\<lparr>kern := k, script := es, uptime := uptime w + timeout_ms timeout\<rparr>)
      \<and> may_wait (data_sem w) k"
proof -
  let ?t = "current (kern w)"
  obtain k1 where k1: "z_impl_k_sem_take timeout (data_sem w) (kern w) = (None, data_sem w, k1)"
    and wt: "sole_waiter ?t (data_sem w) k1"
    using take_blocks [of "data_sem w" "kern w" timeout] assms by (auto simp: listening_def)
  show ?thesis
    using timeout_wakes_waiter [OF wt] assms(3,4)
    by (intro exI [of _ "switch_to ?t (timeout_fires ?t k1)"])
       (auto simp: sem_wait_def k1 Let_def unheard_def)
qed

text \<open>A packet counted earlier ends the wait at once.\<close>

lemma sem_wait_stale:
  assumes "listening n w" "0 < n"
  shows "sem_wait timeout w = Some (0, w\<lparr>data_sem := (data_sem w)\<lparr>count := n - 1\<rparr>\<rparr>)"
  using assms by (simp add: sem_wait_def z_impl_k_sem_take_def listening_def)

text \<open>Nothing to wait for.\<close>

lemma sem_wait_forever:
  assumes "listening 0 w" "script w = []"
  shows "sem_wait K_FOREVER w = None"
proof -
  obtain k1 where "z_impl_k_sem_take K_FOREVER (data_sem w) (kern w) = (None, data_sem w, k1)"
    using take_blocks [of "data_sem w" "kern w" K_FOREVER] assms by (auto simp: listening_def)
  with assms(2) show ?thesis by (simp add: sem_wait_def Let_def)
qed

text \<open>A callback while nobody waits: the packet is counted.\<close>

lemma rx_done_counts:
  assumes "listening n w" "n \<noteq> limit (data_sem w)"
  shows "listening (n + 1) ((rx_done p w)\<lparr>kern := switch_to (current (kern w)) (kern (rx_done p w))\<rparr>)
    \<and> data_sem (rx_done p w) = (data_sem w)\<lparr>count := n + 1\<rparr>"
proof -
  let ?sem = "(data_sem w)\<lparr>count := n + 1\<rparr>" and ?k = "z_reschedule (kern w)" and ?t = "current (kern w)"
  have mw: "may_wait (data_sem w) (kern w)" "count (data_sem w) = n"
    using assms(1) by (simp_all add: listening_def)
  have give: "z_impl_k_sem_give (data_sem w) (kern w) = (?sem, ?k)"
    using mw assms(2) by (simp add: give_no_waiter may_wait_def)
  have "kernel_wf ?k" using mw by (simp add: may_wait_def wf_reschedule)
  moreover have "same_queues (kern w) ?k" by simp
  ultimately have "may_wait ?sem (switch_to ?t ?k)"
    using mw by (intro switch_to_may_wait)
      (auto simp: same_queues_def may_wait_def running_def pred_defs)
  then show ?thesis
    by (cases p) (simp add: rx_done_def sx12xx_ev_rx_done_def give Let_def listening_def)
qed

section \<open>Receive\<close>

text \<open>No late packets: the first event, if any, belongs to the wait.\<close>

definition no_late :: "rx_event list \<Rightarrow> bool" where
  "no_late es \<longleftrightarrow> (case es of Late _ # _ \<Rightarrow> False | _ \<Rightarrow> True)"

lemma deliver_no_late: "no_late es \<Longrightarrow> deliver_late es w = w\<lparr>script := es\<rparr>"
  by (cases es rule: list.exhaust) (auto simp: no_late_def split: rx_event.splits)

lemma recv_packet:
  assumes "listening 0 w" "timeout \<noteq> K_NO_WAIT" "script w = Arrive ms (pl, rssi, snr) # es"
    and "timeout = K_FOREVER \<or> ms \<le> timeout_ms timeout"
    and n: "n = min (of_nat (length pl)) sz"
  shows "\<exists>k. lora_recv data sz timeout w = Some (uint n, memcpy data pl (unat n), Some (rssi, snr),
      w\<lparr>kern := k, script := es, uptime := uptime w + ms,
        calls := calls w @ [SetMaxPayloadLength 255, Rx 0, RadioSleep],
        rx_buf := pl, rx_len := n, rx_rssi := rssi, rx_snr := snr\<rparr>) \<and> may_wait (data_sem w) k"
proof -
  let ?w = "call (Rx 0) (call (SetMaxPayloadLength 255) w)"
  obtain k where k: "sem_wait timeout ?w = Some (0, ?w\<lparr>kern := k, script := es, uptime := uptime w + ms,
      calls := calls ?w @ [RadioSleep], rx_buf := pl, rx_len := of_nat (length pl), rx_rssi := rssi,
      rx_snr := snr\<rparr>)" "may_wait (data_sem w) k"
    using sem_wait_packet [of ?w timeout ms pl rssi snr es] assms by auto
  have "deliver_late (script w) w = w" using assms(3) by (simp add: deliver_no_late no_late_def)
  with k show ?thesis
    by (intro exI [of _ k])
       (auto simp: lora_api_defs sx12xx_lora_recv_def Let_def n min_def call_def not_le not_less)
qed

lemma recv_silence:
  assumes "listening 0 w" "timeout \<noteq> K_NO_WAIT" "timeout \<noteq> K_FOREVER" "unheard (timeout_ms timeout) (script w) es"
  shows "\<exists>k. lora_recv data sz timeout w = Some (- EAGAIN, data, None,
      w\<lparr>kern := k, script := es, uptime := uptime w + timeout_ms timeout,
        calls := calls w @ [SetMaxPayloadLength 255, Rx 0]\<rparr>) \<and> may_wait (data_sem w) k"
proof -
  let ?w = "call (Rx 0) (call (SetMaxPayloadLength 255) w)"
  obtain k where k: "sem_wait timeout ?w = Some (- EAGAIN, ?w\<lparr>kern := k, script := es,
      uptime := uptime w + timeout_ms timeout\<rparr>)" "may_wait (data_sem w) k"
    using sem_wait_silence [of ?w timeout es] assms by auto
  have "deliver_late (script w) w = w"
    using assms(4) by (auto simp: deliver_no_late no_late_def unheard_def)
  with k show ?thesis
    by (intro exI [of _ k]) (simp add: lora_api_defs sx12xx_lora_recv_def Let_def call_def)
qed

lemma recv_stale:
  assumes "listening n w" "0 < n" "no_late (script w)"
    and l: "l = min (rx_len w) sz"
  shows "lora_recv data sz timeout w = Some (uint l, memcpy data (rx_buf w) (unat l),
      Some (rx_rssi w, rx_snr w),
      w\<lparr>data_sem := (data_sem w)\<lparr>count := n - 1\<rparr>, rx_len := l,
        calls := calls w @ [SetMaxPayloadLength 255, Rx 0]\<rparr>)"
proof -
  let ?w = "call (Rx 0) (call (SetMaxPayloadLength 255) w)"
  have "listening n ?w" using assms(1) by simp
  note wait = sem_wait_stale [OF this assms(2), of timeout]
  have "deliver_late (script w) w = w" using assms(3) by (simp add: deliver_no_late)
  with wait show ?thesis
    by (auto simp: lora_api_defs sx12xx_lora_recv_def Let_def call_def l min_def not_le not_less)
qed

lemma memcpy_length: "n \<le> length dst \<Longrightarrow> length (memcpy dst src n) = length dst"
  by (simp add: memcpy_def)

lemma memcpy_beyond: "n \<le> m \<Longrightarrow> drop m (memcpy dst src n) = drop m dst"
  by (simp add: memcpy_def drop_append)

lemma memcpy_prefix: "n \<le> length src \<Longrightarrow> take n (memcpy dst src n) = take n src"
  by (simp add: memcpy_def)

text \<open>
  (C23) Whatever is received, from whatever state, a receive writes nothing outside the buffer of
  \<open>sz\<close> bytes it was given, reports at most \<open>sz\<close> bytes, and leaves the buffer alone when it
  reports an error.
\<close>

theorem recv_within_buffer:
  assumes "lora_recv data sz timeout w = Some (ret, data', stats, w')" "unat sz \<le> length data"
  shows "length data' = length data \<and> drop (unat sz) data' = drop (unat sz) data \<and> ret \<le> uint sz
    \<and> (ret < 0 \<longrightarrow> data' = data \<and> stats = None)"
proof -
  obtain r w1 where wait: "sem_wait timeout (call (Rx 0) (call (SetMaxPayloadLength 255)
      (deliver_late (script w) w))) = Some (r, w1)"
    using assms(1) by (auto simp: lora_api_defs sx12xx_lora_recv_def Let_def split: bind_splits)
  show ?thesis
  proof (cases "r < 0")
    case True
    moreover have "r \<le> uint sz" using True uint_ge_0 [of sz] by linarith
    ultimately show ?thesis
      using assms(1) wait by (auto simp: lora_api_defs sx12xx_lora_recv_def Let_def)
  next
    case False
    let ?n = "if sz < rx_len w1 then sz else rx_len w1"
    have "?n \<le> sz" by (simp add: not_less)
    then have "unat ?n \<le> unat sz" "uint ?n \<le> uint sz"
      by (simp only: word_le_nat_alt, simp only: word_le_def)
    moreover have "ret = uint ?n" "data' = memcpy data (rx_buf w1) (unat ?n)"
      using False assms(1) wait by (auto simp: lora_api_defs sx12xx_lora_recv_def Let_def split: if_splits)
    ultimately show ?thesis
      using assms(2) by (simp add: memcpy_length memcpy_beyond)
  qed
qed

text \<open>A board with the radio initialised and one LoRa thread, for the examples.\<close>

definition boot_radio :: "rx_event list \<Rightarrow> radio" where
  "boot_radio es =
     \<lparr>kern = boot2_kernel, data_sem = \<lparr>sem_q = ObjQ 0, count = 0, limit = - 1, sem_poll_events = []\<rparr>,
      rx_buf = [], rx_len = 0, rx_snr = 0, rx_rssi = 0, calls = [], script = es, uptime = 0\<rparr>"

lemma boot_radio_listening: "listening 0 (boot_radio es)"
  by (simp add: listening_def boot_radio_def may_wait_def boot2_wf boot2_running)
     (simp add: boot2_kernel_def boot_kernel_def boot_thread_def queue_thread_def set_flag_def
       upd_thread_def Let_def pred_defs)

theorem recv_within_buffer_witness:
  "\<exists>data' w'. lora_recv [9, 9, 9] 2 1000 (boot_radio [Arrive 7 ([1, 2, 3, 4], - 60, 5)]) =
     Some (2, data', Some (- 60, 5), w') \<and> length data' = 3 \<and> drop 2 data' = [9]"
proof -
  let ?w = "boot_radio [Arrive 7 ([1, 2, 3, 4], - 60, 5)]"
  obtain k where "lora_recv [9, 9, 9] 2 1000 ?w = Some (2, memcpy [9, 9, 9] [1, 2, 3, 4] 2, Some (- 60, 5),
      ?w\<lparr>kern := k, script := [], uptime := 7,
        calls := [SetMaxPayloadLength 255, Rx 0, RadioSleep],
        rx_buf := [1, 2, 3, 4], rx_len := 2, rx_rssi := - 60, rx_snr := 5\<rparr>)"
    using recv_packet [of ?w 1000 7 "[1, 2, 3, 4]" "- 60" 5 "[]" 2 2 "[9, 9, 9]"] boot_radio_listening
    by (auto simp: boot_radio_def timeout_ms_def)
  with recv_within_buffer [OF this] show ?thesis by fastforce
qed

text \<open>
  (C24) Receiving with no packet left over from before: a packet that comes in time is returned
  with its length (cut to the buffer), its bytes, RSSI and SNR; silence returns \<open>-EAGAIN\<close>. Both
  ways the radio was told to listen without limit, and the driver is ready for the next call.
\<close>

theorem recv_outcome:
  assumes "listening 0 w" "timeout \<noteq> K_NO_WAIT" "timeout \<noteq> K_FOREVER"
    and heard: "case pk of
        Some (ms, pl, rssi, snr) \<Rightarrow>
          script w = Arrive ms (pl, rssi, snr) # es \<and> ms \<le> timeout_ms timeout \<and> length pl < 256
      | None \<Rightarrow> unheard (timeout_ms timeout) (script w) es"
  shows "\<exists>w'. lora_recv data sz timeout w =
      Some (case pk of
              Some (ms, pl, rssi, snr) \<Rightarrow>
                (int (min (length pl) (unat sz)), memcpy data pl (min (length pl) (unat sz)),
                 Some (rssi, snr), w')
            | None \<Rightarrow> (- EAGAIN, data, None, w'))
    \<and> listening 0 w' \<and> script w' = es
    \<and> uptime w' = uptime w + (case pk of Some (ms, _) \<Rightarrow> ms | None \<Rightarrow> timeout_ms timeout)
    \<and> calls w' = calls w @ [SetMaxPayloadLength 255, Rx 0] @ (if pk = None then [] else [RadioSleep])"
proof (cases pk)
  case None
  obtain k where "lora_recv data sz timeout w = Some (- EAGAIN, data, None,
      w\<lparr>kern := k, script := es, uptime := uptime w + timeout_ms timeout,
        calls := calls w @ [SetMaxPayloadLength 255, Rx 0]\<rparr>)" "may_wait (data_sem w) k"
    using recv_silence [of w timeout es data sz] assms None by auto
  with None assms(1) show ?thesis by (auto simp: listening_def)
next
  case (Some p)
  obtain ms pl rssi snr where p: "p = (ms, pl, rssi, snr)" by (cases p) auto
  let ?n = "min (of_nat (length pl)) sz"
  have h: "script w = Arrive ms (pl, rssi, snr) # es" "ms \<le> timeout_ms timeout" "length pl < 256"
    using heard Some p by simp_all
  note n = u8_min [OF h(3), of sz]
  obtain k where "lora_recv data sz timeout w = Some (uint ?n, memcpy data pl (unat ?n), Some (rssi, snr),
      w\<lparr>kern := k, script := es, uptime := uptime w + ms,
        calls := calls w @ [SetMaxPayloadLength 255, Rx 0, RadioSleep],
        rx_buf := pl, rx_len := ?n, rx_rssi := rssi, rx_snr := snr\<rparr>)" "may_wait (data_sem w) k"
    using recv_packet [of w timeout ms pl rssi snr es ?n sz data] assms(1,2) h by auto
  with Some p assms(1) show ?thesis by (auto simp: listening_def n)
qed

theorem recv_outcome_witness:
  "\<exists>w'. lora_recv [9, 9, 9] 2 1000 (boot_radio [Arrive 7 ([1, 2, 3, 4], - 60, 5), Silence]) =
     Some (2, [1, 2, 9], Some (- 60, 5), w') \<and> listening 0 w' \<and> script w' = [Silence] \<and> uptime w' = 7"
proof -
  let ?w = "boot_radio [Arrive 7 ([1, 2, 3, 4], - 60, 5), Silence]"
  have s: "script ?w = Arrive 7 ([1, 2, 3, 4], - 60, 5) # [Silence]" "uptime ?w = 0"
    by (simp_all add: boot_radio_def)
  show ?thesis
    using s recv_outcome [where w = ?w and timeout = 1000 and es = "[Silence]"
        and pk = "Some (7, [1, 2, 3, 4], - 60, 5)" and data = "[9, 9, 9]" and sz = 2, OF boot_radio_listening]
    by (auto simp: memcpy_def timeout_ms_def)
qed

text \<open>
  (C25) A packet whose callback ran after an earlier receive had timed out is not lost and not
  dropped: the next receive returns it at once, without waiting, whatever it was asked to wait
  for.
\<close>

theorem recv_returns_stale_packet:
  assumes "listening 0 w" "0 < limit (data_sem w)" "script w = Late (pl, rssi, snr) # es" "no_late es"
    "length pl < 256"
  shows "\<exists>w'. lora_recv data sz timeout w =
      Some (int (min (length pl) (unat sz)), memcpy data pl (min (length pl) (unat sz)), Some (rssi, snr), w')
    \<and> listening 0 w' \<and> script w' = es \<and> uptime w' = uptime w"
proof -
  let ?p = "(pl, rssi, snr)"
  let ?w1 = "(rx_done ?p w)\<lparr>kern := switch_to (current (kern w)) (kern (rx_done ?p w))\<rparr>"
  let ?w = "?w1\<lparr>script := es\<rparr>"
  let ?l = "min (of_nat (length pl)) sz"
  have l1: "listening 1 ?w1" using rx_done_counts [of 0 w ?p] assms(1,2) by simp
  then have l: "listening 1 ?w" by (simp add: listening_def)
  have late: "deliver_late (script w) w = ?w"
    using assms(3,4) by (simp add: deliver_no_late Let_def)
  have "deliver_late (script ?w) ?w = ?w" using assms(4) by (simp add: deliver_no_late)
  with late have same: "lora_recv data sz timeout w = lora_recv data sz timeout ?w"
    by (simp add: lora_api_defs sx12xx_lora_recv_def Let_def)
  have rx: "rx_buf ?w = pl" "rx_len ?w = of_nat (length pl)" "rx_rssi ?w = rssi" "rx_snr ?w = snr"
    "uptime ?w = uptime w"
    by (simp_all add: rx_done_def sx12xx_ev_rx_done_def Let_def case_prod_beta ucast_of_nat_u8)
  note n = u8_min [OF assms(5), of sz]
  let ?w' = "?w\<lparr>data_sem := (data_sem ?w)\<lparr>count := 0\<rparr>, rx_len := ?l,
      calls := calls ?w @ [SetMaxPayloadLength 255, Rx 0]\<rparr>"
  have "no_late (script ?w)" using assms(4) by simp
  from recv_stale [OF l _ this refl, where sz = sz and data = data and timeout = timeout]
  have "lora_recv data sz timeout ?w = Some (uint ?l, memcpy data pl (unat ?l), Some (rssi, snr), ?w')"
    unfolding rx by simp
  moreover have "listening 0 ?w'" using l by (simp add: listening_def may_wait_def)
  moreover have "script ?w' = es" "uptime ?w' = uptime w" using rx(5) by simp_all
  ultimately show ?thesis unfolding same n by blast
qed

theorem recv_returns_stale_packet_witness:
  "\<exists>w'. lora_recv [0, 0] 2 K_FOREVER (boot_radio [Late ([7], - 80, 3)]) = Some (1, [7, 0], Some (- 80, 3), w')
     \<and> uptime w' = 0"
proof -
  let ?w = "boot_radio [Late ([7], - 80, 3)]"
  have "0 < limit (data_sem ?w)" "script ?w = Late ([7], - 80, 3) # []" "uptime ?w = 0"
    by (simp_all add: boot_radio_def word_gt_0)
  then show ?thesis
    using recv_returns_stale_packet [OF boot_radio_listening, of "[Late ([7], - 80, 3)]" "[7]" "- 80" 3
        "[]" "[0, 0]" 2 K_FOREVER]
    by (auto simp: no_late_def memcpy_def)
qed

end
