(* ===== verification/LoraEval.thy ===== *)
theory LoraEval
  imports Complex_Main Sx12xx
begin

text \<open>
  What the two Bluetooth services of the LoRa evaluation firmware share: the channel table, the
  random payload (\<open>subsys/bluetooth/services/payloaddepot.h\<close>), the bit-mask loops of an
  experiment, the message format, the time-on-air computation in single precision, and the bits
  of C and of the C library they use. \<open>junk\<close> is what memory outside the arrays happens to hold.

  Shown here: a sweep over the set bits of the masks visits the parameter combinations in
  lexicographic order, once each, and appends to the trace what its body appends (locale
  \<open>sweep_loop\<close>, interpreted by both services).
\<close>

section \<open>State common to both programs\<close>

record app = radio +
  config :: lora_modem_config
  bt_connected :: bool
  conn_reads :: "bool list" \<comment> \<open>what polling \<open>bt_connected\<close> reads while it is changed by the Bluetooth thread\<close>
  notify_rc :: int \<comment> \<open>what \<open>bt_gatt_notify\<close> returns\<close>
  junk :: "u8 list"
  junk32 :: u32

section \<open>C\<close>

definition oob :: "bool \<Rightarrow> 'a radio_scheme \<Rightarrow> 'a radio_scheme" where
  "oob b w = (if b then call OutOfBounds w else w)"

text \<open>Reading an array: outside it, a byte of \<open>junk\<close>.\<close>

definition rd :: "'a app_scheme \<Rightarrow> u8 list \<Rightarrow> nat \<Rightarrow> u8" where
  "rd w xs i =
     (if i < length xs then xs ! i
      else if i - length xs < length (junk w) then junk w ! (i - length xs) else 0)"

text \<open>Writing an array: outside it, the access is recorded and the array stays.\<close>

definition wr :: "int \<Rightarrow> u8 \<Rightarrow> u8 list \<times> 'a radio_scheme \<Rightarrow> u8 list \<times> 'a radio_scheme" where
  "wr i v s = (case s of (xs, w) \<Rightarrow>
     if 0 \<le> i \<and> i < int (length xs) then (xs[nat i := v], w) else (xs, call OutOfBounds w))"

definition isspace :: "u8 \<Rightarrow> bool" where
  "isspace c \<longleftrightarrow> c = 32 \<or> (9 \<le> c \<and> c \<le> 13)"

definition isdigit :: "u8 \<Rightarrow> bool" where
  "isdigit c \<longleftrightarrow> 48 \<le> c \<and> c \<le> 57"

fun atoi_digits :: "int \<Rightarrow> u8 list \<Rightarrow> int" where
  "atoi_digits n [] = n"
| "atoi_digits n (c # s) = (if isdigit c then atoi_digits (10 * n - (uint c - 48)) s else n)"

definition atoi :: "u8 list \<Rightarrow> int" where
  "atoi s =
     (let s = dropWhile isspace s
      in case s of
           [] \<Rightarrow> 0
         | c # r \<Rightarrow>
             if c = 45 then atoi_digits 0 r
             else if c = 43 then - atoi_digits 0 r
             else - atoi_digits 0 s)"

text \<open>\<open>atoi\<close> looks at the byte behind \<open>s\<close>: blanks, a sign and digits are all it holds.\<close>

definition atoi_overruns :: "u8 list \<Rightarrow> bool" where
  "atoi_overruns s =
     (case dropWhile isspace s of
        [] \<Rightarrow> True
      | c # r \<Rightarrow> list_all isdigit (if c = 45 \<or> c = 43 then r else c # r))"

text \<open>Ticks of a millisecond timeout: \<open>k_ms_to_ticks_ceil64\<close> at 32768 ticks a second.\<close>

definition K_MSEC :: "int \<Rightarrow> k_timeout" where
  "K_MSEC ms = (max ms 0 * 32768 + 999) div 1000"

definition K_SECONDS :: "int \<Rightarrow> k_timeout" where
  "K_SECONDS s = K_MSEC (s * 1000)"

definition k_sleep_ms :: "int \<Rightarrow> 'a radio_scheme \<Rightarrow> 'a radio_scheme" where
  "k_sleep_ms ms w = call (KSleep (nat ms)) (w\<lparr>uptime := uptime w + nat ms\<rparr>)"

definition bt_gatt_notify :: "u8 list \<Rightarrow> 'a app_scheme \<Rightarrow> int \<times> 'a app_scheme" where
  "bt_gatt_notify data w = (notify_rc w, call (Notify data) w)"

section \<open>Tables\<close>

definition frequencies :: "u32 list" where
  "frequencies = [869500000, 868100000, 868300000, 868500000, 867100000, 867300000, 867500000, 867700000]"

definition frequency_at :: "u32 \<Rightarrow> nat \<Rightarrow> u32" where
  "frequency_at other i = (if i < length frequencies then frequencies ! i else other)"

definition random_d :: "u8 list" where
  "random_d =
     [
      96, - 76, 32, - 69, 56, 81, - 39, - 44, 122, - 53, - 109, 61, - 66, 112, 57, - 101, - 10, - 55, 45, - 93,
      58, - 16, 29, 79, - 73, 112, - 23, - 116, 3, 37, - 12, 29, 62, - 70, - 8, - 104, 109, - 89, 18, - 56,
      43, - 51, 77, 85, 75, - 16, - 75, 64, 35, - 62, - 101, 98, 77, - 23, - 17, - 100, 47, - 109, 30, - 4,
      88, 15, - 102, - 5, 8, 27, 18, - 31, 7, - 79, - 24, 5, - 14, - 76, - 11, - 16, - 15, - 48, 12, 45,
      15, 98, 99, 70, 112, - 110, 28, 80, 88, 103, - 1, 32, - 10, - 88, 51, 94, - 104, - 81, - 121, 37,
      56, 85, - 122, - 76, 31, - 17, - 14, 5, - 76, - 32, 90, 0, 8, 35, - 9, - 117, 95, - 113, 92, 2,
      67, - 100, - 24, - 10, 122, 120, 29, - 112, - 53, - 26, - 65, 26, - 25, - 14, - 68, 64, - 92, - 105, 9, - 96,
      108, 14, 49, 73, - 101, - 16, 41, 105, - 54, 66, - 46, 3, - 27, 102, - 68, - 58, - 106, - 34, 8, - 6,
      1, 2, - 96, - 3, 46, 35, 48, - 80, - 106, 74, - 69, 124, 68, 48, 32, - 34, 28, - 83, 9, - 65,
      - 42, 56, 31, - 5, - 108, - 38, - 81, - 69, - 112, - 60, - 19, - 111, - 96, 97, 58, - 47, - 36, 75, 71, 3]"

section \<open>Single precision\<close>

text \<open>
  Rounding a rational to the nearest number with a 24-bit significand, ties to even. The values
  here are far from the ends of the exponent range; \<open>scale\<close> needs one step per binary digit of
  the magnitude, and 200 steps cover it.
\<close>

fun scale :: "nat \<Rightarrow> rat \<Rightarrow> rat \<Rightarrow> rat \<times> rat" where
  "scale 0 x f = (x, f)"
| "scale (Suc n) x f =
     (if x < 8388608 then scale n (2 * x) (f / 2)
      else if x \<ge> 16777216 then scale n (x / 2) (2 * f) else (x, f))"

definition round_even :: "rat \<Rightarrow> int" where
  "round_even x =
     (let n = \<lfloor>x\<rfloor>; d = x - of_int n
      in if d < 1 / 2 then n else if d > 1 / 2 then n + 1 else if even n then n else n + 1)"

definition float32 :: "rat \<Rightarrow> rat" where
  "float32 x =
     (if x = 0 then 0
      else let (y, f) = scale 200 \<bar>x\<bar> 1 in sgn x * of_int (round_even y) * f)"

text \<open>
  The time on air in milliseconds, operation by operation; sums and products of small integers
  are exact.
\<close>

definition time_on_air :: "u8 \<Rightarrow> lora_modem_config \<Rightarrow> rat" where
  "time_on_air len c =
     (let sf = of_int (uint (datarate c));
          t = 8 * of_int (uint len) - 4 * sf + 28 + 16;
          ldr_opt = (datarate c = 11 \<and> bandwidth c = 0) \<or> datarate c = 12;
          t = float32 (t / (4 * (if ldr_opt then sf - 2 else sf)));
          t = (if t > 0 then of_int \<lceil>t\<rceil> else 0);
          t = t * of_int (uint (coding_rate c) + 4) + 8;
          symbol_duration = float32 (2 ^ unat (datarate c) / (of_int (uint (bandwidth c) + 1) * 125));
          t = float32 (t * symbol_duration)
      in float32 (t + float32 (49 / 4 * symbol_duration)))"

section \<open>Loops over the bits of a mask\<close>

definition bit_set :: "u8 \<Rightarrow> nat \<Rightarrow> bool" where
  "bit_set m i \<longleftrightarrow> drop_bit i m AND 1 = 1"

fun for_bits :: "u8 \<Rightarrow> nat list \<Rightarrow> (nat \<Rightarrow> 's \<Rightarrow> 's option) \<Rightarrow> 's \<Rightarrow> 's option" where
  "for_bits m [] body s = Some s"
| "for_bits m (i # is) body s =
     (if bit_set m i then body i s \<bind> for_bits m is body else for_bits m is body s)"

section \<open>Configuring, waiting, naming a combination\<close>

definition abort_thread :: "nat \<Rightarrow> bool \<Rightarrow> 'a radio_scheme \<Rightarrow> 'a radio_scheme" where
  "abort_thread n tid w = (if tid then call (ThreadAbort n) w else w)"

definition set_tx :: "bool \<Rightarrow> 'a app_scheme \<Rightarrow> 'a app_scheme" where
  "set_tx b w = w\<lparr>config := (config w)\<lparr>tx := b\<rparr>\<rparr>"

definition configure :: "'a app_scheme \<Rightarrow> 'a app_scheme" where
  "configure w = snd (lora_config (config w) w)"

definition config_from :: "u8 list \<Rightarrow> bool \<Rightarrow> 'a app_scheme \<Rightarrow> 'a app_scheme" where
  "config_from pu b w =
     (let w = oob (length pu < 5) w;
          w = oob (8 \<le> unat (rd w pu 0)) w
      in w\<lparr>config := \<lparr>frequency = frequency_at (junk32 w) (unat (rd w pu 0)),
                      bandwidth = rd w pu 1, datarate = rd w pu 2 + 7,
                      coding_rate = rd w pu 3 + 1, preamble_len = 8,
                      tx_power = 18 - rd w pu 4 * 2, tx = b\<rparr>\<rparr>)"

text \<open>Polling the connection flag every 300 ms; before it, and after it, five seconds.\<close>

fun wait_connected :: "bool list \<Rightarrow> 'a app_scheme \<Rightarrow> 'a app_scheme option" where
  "wait_connected [] w = None"
| "wait_connected (c # cs) w =
     (if c then Some (w\<lparr>conn_reads := cs\<rparr>) else wait_connected cs (k_sleep_ms 300 w))"

definition ping_pause :: "'a app_scheme \<Rightarrow> 'a app_scheme option" where
  "ping_pause w =
     (if sint (tx_power (config w)) > 10
      then do {
        let w = k_sleep_ms 5000 w;
        w \<leftarrow> wait_connected (conn_reads w) w;
        Some (k_sleep_ms 5000 w)
      }
      else Some w)"

text \<open>
  The parameters of an experiment are numbered in the order of the loops, 0 to 4: channel,
  bandwidth, spreading factor, coding rate, power. Entering a loop level sets one.
\<close>

definition set_field :: "nat \<Rightarrow> nat \<Rightarrow> lora_modem_config \<Rightarrow> lora_modem_config" where
  "set_field q v c =
     (if q = 0 then c\<lparr>frequency := frequencies ! v\<rparr>
      else if q = 1 then c\<lparr>bandwidth := of_nat v\<rparr>
      else if q = 2 then c\<lparr>datarate := of_nat v + 7\<rparr>
      else if q = 3 then c\<lparr>coding_rate := of_nat v + 1\<rparr>
      else c\<lparr>tx_power := 18 - of_nat v * 2\<rparr>)"

section \<open>The plan of an experiment\<close>

text \<open>
  The combinations an experiment visits: one index list per choice of a set bit in each mask, the
  last parameter running fastest; the masks are the bytes 4 to 8 of the settings.
\<close>

fun bit_combos :: "(u8 \<times> nat) list \<Rightarrow> nat list list" where
  "bit_combos [] = [[]]"
| "bit_combos ((m, n) # ms) =
     concat (map (\<lambda>v. map ((#) v) (bit_combos ms)) (filter (bit_set m) [0..<n]))"

definition masks :: "u8 list \<Rightarrow> (u8 \<times> nat) list" where
  "masks data = [(data ! 4, 8), (data ! 5, 3), (data ! 6, 6), (data ! 7, 4), (data ! 8, 8)]"

definition combos :: "u8 list \<Rightarrow> nat list list" where
  "combos data = bit_combos (masks data)"

definition combo_config :: "u16 \<Rightarrow> bool \<Rightarrow> nat list \<Rightarrow> lora_modem_config" where
  "combo_config pre b vs =
     \<lparr>frequency = frequencies ! (vs ! 0), bandwidth = of_nat (vs ! 1), datarate = of_nat (vs ! 2) + 7,
      coding_rate = of_nat (vs ! 3) + 1, preamble_len = pre, tx_power = 18 - of_nat (vs ! 4) * 2, tx = b\<rparr>"

definition config_effects :: "lora_modem_config \<Rightarrow> effect list" where
  "config_effects c =
     [SetChannel (frequency c),
      if tx c
      then SetTxConfig (tx_power c) 0 (bandwidth c) (datarate c) (coding_rate c) (preamble_len c)
             False True False 0 False 4000
      else SetRxConfig (bandwidth c) (datarate c) (coding_rate c) 0 (preamble_len c) 10 False 0 False
             False 0 False True]"

text \<open>
  Message \<open>n\<close> of the combination with the indices \<open>vs\<close>: a digit per parameter, an underscore,
  the message number in three characters, random payload, a full stop.
\<close>

definition payload :: "nat \<Rightarrow> nat \<Rightarrow> u8 list" where
  "payload n len = map (\<lambda>p. random_d ! ((n * (len - 9) + (p - 9)) mod 200)) [9..<len - 1]"

definition message :: "nat list \<Rightarrow> nat \<Rightarrow> nat \<Rightarrow> u8 list" where
  "message vs n len =
     map (\<lambda>v. of_nat v + 48) vs @
     [95, of_nat (n div 100 + 48), of_nat (n div 10 + 48), of_nat (n mod 10 + 48)] @
     payload n len @ [46]"

text \<open>The array and the configuration inside the loops, \<open>vs\<close> being the indices chosen so far.\<close>

definition at_combo :: "u16 \<Rightarrow> bool \<Rightarrow> nat list \<Rightarrow> u8 list \<Rightarrow> lora_modem_config \<Rightarrow> bool" where
  "at_combo pre b vs xs c \<longleftrightarrow>
     6 \<le> length xs \<and> xs ! 5 = 95 \<and> (\<forall>q<length vs. xs ! q = of_nat (vs ! q) + 48)
     \<and> (0 < length vs \<longrightarrow> frequency c = frequencies ! (vs ! 0))
     \<and> (1 < length vs \<longrightarrow> bandwidth c = of_nat (vs ! 1))
     \<and> (2 < length vs \<longrightarrow> datarate c = of_nat (vs ! 2) + 7)
     \<and> (3 < length vs \<longrightarrow> coding_rate c = of_nat (vs ! 3) + 1)
     \<and> (4 < length vs \<longrightarrow> tx_power c = 18 - of_nat (vs ! 4) * 2)
     \<and> preamble_len c = pre \<and> tx c = b"

section \<open>Lemmas\<close>

lemma concat_concat_map: "concat (concat xss) = concat (map concat xss)"
  by (induction xss) simp_all

lemma filter_concat_map: "filter P (concat (map f xs)) = concat (map (\<lambda>x. filter P (f x)) xs)"
  by (induction xs) simp_all

lemma bit_set_iff: "bit_set m i \<longleftrightarrow> bit m i"
  by (simp add: bit_set_def and_one_eq bit_iff_odd_drop_bit odd_iff_mod_2_eq_one)

text \<open>
  A loop whose body keeps \<open>Inv\<close> and appends \<open>f i\<close> to the trace keeps \<open>Inv\<close> and appends the
  \<open>f i\<close> of the set bits, in order.
\<close>

lemma for_bits_trace:
  assumes "\<And>i s. i \<in> set is \<Longrightarrow> bit_set m i \<Longrightarrow> Inv s \<Longrightarrow>
      \<exists>s'. body i s = Some s' \<and> Inv s' \<and> tr s' = tr s @ f i"
    and "Inv s"
  shows "\<exists>s'. for_bits m is body s = Some s' \<and> Inv s'
    \<and> tr s' = tr s @ concat (map f (filter (bit_set m) is))"
  using assms
proof (induction "is" arbitrary: s)
  case (Cons i "is")
  show ?case
  proof (cases "bit_set m i")
    case True
    obtain s1 where s1: "body i s = Some s1" "Inv s1" "tr s1 = tr s @ f i"
      using Cons.prems True by (meson list.set_intros(1))
    obtain s2 where "for_bits m is body s1 = Some s2" "Inv s2"
      "tr s2 = tr s1 @ concat (map f (filter (bit_set m) is))"
      using Cons.IH [OF Cons.prems(1) s1(2)] by (meson list.set_intros(2))
    with s1 True show ?thesis by simp
  next
    case False
    with Cons.IH [OF Cons.prems(1) Cons.prems(2)] show ?thesis by simp
  qed
qed simp

section \<open>Sweeps\<close>

text \<open>
  The five nested loops, as one recursion over the masks still to run through: \<open>enter\<close> is what a
  loop does with its index, \<open>leaf\<close> the innermost body.
\<close>

fun sweep_bits ::
  "(nat \<Rightarrow> nat \<Rightarrow> 's \<Rightarrow> 's) \<Rightarrow> ('s \<Rightarrow> 's option) \<Rightarrow> (u8 \<times> nat) list \<Rightarrow> nat \<Rightarrow> 's \<Rightarrow> 's option" where
  "sweep_bits enter leaf [] q s = leaf s"
| "sweep_bits enter leaf ((m, n) # ms) q s =
     for_bits m [0..<n] (\<lambda>v s. sweep_bits enter leaf ms (Suc q) (enter q v s)) s"

text \<open>
  The contract of a loop nest: \<open>ok vs\<close> holds where the indices \<open>vs\<close> are chosen, a loop level adds
  its index, and the innermost body ends and adds \<open>item vs\<close> to the trace \<open>tr\<close>.
\<close>

locale sweep_loop =
  fixes enter :: "nat \<Rightarrow> nat \<Rightarrow> 's \<Rightarrow> 's"
    and leaf :: "'s \<Rightarrow> 's option"
    and ok :: "nat list \<Rightarrow> 's \<Rightarrow> bool"
    and tr :: "'s \<Rightarrow> 'e list"
    and item :: "nat list \<Rightarrow> 'e list"
  assumes enter_ok: "ok vs s \<Longrightarrow> length vs < 5 \<Longrightarrow> ok (vs @ [v]) (enter (length vs) v s)"
    and enter_tr: "ok vs s \<Longrightarrow> length vs < 5 \<Longrightarrow> tr (enter (length vs) v s) = tr s"
    and leave_ok: "ok (vs @ [v]) s \<Longrightarrow> ok vs s"
    and leaf_ok: "ok vs s \<Longrightarrow> length vs = 5 \<Longrightarrow> \<exists>s'. leaf s = Some s' \<and> ok vs s' \<and> tr s' = tr s @ item vs"
begin

lemma sweep_bits_trace:
  "ok vs s \<Longrightarrow> length vs + length ms = 5 \<Longrightarrow>
   \<exists>s'. sweep_bits enter leaf ms (length vs) s = Some s' \<and> ok vs s'
     \<and> tr s' = tr s @ concat (map (\<lambda>us. item (vs @ us)) (bit_combos ms))"
proof (induction ms arbitrary: vs s)
  case Nil
  then show ?case using leaf_ok [of vs s] by simp
next
  case (Cons a ms)
  obtain m n where a: "a = (m, n)" by fastforce
  let ?body = "\<lambda>v s. sweep_bits enter leaf ms (Suc (length vs)) (enter (length vs) v s)"
  let ?f = "\<lambda>v. concat (map (\<lambda>us. item (vs @ v # us)) (bit_combos ms))"
  have "\<exists>s'. for_bits m [0..<n] ?body s = Some s' \<and> ok vs s'
      \<and> tr s' = tr s @ concat (map ?f (filter (bit_set m) [0..<n]))"
  proof (rule for_bits_trace [where tr = tr and Inv = "ok vs"])
    fix v s assume s: "ok vs s"
    have len: "length vs < 5" "length (vs @ [v]) + length ms = 5" using Cons.prems(2) by simp_all
    from Cons.IH [OF enter_ok [OF s len(1)] len(2)] enter_tr [OF s len(1), of v]
    show "\<exists>s'. ?body v s = Some s' \<and> ok vs s' \<and> tr s' = tr s @ ?f v"
      by (auto dest: leave_ok)
  qed (rule Cons.prems(1))
  moreover have "concat (map ?f (filter (bit_set m) [0..<n])) =
      concat (map (\<lambda>us. item (vs @ us)) (bit_combos ((m, n) # ms)))"
    by (simp add: map_concat concat_concat_map comp_def)
  ultimately show ?case by (simp add: a)
qed

lemma sweep_trace:
  "ok [] s \<Longrightarrow> \<exists>s'. sweep_bits enter leaf (masks data) 0 s = Some s' \<and> ok [] s'
     \<and> tr s' = tr s @ concat (map item (combos data))"
  using sweep_bits_trace [of "[]" s "masks data"] by (simp add: combos_def masks_def)

end

section \<open>Arrays\<close>

text \<open>Writes inside the array.\<close>

lemma wr_in: "0 \<le> i \<Longrightarrow> nat i < length xs \<Longrightarrow> wr i v (xs, w) = (xs[nat i := v], w)"
  by (auto simp: wr_def nat_less_iff)

lemma wr_out: "i < 0 \<or> int (length xs) \<le> i \<Longrightarrow> wr i v (xs, w) = (xs, call OutOfBounds w)"
  by (auto simp: wr_def)

lemma fold_wr:
  "b \<le> length xs \<Longrightarrow>
   fold (\<lambda>p. wr (int p) (g p)) [a..<b] (xs, w) =
     (map (\<lambda>i. if a \<le> i \<and> i < b then g i else xs ! i) [0..<length xs], w)"
proof (induction b)
  case 0
  then show ?case by (simp add: map_nth)
next
  case (Suc b)
  show ?case
  proof (cases "a \<le> b")
    case True
    then have "fold (\<lambda>p. wr (int p) (g p)) [a..<Suc b] (xs, w) =
        wr (int b) (g b) (map (\<lambda>i. if a \<le> i \<and> i < b then g i else xs ! i) [0..<length xs], w)"
      using Suc by simp
    also have "\<dots> = (map (\<lambda>i. if a \<le> i \<and> i < Suc b then g i else xs ! i) [0..<length xs], w)"
      using Suc.prems True by (auto simp: wr_in nth_list_update intro!: nth_equalityI)
    finally show ?thesis .
  next
    case False
    then show ?thesis by (auto simp: map_nth intro!: nth_equalityI)
  qed
qed

text \<open>Message number, payload and full stop, written behind the six bytes of the combination.\<close>

lemma fill_frame:
  assumes "10 \<le> l" "l \<le> length xs"
  shows "wr (int l - 1) 46 (fold (\<lambda>p. wr (int p) (g p)) [9..<l - 1] (wr 8 c (wr 7 b (wr 6 a (xs, w))))) =
    (take 6 xs @ [a, b, c] @ map g [9..<l - 1] @ [46] @ drop l xs, w)"
proof -
  let ?xs = "xs[6 := a, 7 := b, 8 := c]"
  let ?m = "map (\<lambda>i. if 9 \<le> i \<and> i < l - 1 then g i else ?xs ! i) [0..<length xs]"
  have "wr 8 c (wr 7 b (wr 6 a (xs, w))) = (?xs, w)" using assms by (simp add: wr_in)
  moreover have "fold (\<lambda>p. wr (int p) (g p)) [9..<l - 1] (?xs, w) = (?m, w)"
    using assms fold_wr [of "l - 1" ?xs g 9 w] by simp
  moreover have "wr (int l - 1) 46 (?m, w) = (?m[l - 1 := 46], w)"
    using assms by (simp add: wr_in nat_diff_distrib')
  moreover have "?m[l - 1 := 46] = take 6 xs @ [a, b, c] @ map g [9..<l - 1] @ [46] @ drop l xs"
  proof (rule nth_equalityI)
    show "length (?m[l - 1 := 46]) =
        length (take 6 xs @ [a, b, c] @ map g [9..<l - 1] @ [46] @ drop l xs)"
      using assms by simp
  next
    fix i assume "i < length (?m[l - 1 := 46])"
    then have i: "i < length xs" by simp
    obtain r where r: "l = r + 10" using assms(1) by (metis le_add_diff_inverse2)
    consider "i < 6" | "i = 6" | "i = 7" | "i = 8" | "9 \<le> i" "i < r + 9" | "i = r + 9" | "r + 10 \<le> i"
      by linarith
    then show "?m[l - 1 := 46] ! i = (take 6 xs @ [a, b, c] @ map g [9..<l - 1] @ [46] @ drop l xs) ! i"
      using assms i by cases (auto simp: r nth_append nth_list_update)
  qed
  ultimately show ?thesis by simp
qed

lemma oob_False [simp]: "oob False w = w"
  by (simp add: oob_def)

lemma call_app_sel [simp]:
  "config (call c w) = config w" "bt_connected (call c w) = bt_connected w"
  "conn_reads (call c w) = conn_reads w" "notify_rc (call c w) = notify_rc w"
  "junk (call c w) = junk w" "junk32 (call c w) = junk32 w"
  by (simp_all add: call_def)

lemma rd_call [simp]: "rd (call c w) = rd w"
  by (simp add: rd_def fun_eq_iff)

lemma rd_in: "i < length xs \<Longrightarrow> rd w xs i = xs ! i"
  by (simp add: rd_def)

section \<open>The plan\<close>

lemma bit_combos_length: "us \<in> set (bit_combos ms) \<Longrightarrow> length us = length ms"
  by (induction ms arbitrary: us rule: bit_combos.induct) auto

lemma combos_length: "vs \<in> set (combos data) \<Longrightarrow> length vs = 5"
  by (auto simp: combos_def masks_def dest: bit_combos_length)

lemma bit_combos_iff:
  "us \<in> set (bit_combos ms) \<longleftrightarrow> list_all2 (\<lambda>v (m, n). v < n \<and> bit m v) us ms"
proof (induction ms arbitrary: us rule: bit_combos.induct)
  case (2 m n ms)
  then show ?case by (cases us) (auto simp: bit_set_iff)
qed simp

lemma distinct_concat_map:
  "distinct xs \<Longrightarrow> (\<And>x. x \<in> set xs \<Longrightarrow> distinct (f x))
   \<Longrightarrow> (\<And>x y. x \<in> set xs \<Longrightarrow> y \<in> set xs \<Longrightarrow> x \<noteq> y \<Longrightarrow> set (f x) \<inter> set (f y) = {})
   \<Longrightarrow> distinct (concat (map f xs))"
proof (induction xs)
  case (Cons a xs)
  have "set (f a) \<inter> set (f x) = {}" if "x \<in> set xs" for x
    using Cons.prems(1,3) that by (metis distinct.simps(2) list.set_intros)
  with Cons show ?case by auto
qed simp

lemma distinct_bit_combos: "distinct (bit_combos ms)"
proof (induction ms rule: bit_combos.induct)
  case (2 m n ms)
  show ?case
    unfolding bit_combos.simps by (rule distinct_concat_map) (auto simp: distinct_map 2)
qed simp

lemma combos_cong:
  assumes "take 9 data = take 9 pl" "i < 9"
  shows "combos data = combos pl" "data ! i = pl ! i"
proof -
  have "data ! i = pl ! i" if "i < 9" for i using assms(1) that by (metis nth_take)
  then show "combos data = combos pl" "data ! i = pl ! i"
    using assms(2) by (simp_all add: combos_def masks_def)
qed

lemma length_message: "length vs = 5 \<Longrightarrow> 10 \<le> len \<Longrightarrow> length (message vs n len) = len"
  by (simp add: message_def payload_def)

lemma set_field_simps:
  "(\<lambda>c. c\<lparr>frequency := frequencies ! v\<rparr>) = set_field 0 v"
  "(\<lambda>c. c\<lparr>bandwidth := of_nat v\<rparr>) = set_field 1 v"
  "(\<lambda>c. c\<lparr>datarate := of_nat v + 7\<rparr>) = set_field 2 v"
  "(\<lambda>c. c\<lparr>coding_rate := of_nat v + 1\<rparr>) = set_field 3 v"
  "(\<lambda>c. c\<lparr>tx_power := 18 - of_nat v * 2\<rparr>) = set_field 4 v"
  by (simp_all add: set_field_def fun_eq_iff)

lemma at_combo_enter:
  assumes "at_combo pre b vs xs c" "length vs < 5"
  shows "at_combo pre b (vs @ [v]) (xs[length vs := of_nat v + 48]) (set_field (length vs) v c)"
proof -
  consider "length vs = 0" | "length vs = 1" | "length vs = 2" | "length vs = 3" | "length vs = 4"
    using assms(2) by linarith
  moreover have "0 < length xs" using assms(1) by (auto simp: at_combo_def)
  ultimately show ?thesis
    using assms
    by cases (auto simp: at_combo_def nth_append nth_list_update set_field_def less_Suc_eq)
qed

lemma at_combo_leave: "at_combo pre b (vs @ [v]) xs c \<Longrightarrow> at_combo pre b vs xs c"
  by (auto simp: at_combo_def nth_append)

lemma at_combo_config: "at_combo pre b vs xs c \<Longrightarrow> length vs = 5 \<Longrightarrow> c = combo_config pre b vs"
  by (simp add: at_combo_def combo_config_def)

lemma at_combo_header:
  assumes "at_combo pre b vs xs c" "length vs = 5"
  shows "take 6 xs = map (\<lambda>v. of_nat v + 48) vs @ [95]"
proof (rule nth_equalityI)
  show "length (take 6 xs) = length (map (\<lambda>v. of_nat v + 48 :: u8) vs @ [95])"
    using assms by (simp add: at_combo_def)
next
  fix i assume "i < length (take 6 xs)"
  then have "i < 5 \<or> i = 5" by auto
  then show "take 6 xs ! i = (map (\<lambda>v. of_nat v + 48) vs @ [95]) ! i"
    using assms by (auto simp: nth_append at_combo_def)
qed

text \<open>The header of an array decides \<open>at_combo\<close>: what is written behind it does not matter.\<close>

lemma at_combo_array:
  assumes "at_combo pre b vs xs c" "length vs \<le> 5" "take 6 ys = take 6 xs" "6 \<le> length ys"
  shows "at_combo pre b vs ys c"
proof -
  have "ys ! i = xs ! i" if "i < 6" for i using assms(3) that by (metis nth_take)
  with assms(1,2,4) show ?thesis by (auto simp: at_combo_def)
qed

section \<open>Configuring and waiting\<close>

lemma calls_configure: "calls (configure w) = calls w @ config_effects (config w)"
  by (simp add: configure_def lora_api_defs sx12xx_lora_config_def config_effects_def Let_def)

lemma configure_eq: "configure w = w\<lparr>calls := calls w @ config_effects (config w)\<rparr>"
  by (simp add: configure_def lora_api_defs sx12xx_lora_config_def config_effects_def Let_def call_def)

text \<open>What the steps of a program leave of the radio's state.\<close>

lemma sleep_sel [simp]:
  "calls (k_sleep_ms ms w) = calls w @ [KSleep (nat ms)]" "config (k_sleep_ms ms w) = config w"
  by (simp_all add: k_sleep_ms_def)

lemma configure_sel [simp]:
  "config (configure w) = config w" "junk (configure w) = junk w"
  "kern (configure w) = kern w" "data_sem (configure w) = data_sem w"
  by (simp_all add: configure_eq)

lemma radio_ops [simp]:
  "script (k_sleep_ms ms w) = script w" "script (configure w) = script w" "script (set_tx b w) = script w"
  "listening n (k_sleep_ms ms w) = listening n w" "listening n (configure w) = listening n w"
  "listening n (set_tx b w) = listening n w" "listening n (w\<lparr>config := c\<rparr>) = listening n w"
  by (simp_all add: call_def k_sleep_ms_def configure_eq set_tx_def listening_def)

lemma set_tx_sel [simp]:
  "config (set_tx b w) = (config w)\<lparr>tx := b\<rparr>" "calls (set_tx b w) = calls w" "junk (set_tx b w) = junk w"
  by (simp_all add: set_tx_def)

lemma send_sel [simp]:
  "calls (snd (lora_send data n w)) = calls w @ [SetMaxPayloadLength n, Send data n]"
  "script (snd (lora_send data n w)) = script w" "listening m (snd (lora_send data n w)) = listening m w"
  by (simp_all add: lora_api_defs sx12xx_lora_send_def)

lemma send_app_sel [simp]: "config (snd (lora_send data n w)) = config w" "junk (snd (lora_send data n w)) = junk w"
  by (simp_all add: lora_api_defs sx12xx_lora_send_def)

lemma oob_sel [simp]: "listening n (oob b w) = listening n w" "script (oob b w) = script w"
  by (simp_all add: oob_def)

lemma oob_app_sel [simp]: "config (oob b w) = config w" "junk (oob b w) = junk w"
  by (simp_all add: oob_def)

lemma timeout_ms_K_MSEC: "0 \<le> ms \<Longrightarrow> timeout_ms (K_MSEC ms) = nat ms"
proof -
  assume "0 \<le> ms"
  define r where "r = (ms * 32768 + 999) div 1000 * 1000 - ms * 32768"
  have "(ms * 32768 + 999) div 1000 * 1000 = ms * 32768 + 999 - (ms * 32768 + 999) mod 1000"
    by (simp add: minus_mod_eq_div_mult)
  then have "0 \<le> r" "r < 32768"
    using pos_mod_bound [of 1000 "ms * 32768 + 999"] pos_mod_sign [of 1000 "ms * 32768 + 999"]
    by (simp_all add: r_def)
  then have "(r + ms * 32768) div 32768 = ms" by simp
  then have "(ms * 32768 + 999) div 1000 * 1000 div 32768 = ms" by (simp add: r_def)
  with \<open>0 \<le> ms\<close> show ?thesis by (simp add: timeout_ms_def K_MSEC_def)
qed

lemma K_MSEC_pos: "0 < ms \<Longrightarrow> K_MSEC ms \<noteq> K_NO_WAIT \<and> K_MSEC ms \<noteq> K_FOREVER"
proof -
  assume "0 < ms"
  then have "0 < K_MSEC ms" by (simp add: K_MSEC_def)
  then show ?thesis by auto
qed

lemma map_rd_take: "n \<le> length xs \<Longrightarrow> map (rd w xs) [0..<n] = take n xs"
  by (auto simp: rd_in intro!: nth_equalityI)

lemma memcpy_nth: "i < n \<Longrightarrow> n \<le> length src \<Longrightarrow> memcpy dst src n ! i = src ! i"
  by (simp add: memcpy_def nth_append)

lemma memcpy_take: "n \<le> m \<Longrightarrow> m \<le> length src \<Longrightarrow> take n (memcpy dst src m) = take n src"
  by (simp add: memcpy_def min_def)

lemma memcpy_same: "take n dst = take n src \<Longrightarrow> n \<le> length src \<Longrightarrow> n \<le> length dst \<Longrightarrow> memcpy dst src n = dst"
  using append_take_drop_id [of n dst] by (simp add: memcpy_def min_absorb2)

text \<open>Five bytes, the first a channel number, select a configuration.\<close>

definition config_bytes :: "u8 list \<Rightarrow> bool" where
  "config_bytes pu \<longleftrightarrow> 5 \<le> length pu \<and> unat (pu ! 0) < 8"

lemma config_from_ok:
  assumes "config_bytes pu"
  shows "config_from pu b w = w\<lparr>config := combo_config 8 b (map unat pu)\<rparr>"
proof -
  have pu: "\<not> length pu < 5" "unat (pu ! 0) < 8" "0 < length pu" using assms by (auto simp: config_bytes_def)
  then have "rd w pu i = pu ! i" if "i < 5" for i
    using that by (auto simp: rd_in)
  with pu nth_map [OF pu(3), of unat] show ?thesis
    by (simp add: config_from_def Let_def frequency_at_def frequencies_def combo_config_def)
qed

lemma calls_oob: "calls (oob b w) = calls w @ (if b then [OutOfBounds] else [])"
  by (simp add: oob_def)

lemma config_from_bad:
  assumes "\<not> config_bytes pu"
  shows "\<exists>n. calls (config_from pu b w) = calls w @ replicate (Suc n) OutOfBounds"
proof -
  have "rd (oob p w) = rd w" for p :: bool and w :: "'a app_scheme" by (simp add: oob_def)
  moreover have "length pu < 5 \<or> 8 \<le> unat (rd w pu 0)" using assms by (auto simp: config_bytes_def rd_def)
  ultimately have "calls (config_from pu b w) =
      calls w @ replicate (of_bool (length pu < 5) + of_bool (8 \<le> unat (rd w pu 0))) OutOfBounds"
    "0 < of_bool (length pu < 5) + (of_bool (8 \<le> unat (rd w pu 0)) :: nat)"
    by (auto simp: config_from_def calls_oob Let_def)
  then show ?thesis by (metis gr0_implies_Suc)
qed

text \<open>Polling for the connection takes time and nothing else, and ends when the flag is read set.\<close>

lemma wait_connected_returns:
  assumes "True \<in> set cs"
  shows "\<exists>cs' t n. wait_connected cs w =
    Some (w\<lparr>conn_reads := cs', uptime := t, calls := calls w @ replicate n (KSleep 300)\<rparr>)"
  using assms
proof (induction cs arbitrary: w)
  case (Cons c cs)
  show ?case
  proof (cases c)
    case True
    have "w\<lparr>conn_reads := cs\<rparr> = w\<lparr>conn_reads := cs, uptime := uptime w, calls := calls w @ replicate 0 (KSleep 300)\<rparr>"
      by simp
    with True show ?thesis unfolding wait_connected.simps by (simp only: if_True) blast
  next
    case False
    then have "True \<in> set cs" using Cons.prems by simp
    from Cons.IH [OF this, of "k_sleep_ms 300 w"] obtain cs' t n where
      "wait_connected cs (k_sleep_ms 300 w) =
        Some (w\<lparr>conn_reads := cs', uptime := t, calls := calls w @ replicate (Suc n) (KSleep 300)\<rparr>)"
      by (auto simp: k_sleep_ms_def call_def)
    with False show ?thesis unfolding wait_connected.simps by (simp only: if_False) blast
  qed
qed simp

definition only_sleeps :: "effect list \<Rightarrow> bool" where
  "only_sleeps es \<longleftrightarrow> (\<forall>e\<in>set es. \<exists>t. e = KSleep t)"

lemma ping_pause_returns:
  assumes "sint (tx_power (config w)) \<le> 10 \<or> True \<in> set (conn_reads w)"
  shows "\<exists>cs t es. ping_pause w = Some (w\<lparr>conn_reads := cs, uptime := t, calls := calls w @ es\<rparr>) \<and> only_sleeps es"
proof (cases "sint (tx_power (config w)) > 10")
  case True
  then have c: "True \<in> set (conn_reads w)" using assms by simp
  obtain cs t n where w: "wait_connected (conn_reads w) (k_sleep_ms 5000 w) =
      Some (w\<lparr>conn_reads := cs, uptime := t, calls := calls w @ KSleep 5000 # replicate n (KSleep 300)\<rparr>)"
    using wait_connected_returns [OF c, of "k_sleep_ms 5000 w"] by (auto simp: k_sleep_ms_def call_def)
  let ?es = "KSleep 5000 # replicate n (KSleep 300) @ [KSleep 5000]"
  have "conn_reads (k_sleep_ms 5000 w) = conn_reads w" by (simp add: k_sleep_ms_def)
  with True w have "ping_pause w = Some (w\<lparr>conn_reads := cs, uptime := t + 5000, calls := calls w @ ?es\<rparr>)"
    by (simp add: ping_pause_def k_sleep_ms_def call_def)
  moreover have "only_sleeps ?es" by (simp add: only_sleeps_def)
  ultimately show ?thesis by blast
next
  case False
  have "w = w\<lparr>conn_reads := conn_reads w, uptime := uptime w, calls := calls w @ []\<rparr>" by simp
  moreover have "only_sleeps []" by (simp add: only_sleeps_def)
  moreover have "ping_pause w = Some w" using False by (simp add: ping_pause_def)
  ultimately show ?thesis by metis
qed

text \<open>What is heard in the three seconds after a ping.\<close>

definition ping_heard :: "packet option \<Rightarrow> rx_event list \<Rightarrow> rx_event list \<Rightarrow> bool" where
  "ping_heard pk es es' =
     (case pk of
        Some (pl, sig) \<Rightarrow> (\<exists>ms\<le>3000. es = Arrive ms (pl, sig) # es') \<and> length pl < 256
      | None \<Rightarrow> unheard 3000 es es')"

section \<open>Traces\<close>

definition is_send :: "effect \<Rightarrow> bool" where
  "is_send e = (case e of Send _ _ \<Rightarrow> True | _ \<Rightarrow> False)"

definition is_notify :: "effect \<Rightarrow> bool" where
  "is_notify e = (case e of Notify _ \<Rightarrow> True | _ \<Rightarrow> False)"

definition is_setup :: "effect \<Rightarrow> bool" where
  "is_setup e = (case e of SetChannel _ \<Rightarrow> True | SetTxConfig _ _ _ _ _ _ _ _ _ _ _ _ \<Rightarrow> True
     | SetRxConfig _ _ _ _ _ _ _ _ _ _ _ _ _ \<Rightarrow> True | _ \<Rightarrow> False)"

lemmas trace_defs = is_send_def is_notify_def is_setup_def

lemma trace_simps [simp]:
  "is_send (Send d n)" "\<not> is_send (KSleep t)" "\<not> is_send (SetMaxPayloadLength n)" "\<not> is_send (Rx n)"
  "\<not> is_send RadioSleep" "\<not> is_send RadioInit" "\<not> is_send (Notify d)" "\<not> is_send (ThreadCreate i f)"
  "\<not> is_send (ThreadAbort i)" "\<not> is_send OutOfBounds" "\<not> is_send DivByZero"
  "is_notify (Notify d)" "\<not> is_notify (Send d n)" "\<not> is_notify (KSleep t)" "\<not> is_notify (SetMaxPayloadLength n)"
  "\<not> is_notify (Rx n)" "\<not> is_notify RadioSleep" "\<not> is_notify RadioInit" "\<not> is_notify (ThreadCreate i f)"
  "\<not> is_notify (ThreadAbort i)" "\<not> is_notify OutOfBounds" "\<not> is_notify DivByZero"
  "\<not> is_setup (Send d n)" "\<not> is_setup (KSleep t)" "\<not> is_setup (SetMaxPayloadLength n)" "\<not> is_setup (Rx n)"
  "\<not> is_setup RadioSleep" "\<not> is_setup RadioInit" "\<not> is_setup (Notify d)" "\<not> is_setup (ThreadCreate i f)"
  "\<not> is_setup (ThreadAbort i)" "\<not> is_setup OutOfBounds" "\<not> is_setup DivByZero"
  "filter is_send (config_effects c) = []" "filter is_notify (config_effects c) = []"
  "filter is_setup (config_effects c) = config_effects c"
  by (simp_all add: trace_defs config_effects_def)

lemma only_sleeps_filter: "only_sleeps es \<Longrightarrow> (\<And>t. \<not> P (KSleep t)) \<Longrightarrow> filter P es = []"
  by (fastforce simp: only_sleeps_def filter_empty_conv)

definition emitted :: "'a radio_scheme \<Rightarrow> 'a radio_scheme \<Rightarrow> effect list" where
  "emitted w w' = drop (length (calls w)) (calls w')"

lemma emittedI: "calls w' = calls w @ es \<Longrightarrow> emitted w w' = es"
  by (simp add: emitted_def)

end
