(* ===== verification/Lses.thy ===== *)
theory Lses
  imports LoraEval
begin

text \<open>
  The sender's Bluetooth service, \<open>subsys/bluetooth/services/lses.c\<close>: the GATT write handlers of the
  explore and experiment modes, the threads they start, and the notifications. A handler gets
  the bytes written by the phone. A thread's code is a function on the program state, \<open>None\<close>
  when it never ends. Starting and aborting threads, sleeping and notifying are effects in
  \<open>calls\<close>; a thread identifier is only compared with \<open>NULL\<close> and is a flag here.

  The messages sent with a length-delimited array are sent from the stack: \<open>data[len]\<close> with
  \<open>MAX_DATA_LEN\<close> bytes handed to the radio, so the bytes behind the message are \<open>junk\<close>.
\<close>

section \<open>State\<close>

record lses = app +
  lses_blsc :: u8
  ping_content :: "u8 list"
  ping_len :: u16
  loop_data :: "u8 list"
  loop_data_length :: u16
  number_of_messages :: u16
  time_between_msgs :: u8
  config_vals :: "u8 list"
  stack_number :: u8
  thread0_tid :: bool
  thread1_tid :: bool
  thread2_tid :: bool
  thread3_tid :: bool

abbreviation "MAX_DATA_LEN \<equiv> (20 :: nat)"

definition lses_init :: "'a lses_scheme \<Rightarrow> int \<times> 'a lses_scheme" where
  "lses_init w = (0, w\<lparr>lses_blsc := 1\<rparr>)"

section \<open>Helpers\<close>

definition lses_change_config :: "u8 list \<Rightarrow> bool \<Rightarrow> 'a lses_scheme \<Rightarrow> 'a lses_scheme" where
  "lses_change_config pu b w = configure (config_from pu b w)"

definition bt_lses_notify :: "u8 \<Rightarrow> 'a lses_scheme \<Rightarrow> int \<times> 'a lses_scheme" where
  "bt_lses_notify type_of_notification w =
     (let (rc, w) = bt_gatt_notify [type_of_notification] w
      in (if rc = - ENOTCONN then 0 else rc, w))"

section \<open>Explore mode\<close>

definition lses_change_config_cb :: "u8 list \<Rightarrow> 'a lses_scheme \<Rightarrow> int \<times> 'a lses_scheme" where
  "lses_change_config_cb buf w = (0, snd (bt_lses_notify (- 2) (lses_change_config buf True w)))"

definition lses_ping_report :: "int \<Rightarrow> u8 list \<Rightarrow> 'a lses_scheme \<Rightarrow> 'a lses_scheme" where
  "lses_ping_report l resp w =
     (if l < 0 then snd (bt_lses_notify (- 5) w)
      else
        let n = unat (ping_len w);
            w = oob (MAX_DATA_LEN < n) w
        in if map (rd w (ping_content w)) [0..<n] = map (rd w resp) [0..<n]
           then snd (bt_lses_notify (- 3) w) else snd (bt_lses_notify (- 4) w))"

definition lses_wait_for_ping_return :: "'a lses_scheme \<Rightarrow> 'a lses_scheme option" where
  "lses_wait_for_ping_return w = do {
     let w = configure (set_tx False w);
     (l, resp, _, w) \<leftarrow> lora_recv (replicate MAX_DATA_LEN 0) 20 (K_SECONDS 3) w;
     w \<leftarrow> ping_pause w;
     let w = lses_ping_report l resp w;
     Some (configure (set_tx True w))
   }"

text \<open>The \<open>MAX_DATA_LEN\<close> bytes from the start of \<open>data[len]\<close> on, with the full stop behind it.\<close>

definition stack_message :: "'a app_scheme \<Rightarrow> u8 list \<Rightarrow> u8 list" where
  "stack_message w msg = map (\<lambda>i. if i = length msg then 46 else rd w msg i) [0..<MAX_DATA_LEN]"

definition lses_send_command_cb :: "u8 list \<Rightarrow> 'a lses_scheme \<Rightarrow> int \<times> 'a lses_scheme" where
  "lses_send_command_cb buf w =
     (let len = length buf;
          w = oob (len = 0) w;
          isPing = (rd w buf 0 = 38);
          w = oob True w; \<comment> \<open>\<open>data[len] = '.'\<close>\<close>
          w = snd (lora_send (stack_message w buf) (of_nat MAX_DATA_LEN) w)
      in (0,
          if isPing
          then
            let w = oob (MAX_DATA_LEN < len) w;
                w = w\<lparr>ping_len := of_nat len,
                      ping_content := take MAX_DATA_LEN (memcpy (ping_content w) buf len)\<rparr>;
                w = abort_thread 2 (thread2_tid w) w
            in call (ThreadCreate 2 ''wait_for_ping_return'') (w\<lparr>thread2_tid := True\<rparr>)
          else w))"

fun lses_send_loop :: "nat \<Rightarrow> u8 list \<Rightarrow> 'a lses_scheme \<Rightarrow> 'a lses_scheme" where
  "lses_send_loop 0 data w = w"
| "lses_send_loop (Suc n) data w =
     lses_send_loop n data
       (k_sleep_ms (1000 * uint (time_between_msgs w)) (snd (lora_send data (of_nat MAX_DATA_LEN) w)))"

definition lses_exec_loop :: "'a lses_scheme \<Rightarrow> 'a lses_scheme" where
  "lses_exec_loop w =
     (let len = unat (loop_data_length w);
          w = oob (255 < len) w;
          msg = map (rd w (loop_data w)) [0..<len];
          w = oob True w \<comment> \<open>\<open>data[len] = '.'\<close>\<close>
      in lses_send_loop (unat (number_of_messages w)) (stack_message w msg) w)"

definition lses_loop_command_cb :: "u8 list \<Rightarrow> 'a lses_scheme \<Rightarrow> int \<times> 'a lses_scheme" where
  "lses_loop_command_cb buf w =
     (let len = length buf;
          w = oob (len = 0) w;
          c = rd w buf 0
      in (0,
          if c = 33
          then (oob (atoi_overruns (tl buf)) w)\<lparr>number_of_messages := of_int (atoi (tl buf @ junk w))\<rparr>
          else if c = 35
          then (oob (atoi_overruns (tl buf)) w)
                 \<lparr>time_between_msgs := ucast (of_int (atoi (tl buf @ junk w)) :: u16)\<rparr>
          else if c = 36
          then abort_thread 0 (thread0_tid w) w
          else
            let w = oob (255 < len) w;
                w = w\<lparr>loop_data := take 255 (memcpy (loop_data w) buf len), loop_data_length := of_nat len\<rparr>;
                w = abort_thread 0 (thread0_tid w) w
            in call (ThreadCreate 0 ''exec_loop'') (w\<lparr>thread0_tid := True\<rparr>)))"

section \<open>Experiment mode\<close>

text \<open>Waiting for the settings; a message that starts with \<open>!\<close> is a ping and is answered.\<close>

partial_function (option) lses_wait_start ::
  "u8 list \<Rightarrow> 'a lses_scheme \<Rightarrow> (int \<times> u8 list \<times> 'a lses_scheme) option" where
  "lses_wait_start data w = do {
     (l, data, _, w) \<leftarrow> lora_recv data 20 K_FOREVER w;
     if data ! 0 = 33
     then do {
       let w = configure (set_tx True w);
       let w = snd (lora_send (take 5 data) 5 w);
       let w = configure (set_tx False w);
       lses_wait_start (data[0 := - 1]) w
     }
     else Some (l, data, w)
   }"

text \<open>
  Acknowledging the settings by sending them back, and listening for a repetition as long as
  the delay in them says.
\<close>

definition lses_delay :: "int \<Rightarrow> u8 list \<Rightarrow> 'a lses_scheme \<Rightarrow> u16 \<times> 'a lses_scheme" where
  "lses_delay l data w =
     (let delay = drop 9 (take (nat l) data)
      in (of_int (atoi (delay @ junk w)), oob (l < 9 \<or> atoi_overruns delay) w))"

partial_function (option) lses_await_delay ::
  "int \<Rightarrow> u8 list \<Rightarrow> 'a lses_scheme \<Rightarrow> (u8 list \<times> 'a lses_scheme) option" where
  "lses_await_delay l data w = do {
     let (d, w) = lses_delay l data w;
     let w = configure (set_tx True w);
     let w = k_sleep_ms 200 w;
     let w = snd (lora_send data (of_nat MAX_DATA_LEN) w);
     let w = configure (set_tx False w);
     (l, data, _, w) \<leftarrow> lora_recv data 20 (K_SECONDS (uint d)) w;
     if l < 0 then Some (data, w) else lses_await_delay l data w
   }"

text \<open>
  The sweep works on \<open>transmission_data\<close>, an uninitialised array of \<open>data[2]\<close> bytes, and the
  program state.
\<close>

type_synonym 'a sweep_state = "u8 list \<times> 'a lses_scheme"

definition lses_upd :: "(lora_modem_config \<Rightarrow> lora_modem_config) \<Rightarrow> 'a sweep_state \<Rightarrow> 'a sweep_state" where
  "lses_upd f s = (fst s, (snd s)\<lparr>config := f (config (snd s))\<rparr>)"

definition lses_fill_message :: "nat \<Rightarrow> u8 \<Rightarrow> 'a sweep_state \<Rightarrow> 'a sweep_state" where
  "lses_fill_message n len s =
     (let l = unat len;
          s = wr 6 (of_nat (n div 100 + 48)) s;
          s = wr 7 (of_nat (n div 10 + 48)) s;
          s = wr 8 (of_nat (n mod 10 + 48)) s;
          s = fold (\<lambda>p. wr (int p) (random_d ! ((n * (l - 9) + (p - 9)) mod 200))) [9..<l - 1] s
      in wr (int l - 1) 46 s)"

definition lses_send_message :: "u8 list \<Rightarrow> rat \<Rightarrow> nat \<Rightarrow> 'a sweep_state \<Rightarrow> 'a sweep_state" where
  "lses_send_message data toa n s =
     (let (td, w) = lses_fill_message n (data ! 2) s;
          w = snd (lora_send td (ucast (data ! 2)) w);
          ms = uint (data ! 1) * 1000 - (if int n < uint (data ! 0) - 1 then \<lfloor>toa\<rfloor> else 0) - 2
      in (td, k_sleep_ms ms w))"

definition lses_iteration :: "u8 list \<Rightarrow> 'a sweep_state \<Rightarrow> 'a sweep_state" where
  "lses_iteration data s =
     (let (td, w) = s;
          w = configure w;
          toa = time_on_air (data ! 2) (config w);
          w = k_sleep_ms \<lfloor>float32 (5000 - toa)\<rfloor> w
      in fold (lses_send_message data toa) [0..<unat (data ! 0)] (td, w))"

definition lses_sweep :: "u8 list \<Rightarrow> 'a sweep_state \<Rightarrow> 'a sweep_state option" where
  "lses_sweep data =
     for_bits (data ! 4) [0..<8] (\<lambda>i s.
       let s = wr 0 (of_nat i + 48) (lses_upd (\<lambda>c. c\<lparr>frequency := frequencies ! i\<rparr>) s)
       in for_bits (data ! 5) [0..<3] (\<lambda>j s.
         let s = wr 1 (of_nat j + 48) (lses_upd (\<lambda>c. c\<lparr>bandwidth := of_nat j\<rparr>) s)
         in for_bits (data ! 6) [0..<6] (\<lambda>k s.
           let s = wr 2 (of_nat k + 48) (lses_upd (\<lambda>c. c\<lparr>datarate := of_nat k + 7\<rparr>) s)
           in for_bits (data ! 7) [0..<4] (\<lambda>l s.
             let s = wr 3 (of_nat l + 48) (lses_upd (\<lambda>c. c\<lparr>coding_rate := of_nat l + 1\<rparr>) s)
             in for_bits (data ! 8) [0..<8] (\<lambda>m s.
               let s = wr 4 (of_nat m + 48) (lses_upd (\<lambda>c. c\<lparr>tx_power := 18 - of_nat m * 2\<rparr>) s)
               in Some (lses_iteration data s)) s) s) s) s)"

definition lses_run_sweep :: "u8 list \<Rightarrow> 'a lses_scheme \<Rightarrow> 'a lses_scheme option" where
  "lses_run_sweep data w =
     (let td = map (rd w []) [0..<unat (data ! 2)];
          s = wr 5 95 (td, w)
      in map_option snd (lses_sweep data (lses_upd (\<lambda>c. c\<lparr>tx := True\<rparr>) s)))"

text \<open>The next experiment thread takes the other stack.\<close>

definition lses_prepare_next :: "'a lses_scheme \<Rightarrow> 'a lses_scheme" where
  "lses_prepare_next w =
     (let w = lses_change_config (config_vals w) False w
      in if stack_number w = 0
         then
           let w = abort_thread 3 (thread3_tid w) (w\<lparr>stack_number := 1\<rparr>)
           in call (ThreadCreate 3 ''exec_experiment'') (w\<lparr>thread3_tid := True\<rparr>)
         else
           let w = abort_thread 1 (thread1_tid w) (w\<lparr>stack_number := 0\<rparr>)
           in call (ThreadCreate 1 ''exec_experiment'') (w\<lparr>thread1_tid := True\<rparr>))"

definition lses_exec_experiment :: "'a lses_scheme \<Rightarrow> 'a lses_scheme option" where
  "lses_exec_experiment w = do {
     (l, data, w) \<leftarrow> lses_wait_start (replicate MAX_DATA_LEN 0) w;
     (data, w) \<leftarrow> lses_await_delay l data w;
     w \<leftarrow> lses_run_sweep data w;
     Some (lses_prepare_next w)
   }"

definition lses_prepare_sender_cb :: "u8 list \<Rightarrow> 'a lses_scheme \<Rightarrow> int \<times> 'a lses_scheme" where
  "lses_prepare_sender_cb buf w =
     (let len = length buf;
          w = abort_thread 3 (thread3_tid w) w;
          w = abort_thread 1 (thread1_tid w) w
      in (0,
          if len = 1
          then abort_thread 1 (thread1_tid w) (configure (set_tx True w))
          else
            let w = oob (5 < len) w;
                w = w\<lparr>config_vals := take 5 (memcpy (config_vals w) buf len)\<rparr>;
                w = lses_change_config (config_vals w) False w;
                w = snd (bt_lses_notify (- 2) w)
            in call (ThreadCreate 1 ''exec_experiment'') (w\<lparr>thread1_tid := True\<rparr>)))"

definition lses_set_connected :: "bool \<Rightarrow> 'a lses_scheme \<Rightarrow> 'a lses_scheme" where
  "lses_set_connected b w = w\<lparr>bt_connected := b\<rparr>"

section \<open>The messages of the sweep\<close>

lemma fill_message:
  assumes "length td = unat len" "10 \<le> unat len" "take 6 td = map (\<lambda>v. of_nat v + 48) vs @ [95]"
  shows "lses_fill_message n len (td, w) = (message vs n (unat len), w)"
  using assms unfolding lses_fill_message_def Let_def
  by (subst fill_frame) (simp_all add: message_def payload_def)

section \<open>The sweep, as it should be\<close>

definition message_effects :: "u8 list \<Rightarrow> rat \<Rightarrow> nat list \<Rightarrow> nat \<Rightarrow> effect list" where
  "message_effects data toa vs n =
     [SetMaxPayloadLength (ucast (data ! 2)), Send (message vs n (unat (data ! 2))) (ucast (data ! 2)),
      KSleep (nat (uint (data ! 1) * 1000 - (if int n < uint (data ! 0) - 1 then \<lfloor>toa\<rfloor> else 0) - 2))]"

definition combo_effects :: "u8 list \<Rightarrow> u16 \<Rightarrow> nat list \<Rightarrow> effect list" where
  "combo_effects data pre vs =
     (let c = combo_config pre True vs; toa = time_on_air (data ! 2) c
      in config_effects c @ [KSleep (nat \<lfloor>float32 (5000 - toa)\<rfloor>)] @
         concat (map (message_effects data toa vs) [0..<unat (data ! 0)]))"

section \<open>The sweep does that\<close>

definition keeps :: "'a lses_scheme \<Rightarrow> 'a lses_scheme \<Rightarrow> bool" where
  "keeps w w' \<longleftrightarrow> (\<exists>c t u. w' = w\<lparr>config := c, calls := t, uptime := u\<rparr>)"

definition sweeping :: "'a lses_scheme \<Rightarrow> u8 list \<Rightarrow> u16 \<Rightarrow> nat list \<Rightarrow> 'a sweep_state \<Rightarrow> bool" where
  "sweeping w0 data pre vs s \<longleftrightarrow>
     10 \<le> unat (data ! 2) \<and> length (fst s) = unat (data ! 2)
     \<and> at_combo pre True vs (fst s) (config (snd s)) \<and> keeps w0 (snd s)"

lemma keeps_refl [simp]: "keeps w w"
proof -
  have "w = w\<lparr>config := config w, calls := calls w, uptime := uptime w\<rparr>" by simp
  then show ?thesis unfolding keeps_def by blast
qed

lemma keeps_upd:
  assumes "keeps w w'"
  shows "keeps w (w'\<lparr>config := c\<rparr>)" "keeps w (call e w')" "keeps w (k_sleep_ms ms w')"
proof -
  obtain c0 t u where w': "w' = w\<lparr>config := c0, calls := t, uptime := u\<rparr>"
    using assms by (auto simp: keeps_def)
  have "w'\<lparr>config := c\<rparr> = w\<lparr>config := c, calls := t, uptime := u\<rparr>" by (simp add: w')
  then show "keeps w (w'\<lparr>config := c\<rparr>)" unfolding keeps_def by blast
  have "call e w' = w\<lparr>config := c0, calls := t @ [e], uptime := u\<rparr>" by (simp add: w' call_def)
  then show "keeps w (call e w')" unfolding keeps_def by blast
  have "k_sleep_ms ms w' = w\<lparr>config := c0, calls := t @ [KSleep (nat ms)], uptime := u + nat ms\<rparr>"
    by (simp add: w' call_def k_sleep_ms_def)
  then show "keeps w (k_sleep_ms ms w')" unfolding keeps_def by blast
qed

lemma keeps_configure:
  assumes "keeps w w'"
  shows "keeps w (configure w')"
proof -
  obtain c t u where w': "w' = w\<lparr>config := c, calls := t, uptime := u\<rparr>"
    using assms by (auto simp: keeps_def)
  have "configure w' = w\<lparr>config := c, calls := t @ config_effects c, uptime := u\<rparr>"
    by (simp add: configure_eq w')
  then show ?thesis unfolding keeps_def by blast
qed

lemma message_header: "length vs = 5 \<Longrightarrow> take 6 (message vs n l) = map (\<lambda>v. of_nat v + 48) vs @ [95]"
  by (simp add: message_def)

lemma send_message:
  assumes "sweeping w0 data pre vs s" "length vs = 5"
  shows "sweeping w0 data pre vs (lses_send_message data toa n s)
    \<and> calls (snd (lses_send_message data toa n s)) = calls (snd s) @ message_effects data toa vs n"
proof -
  obtain td w where s: "s = (td, w)" by fastforce
  have 1: "10 \<le> unat (data ! 2)" "length td = unat (data ! 2)" "at_combo pre True vs td (config w)" "keeps w0 w"
    using assms(1) s by (simp_all add: sweeping_def)
  note header = at_combo_header [OF 1(3) assms(2)]
  let ?m = "message vs n (unat (data ! 2))"
  have fill: "lses_fill_message n (data ! 2) (td, w) = (?m, w)"
    using 1 header by (intro fill_message)
  have len: "length ?m = unat (data ! 2)" using 1(1) assms(2) by (simp add: length_message)
  have "at_combo pre True vs ?m (config w)"
    using at_combo_array [OF 1(3)] assms(2) header message_header [OF assms(2)] len 1(1) by simp
  with 1 len s show ?thesis
    by (auto simp: lses_send_message_def fill lora_api_defs sx12xx_lora_send_def sweeping_def
        message_effects_def Let_def intro!: keeps_upd)
qed

lemma send_messages:
  assumes "sweeping w0 data pre vs s" "length vs = 5"
  shows "sweeping w0 data pre vs (fold (lses_send_message data toa) ns s)
    \<and> calls (snd (fold (lses_send_message data toa) ns s)) =
        calls (snd s) @ concat (map (message_effects data toa vs) ns)"
  using assms(1)
proof (induction ns arbitrary: s)
  case (Cons n ns)
  with send_message [OF Cons.prems assms(2), of toa n] show ?case by simp
qed simp

lemma iteration:
  assumes "sweeping w0 data pre vs s" "length vs = 5"
  shows "sweeping w0 data pre vs (lses_iteration data s)
    \<and> calls (snd (lses_iteration data s)) = calls (snd s) @ combo_effects data pre vs"
proof -
  obtain td w where s: "s = (td, w)" by fastforce
  have c: "config w = combo_config pre True vs"
    using assms s by (auto simp: sweeping_def dest: at_combo_config)
  let ?toa = "time_on_air (data ! 2) (combo_config pre True vs)"
  let ?w = "k_sleep_ms \<lfloor>float32 (5000 - ?toa)\<rfloor> (configure w)"
  have "sweeping w0 data pre vs (td, ?w)"
    using assms(1) s by (simp add: sweeping_def keeps_upd keeps_configure)
  from send_messages [OF this assms(2), of ?toa "[0..<unat (data ! 0)]"]
  show ?thesis
    by (simp add: s lses_iteration_def c combo_effects_def Let_def calls_configure)
qed

text \<open>Entering a loop level: the chosen index goes into the array and into the configuration.\<close>

definition lses_enter :: "nat \<Rightarrow> nat \<Rightarrow> 'a sweep_state \<Rightarrow> 'a sweep_state" where
  "lses_enter q v s = wr (int q) (of_nat v + 48) (lses_upd (set_field q v) s)"

lemma enter_level:
  assumes "sweeping w0 data pre vs s" "length vs < 5"
  shows "sweeping w0 data pre (vs @ [v]) (lses_enter (length vs) v s)"
    and "calls (snd (lses_enter (length vs) v s)) = calls (snd s)"
proof -
  obtain td w where s: "s = (td, w)" by fastforce
  have eq: "lses_enter (length vs) v s =
      (td[length vs := of_nat v + 48], w\<lparr>config := set_field (length vs) v (config w)\<rparr>)"
    using assms s by (simp add: lses_enter_def lses_upd_def wr_in sweeping_def)
  show "sweeping w0 data pre (vs @ [v]) (lses_enter (length vs) v s)"
    unfolding eq using assms s by (auto simp: sweeping_def keeps_upd intro: at_combo_enter)
  show "calls (snd (lses_enter (length vs) v s)) = calls (snd s)"
    unfolding eq by (simp add: s)
qed

lemma sweeping_leave: "sweeping w0 data pre (vs @ [v]) s \<Longrightarrow> sweeping w0 data pre vs s"
  by (auto simp: sweeping_def dest: at_combo_leave)

interpretation lses_loop: sweep_loop lses_enter "\<lambda>s. Some (lses_iteration data s)" "sweeping w0 data pre"
    "\<lambda>s. calls (snd s)" "combo_effects data pre"
  for data :: "u8 list" and w0 :: "'a lses_scheme" and pre :: u16
  by unfold_locales (auto simp: enter_level iteration dest: sweeping_leave)

lemma lses_sweep_bits:
  "lses_sweep data = sweep_bits lses_enter (\<lambda>s. Some (lses_iteration data s)) (masks data) 0"
  by (simp add: lses_sweep_def fun_eq_iff masks_def Let_def set_field_simps lses_enter_def numeral_eq_Suc)

lemma run_sweep_keeps:
  assumes len: "10 \<le> unat (data ! 2)"
  shows "\<exists>w'. lses_run_sweep data w = Some w' \<and> keeps w w'
    \<and> calls w' = calls w @ concat (map (combo_effects data (preamble_len (config w))) (combos data))"
proof -
  let ?td = "map (rd w []) [0..<unat (data ! 2)]"
  let ?s = "lses_upd (\<lambda>c. c\<lparr>tx := True\<rparr>) (wr 5 95 (?td, w))"
  have s: "?s = (?td[5 := 95], w\<lparr>config := (config w)\<lparr>tx := True\<rparr>\<rparr>)"
    using len by (simp add: wr_in lses_upd_def)
  have "sweeping w data (preamble_len (config w)) [] ?s"
    unfolding s using len by (simp add: sweeping_def at_combo_def keeps_upd)
  from lses_loop.sweep_trace [OF this, of data] obtain s' where "lses_sweep data ?s = Some s'" "keeps w (snd s')"
    "calls (snd s') = calls w @ concat (map (combo_effects data (preamble_len (config w))) (combos data))"
    by (auto simp: sweeping_def s lses_sweep_bits)
  then show ?thesis by (simp add: lses_run_sweep_def)
qed

lemma combo_effects_in_bounds: "OutOfBounds \<notin> set (combo_effects data pre vs)"
  by (auto simp: combo_effects_def config_effects_def message_effects_def Let_def)

text \<open>
  (C15) A sweep whose settings ask for at least ten bytes a message ends, accesses no array outside
  its bounds, and does exactly this: for each combination of a set bit in each of the five masks,
  once, in lexicographic order, the radio is configured for it and the messages of that
  combination are sent, numbered from 0, each followed by its pause.
\<close>

theorem sweep_sends_all:
  assumes "10 \<le> unat (data ! 2)"
  shows "(\<exists>w'. lses_run_sweep data w = Some w'
      \<and> calls w' = calls w @ concat (map (combo_effects data (preamble_len (config w))) (combos data)))
    \<and> OutOfBounds \<notin> set (concat (map (combo_effects data (preamble_len (config w))) (combos data)))
    \<and> distinct (combos data)
    \<and> (\<forall>vs. vs \<in> set (combos data) \<longleftrightarrow> list_all2 (\<lambda>v (m, n). v < n \<and> bit m v) vs (masks data))"
  using run_sweep_keeps [OF assms, of w] combo_effects_in_bounds
  by (auto simp: combos_def distinct_bit_combos bit_combos_iff)

text \<open>A sender board after boot, for the examples.\<close>

definition boot_lses :: "rx_event list \<Rightarrow> lses" where
  "boot_lses es =
     radio.extend (boot_radio es)
      \<lparr>config = \<lparr>frequency = 869500000, bandwidth = 0, datarate = 7, coding_rate = 1, preamble_len = 8,
                tx_power = 4, tx = False\<rparr>,
       bt_connected = True, conn_reads = [True], notify_rc = 0, junk = [0], junk32 = 0,
       lses_blsc = 1,
       ping_content = replicate 20 0, ping_len = 0, loop_data = replicate 255 0, loop_data_length = 0,
       number_of_messages = 10, time_between_msgs = 5, config_vals = replicate 5 0, stack_number = 0,
       thread0_tid = False, thread1_tid = True, thread2_tid = False, thread3_tid = False\<rparr>"

theorem sweep_sends_all_witness:
  "\<exists>w'. lses_run_sweep [1, 5, 12, 0, 3, 1, 1, 1, 1] (boot_lses []) = Some w'
     \<and> filter is_send (calls w') =
         [Send (message [0, 0, 0, 0, 0] 0 12) 12, Send (message [1, 0, 0, 0, 0] 0 12) 12]"
proof -
  have "combos [1, 5, 12, 0, 3, 1, 1, 1, 1] = [[0, 0, 0, 0, 0], [1, 0, 0, 0, 0]]"
    by (simp add: combos_def masks_def bit_set_def upt_rec)
  then show ?thesis
    using sweep_sends_all [of "[1, 5, 12, 0, 3, 1, 1, 1, 1]" "boot_lses []"]
    by (auto simp: boot_lses_def boot_radio_def radio.defs combo_effects_def config_effects_def
        message_effects_def combo_config_def is_send_def Let_def)
qed

section \<open>The experiment thread\<close>

text \<open>Everything a thread's radio traffic leaves alone: all but the radio's state and the configuration.\<close>

definition persist :: "'a lses_scheme \<Rightarrow> _" where
  "persist w =
     (bt_connected w, conn_reads w, notify_rc w, junk w, junk32 w, lses_blsc w, ping_content w, ping_len w,
      loop_data w, loop_data_length w, number_of_messages w, time_between_msgs w, config_vals w,
      stack_number w, (thread0_tid w, thread1_tid w, thread2_tid w, thread3_tid w), lses.more w)"

lemma persist_sel:
  assumes "persist w' = persist w"
  shows "config_vals w' = config_vals w" "stack_number w' = stack_number w" "junk w' = junk w"
    "junk32 w' = junk32 w" "thread1_tid w' = thread1_tid w" "thread3_tid w' = thread3_tid w"
    "notify_rc w' = notify_rc w" "conn_reads w' = conn_reads w" "ping_len w' = ping_len w"
    "ping_content w' = ping_content w"
  using assms by (simp_all add: persist_def)

lemma call_lses_sel [simp]:
  "lses_blsc (call c w) = lses_blsc w" "ping_content (call c w) = ping_content w"
  "ping_len (call c w) = ping_len w" "loop_data (call c w) = loop_data w"
  "loop_data_length (call c w) = loop_data_length w"
  "number_of_messages (call c w) = number_of_messages w"
  "time_between_msgs (call c w) = time_between_msgs w" "config_vals (call c w) = config_vals w"
  "stack_number (call c w) = stack_number w" "thread0_tid (call c w) = thread0_tid w"
  "thread1_tid (call c w) = thread1_tid w" "thread2_tid (call c w) = thread2_tid w"
  "thread3_tid (call c w) = thread3_tid w" "lses.more (call c w) = lses.more w"
  by (simp_all add: call_def)

lemma persist_ops [simp]:
  "persist (w\<lparr>config := c\<rparr>) = persist w" "persist (call e w) = persist w"
  "persist (k_sleep_ms ms w) = persist w" "persist (configure w) = persist w"
  "persist (set_tx b w) = persist w"
  by (simp_all add: persist_def k_sleep_ms_def configure_eq set_tx_def)

lemma persist_send [simp]: "persist (snd (lora_send data n w)) = persist w"
  by (simp add: lora_api_defs sx12xx_lora_send_def)

text \<open>A receive, seen from a program.\<close>

lemma app_recv_packet:
  fixes w :: "'a lses_scheme"
  assumes "listening 0 w" "timeout \<noteq> K_NO_WAIT" "script w = Arrive ms (pl, rssi, snr) # es"
    "timeout = K_FOREVER \<or> ms \<le> timeout_ms timeout" "length pl < 256"
    and n: "n = min (length pl) (unat sz)"
  shows "\<exists>w'. lora_recv data sz timeout w = Some (int n, memcpy data pl n, Some (rssi, snr), w')
    \<and> listening 0 w' \<and> script w' = es \<and> persist w' = persist w \<and> config w' = config w
    \<and> calls w' = calls w @ [SetMaxPayloadLength 255, Rx 0, RadioSleep]"
proof -
  obtain k where k: "may_wait (data_sem w) k"
    and r: "lora_recv data sz timeout w = Some (uint (min (of_nat (length pl)) sz),
      memcpy data pl (unat (min (of_nat (length pl)) sz)), Some (rssi, snr),
      w\<lparr>kern := k, script := es, uptime := uptime w + ms,
        calls := calls w @ [SetMaxPayloadLength 255, Rx 0, RadioSleep],
        rx_buf := pl, rx_len := min (of_nat (length pl)) sz, rx_rssi := rssi, rx_snr := snr\<rparr>)"
    using recv_packet [OF assms(1-4) refl, of data sz] by blast
  show ?thesis
    unfolding r u8_min [OF assms(5)] n using k assms(1) by (simp add: listening_def persist_def)
qed

lemma app_recv_silence:
  fixes w :: "'a lses_scheme"
  assumes "listening 0 w" "timeout \<noteq> K_NO_WAIT" "timeout \<noteq> K_FOREVER" "unheard (timeout_ms timeout) (script w) es"
  shows "\<exists>w'. lora_recv data sz timeout w = Some (- EAGAIN, data, None, w')
    \<and> listening 0 w' \<and> script w' = es \<and> persist w' = persist w \<and> config w' = config w
    \<and> calls w' = calls w @ [SetMaxPayloadLength 255, Rx 0]"
  using recv_silence [OF assms, of data sz] assms(1) by (auto simp: listening_def persist_def)

text \<open>A ping that arrives: its time, its bytes, its signal.\<close>

definition ping_ok :: "nat \<times> packet \<Rightarrow> bool" where
  "ping_ok e = (case e of (ms, pl, _) \<Rightarrow> 5 \<le> length pl \<and> length pl < 256 \<and> pl ! 0 = 33)"

definition arrivals :: "(nat \<times> packet) list \<Rightarrow> rx_event list" where
  "arrivals es = map (\<lambda>(ms, p). Arrive ms p) es"

definition answers :: "(nat \<times> packet) list \<Rightarrow> effect list" where
  "answers es = map (\<lambda>(ms, pl, _). Send (take 5 pl) 5) es"

lemma wait_start_ping:
  fixes w :: "'a lses_scheme"
  assumes "listening 0 w" "\<not> tx (config w)" "script w = Arrive ms (pl, rssi, snr) # es"
    "ping_ok (ms, pl, rssi, snr)" "length data = 20"
  shows "\<exists>data' w'. lses_wait_start data w = lses_wait_start data' w' \<and> length data' = 20
    \<and> listening 0 w' \<and> script w' = es \<and> config w' = config w \<and> persist w' = persist w
    \<and> filter is_send (calls w') = filter is_send (calls w) @ [Send (take 5 pl) 5]"
proof -
  let ?n = "min (length pl) 20"
  have pl: "5 \<le> length pl" "length pl < 256" "pl ! 0 = 33" "pl \<noteq> []"
    using assms(4) by (auto simp: ping_ok_def)
  obtain w1 where w1: "lora_recv data 20 K_FOREVER w = Some (int ?n, memcpy data pl ?n, Some (rssi, snr), w1)"
    "listening 0 w1" "script w1 = es" "persist w1 = persist w" "config w1 = config w"
    "calls w1 = calls w @ [SetMaxPayloadLength 255, Rx 0, RadioSleep]"
    using app_recv_packet [OF assms(1) _ assms(3) _ pl(2) refl, of K_FOREVER data 20] by auto
  have d: "memcpy data pl ?n ! 0 = 33" "take 5 (memcpy data pl ?n) = take 5 pl" "length (memcpy data pl ?n) = 20"
    using pl assms(5) memcpy_nth [of 0 ?n pl data] by (auto simp: memcpy_take memcpy_length)
  let ?w2 = "snd (lora_send (take 5 pl) 5 (configure (set_tx True w1)))"
  let ?w' = "configure (set_tx False ?w2)"
  have "lses_wait_start data w = lses_wait_start ((memcpy data pl ?n)[0 := - 1]) ?w'"
    by (subst lses_wait_start.simps) (simp add: w1(1) d Let_def)
  then show ?thesis
    using w1 d assms(2)
    by (intro exI [of _ "(memcpy data pl ?n)[0 := - 1]"] exI [of _ ?w']) (simp add: calls_configure)
qed

lemma wait_start_settings:
  fixes w :: "'a lses_scheme"
  assumes "listening 0 w" "script w = Arrive ms (pl, rssi, snr) # es" "0 < length pl" "length pl \<le> 20"
    "pl ! 0 \<noteq> 33" "length data = 20"
  shows "\<exists>data' w'. lses_wait_start data w = Some (int (length pl), data', w')
    \<and> length data' = 20 \<and> take (length pl) data' = pl \<and> listening 0 w' \<and> script w' = es
    \<and> config w' = config w \<and> persist w' = persist w
    \<and> filter is_send (calls w') = filter is_send (calls w)"
proof -
  let ?d = "memcpy data pl (length pl)"
  have n: "min (length pl) 20 = length pl" using assms(4) by simp
  obtain w1 where w1: "lora_recv data 20 K_FOREVER w = Some (int (length pl), ?d, Some (rssi, snr), w1)"
    "listening 0 w1" "script w1 = es" "persist w1 = persist w" "config w1 = config w"
    "calls w1 = calls w @ [SetMaxPayloadLength 255, Rx 0, RadioSleep]"
    using app_recv_packet [OF assms(1) _ assms(2) _ _ refl, of K_FOREVER data 20] assms(4) by (auto simp: n)
  have "?d ! 0 \<noteq> 33" "length ?d = 20" "take (length pl) ?d = pl"
    using assms(3-6) by (simp_all add: memcpy_nth memcpy_length memcpy_prefix)
  with w1 show ?thesis by (subst lses_wait_start.simps) simp
qed

lemma wait_start_returns:
  fixes w :: "'a lses_scheme"
  assumes "listening 0 w" "\<not> tx (config w)" "script w = arrivals pings @ Arrive ms (pl, rssi, snr) # es"
    "list_all ping_ok pings" "0 < length pl" "length pl \<le> 20" "pl ! 0 \<noteq> 33" "length data = 20"
  shows "\<exists>data' w'. lses_wait_start data w = Some (int (length pl), data', w')
    \<and> length data' = 20 \<and> take (length pl) data' = pl \<and> listening 0 w' \<and> script w' = es
    \<and> config w' = config w \<and> persist w' = persist w
    \<and> filter is_send (calls w') = filter is_send (calls w) @ answers pings"
  using assms
proof (induction pings arbitrary: data w)
  case Nil
  then show ?case
    using wait_start_settings [of w ms pl rssi snr es data] by (simp add: arrivals_def answers_def)
next
  case (Cons e pings)
  obtain t p r s where e: "e = (t, p, r, s)" by (cases e) auto
  have "script w = Arrive t (p, r, s) # arrivals pings @ Arrive ms (pl, rssi, snr) # es" "ping_ok (t, p, r, s)"
    using Cons.prems e by (simp_all add: arrivals_def)
  from wait_start_ping [OF Cons.prems(1,2) this Cons.prems(8)]
  obtain data1 w1 where 1: "lses_wait_start data w = lses_wait_start data1 w1" "length data1 = 20"
    "listening 0 w1" "script w1 = arrivals pings @ Arrive ms (pl, rssi, snr) # es" "config w1 = config w"
    "persist w1 = persist w" "filter is_send (calls w1) = filter is_send (calls w) @ [Send (take 5 p) 5]"
    by blast
  have "\<not> tx (config w1)" "list_all ping_ok pings" using Cons.prems 1 by simp_all
  from Cons.IH [OF 1(3) this(1) 1(4) this(2) Cons.prems(5-7) 1(2)] 1 e show ?case
    by (simp add: answers_def)
qed

text \<open>
  Settings that can be repeated: they fill the buffer as before. The delay in them, in seconds, is
  read until the first byte that is no digit, which may lie behind the settings.
\<close>

definition settings_delay :: "u8 list \<Rightarrow> u8 list \<Rightarrow> u16" where
  "settings_delay pl jk = of_int (atoi (drop 9 pl @ jk))"

definition settings_ok :: "u8 list \<Rightarrow> u8 list \<Rightarrow> bool" where
  "settings_ok pl jk \<longleftrightarrow>
     10 \<le> length pl \<and> length pl \<le> 20 \<and> pl ! 0 \<noteq> 33 \<and> 10 \<le> unat (pl ! 2) \<and> settings_delay pl jk \<noteq> 0"

definition repeats :: "u8 list \<Rightarrow> (nat \<times> u16 \<times> u8) list \<Rightarrow> rx_event list" where
  "repeats pl reps = map (\<lambda>(ms, sig). Arrive ms (pl, sig)) reps"

definition in_time :: "u16 \<Rightarrow> (nat \<times> u16 \<times> u8) list \<Rightarrow> bool" where
  "in_time d reps \<longleftrightarrow> list_all (\<lambda>(ms, _). ms \<le> 1000 * unat d) reps"

lemma K_SECONDS_pos:
  fixes d :: u16
  assumes "d \<noteq> 0"
  shows "K_SECONDS (uint d) \<noteq> K_NO_WAIT" "K_SECONDS (uint d) \<noteq> K_FOREVER"
    "timeout_ms (K_SECONDS (uint d)) = 1000 * unat d"
proof -
  have "0 < uint d" using assms by (simp add: word_neq_0_conv word_less_def)
  then have "0 < uint d * 1000" by simp
  from K_MSEC_pos [OF this] timeout_ms_K_MSEC [of "uint d * 1000"] this
  show "K_SECONDS (uint d) \<noteq> K_NO_WAIT" "K_SECONDS (uint d) \<noteq> K_FOREVER"
    "timeout_ms (K_SECONDS (uint d)) = 1000 * unat d"
    by (simp_all add: K_SECONDS_def nat_mult_distrib)
qed

lemma persist_oob [simp]: "persist (oob b w) = persist w" "filter is_send (calls (oob b w)) = filter is_send (calls w)"
  by (simp_all add: oob_def)

lemma await_delay_step:
  fixes w :: "'a lses_scheme"
  assumes "settings_ok pl (junk w)" "length data = 20" "take (length pl) data = pl" "listening 0 w" "\<not> tx (config w)"
    and d: "d = settings_delay pl (junk w)"
  shows "\<exists>w1. lses_await_delay (int (length pl)) data w =
      (lora_recv data 20 (K_SECONDS (uint d)) w1 \<bind>
        (\<lambda>(l, data, _, w). if l < 0 then Some (data, w) else lses_await_delay l data w))
    \<and> listening 0 w1 \<and> script w1 = script w \<and> config w1 = config w \<and> persist w1 = persist w
    \<and> filter is_send (calls w1) = filter is_send (calls w) @ [Send data 20]"
proof -
  let ?w0 = "oob (int (length pl) < 9 \<or> atoi_overruns (drop 9 pl)) w"
  let ?w2 = "snd (lora_send data 20 (k_sleep_ms 200 (configure (set_tx True ?w0))))"
  let ?w1 = "configure (set_tx False ?w2)"
  have "lses_delay (int (length pl)) data w = (d, ?w0)"
    using assms(3) by (simp add: lses_delay_def Let_def d settings_delay_def)
  then have "lses_await_delay (int (length pl)) data w = (lora_recv data 20 (K_SECONDS (uint d)) ?w1 \<bind>
      (\<lambda>(l, data, _, w). if l < 0 then Some (data, w) else lses_await_delay l data w))"
    by (subst lses_await_delay.simps) (simp add: Let_def)
  then show ?thesis
    using assms(4,5) by (intro exI [of _ ?w1]) (simp add: calls_configure)
qed

lemma await_delay_returns:
  fixes w :: "'a lses_scheme"
  assumes "settings_ok pl (junk w)" "length data = 20" "take (length pl) data = pl" "listening 0 w"
    "\<not> tx (config w)" "in_time (settings_delay pl (junk w)) reps" "script w = repeats pl reps @ Silence # es"
  shows "\<exists>w'. lses_await_delay (int (length pl)) data w = Some (data, w')
    \<and> listening 0 w' \<and> script w' = es \<and> config w' = config w \<and> persist w' = persist w
    \<and> filter is_send (calls w') = filter is_send (calls w) @ replicate (Suc (length reps)) (Send data 20)"
  using assms(1,4-)
proof (induction reps arbitrary: w)
  case Nil
  let ?d = "settings_delay pl (junk w)"
  have d: "?d \<noteq> 0" using Nil(1) by (simp add: settings_ok_def)
  obtain w1 where 1: "lses_await_delay (int (length pl)) data w =
      (lora_recv data 20 (K_SECONDS (uint ?d)) w1 \<bind>
        (\<lambda>(l, data, _, w). if l < 0 then Some (data, w) else lses_await_delay l data w))"
    "listening 0 w1" "script w1 = script w" "config w1 = config w" "persist w1 = persist w"
    "filter is_send (calls w1) = filter is_send (calls w) @ [Send data 20]"
    using await_delay_step [OF Nil(1) assms(2,3) Nil(2,3) refl] by blast
  have "unheard ms (script w1) es" for ms using 1(3) Nil by (simp add: repeats_def unheard_def)
  from app_recv_silence [OF 1(2) K_SECONDS_pos(1,2) [OF d] this, of data 20] 1 show ?case
    by auto
next
  case (Cons e reps)
  let ?d = "settings_delay pl (junk w)"
  have d: "?d \<noteq> 0" using Cons(2) by (simp add: settings_ok_def)
  obtain t r s where e: "e = (t, r, s)" by (cases e) auto
  obtain w1 where 1: "lses_await_delay (int (length pl)) data w =
      (lora_recv data 20 (K_SECONDS (uint ?d)) w1 \<bind>
        (\<lambda>(l, data, _, w). if l < 0 then Some (data, w) else lses_await_delay l data w))"
    "listening 0 w1" "script w1 = script w" "config w1 = config w" "persist w1 = persist w"
    "filter is_send (calls w1) = filter is_send (calls w) @ [Send data 20]"
    using await_delay_step [OF Cons(2) assms(2,3) Cons(3,4) refl] by blast
  have pl: "length pl < 256" "min (length pl) 20 = length pl" using Cons(2) by (auto simp: settings_ok_def)
  have scr: "script w1 = Arrive t (pl, r, s) # repeats pl reps @ Silence # es"
    using 1(3) Cons.prems e by (simp add: repeats_def)
  have "t \<le> timeout_ms (K_SECONDS (uint ?d))" "in_time ?d reps"
    using Cons.prems(4) e by (simp_all add: in_time_def K_SECONDS_pos(3) [OF d])
  with app_recv_packet [OF 1(2) K_SECONDS_pos(1) [OF d] scr _ pl(1) refl, of data 20] pl(2)
  obtain w2 where 2: "lora_recv data 20 (K_SECONDS (uint ?d)) w1 = Some (int (length pl), memcpy data pl (length pl), Some (r, s), w2)"
    "listening 0 w2" "script w2 = repeats pl reps @ Silence # es"
    "persist w2 = persist w" "config w2 = config w" "calls w2 = calls w1 @ [SetMaxPayloadLength 255, Rx 0, RadioSleep]"
    using 1(4,5) by auto
  have same: "memcpy data pl (length pl) = data"
    using assms(2,3) Cons(2) by (intro memcpy_same) (auto simp: settings_ok_def)
  have jk: "junk w2 = junk w" using persist_sel [OF 2(4)] by simp
  have "settings_ok pl (junk w2)" "\<not> tx (config w2)" "in_time (settings_delay pl (junk w2)) reps"
    using Cons(2,4) 2(5) jk \<open>in_time ?d reps\<close> by simp_all
  from Cons.IH [OF this(1) 2(2) this(2,3) 2(3)] 1 2 same show ?case by simp
qed

definition combo_sends :: "u8 list \<Rightarrow> nat list \<Rightarrow> effect list" where
  "combo_sends data vs =
     map (\<lambda>n. Send (message vs n (unat (data ! 2))) (ucast (data ! 2))) [0..<unat (data ! 0)]"

lemma sends_combo: "filter is_send (combo_effects data pre vs) = combo_sends data vs"
proof -
  have "concat (map (\<lambda>n. filter is_send (message_effects data toa vs n)) ns) =
      map (\<lambda>n. Send (message vs n (unat (data ! 2))) (ucast (data ! 2))) ns" for toa ns
    by (induction ns) (simp_all add: message_effects_def)
  then show ?thesis by (simp add: combo_effects_def combo_sends_def filter_concat_map Let_def)
qed

lemma keepsD:
  assumes "keeps w w'"
  shows "persist w' = persist w" "listening n w' = listening n w" "script w' = script w"
  using assms by (auto simp: keeps_def persist_def listening_def)

lemma change_config_ok:
  "config_bytes pu \<Longrightarrow> lses_change_config pu b w = configure (w\<lparr>config := combo_config 8 b (map unat pu)\<rparr>)"
  by (simp add: lses_change_config_def config_from_ok)

lemma prepare_next_spec:
  assumes "config_bytes (config_vals w)"
  shows "config (lses_prepare_next w) = combo_config 8 False (map unat (config_vals w))"
    "listening n (lses_prepare_next w) = listening n w" "script (lses_prepare_next w) = script w"
    "filter is_send (calls (lses_prepare_next w)) = filter is_send (calls w)"
    "last (calls (lses_prepare_next w)) =
       ThreadCreate (if stack_number w = 0 then 3 else 1) ''exec_experiment''"
    "stack_number (lses_prepare_next w) = (if stack_number w = 0 then 1 else 0)"
proof -
  let ?w = "configure (w\<lparr>config := combo_config 8 False (map unat (config_vals w))\<rparr>)"
  have w: "stack_number ?w = stack_number w" "listening n ?w = listening n w" "script ?w = script w"
    "config ?w = combo_config 8 False (map unat (config_vals w))"
    "filter is_send (calls ?w) = filter is_send (calls w)"
    using persist_sel(2) [of ?w w] by (simp_all add: calls_configure)
  have eq: "lses_prepare_next w =
      (if stack_number ?w = 0
       then call (ThreadCreate 3 ''exec_experiment'')
              ((abort_thread 3 (thread3_tid ?w) (?w\<lparr>stack_number := 1\<rparr>))\<lparr>thread3_tid := True\<rparr>)
       else call (ThreadCreate 1 ''exec_experiment'')
              ((abort_thread 1 (thread1_tid ?w) (?w\<lparr>stack_number := 0\<rparr>))\<lparr>thread1_tid := True\<rparr>))"
    by (simp add: lses_prepare_next_def change_config_ok [OF assms] Let_def abort_thread_def)
  show "config (lses_prepare_next w) = combo_config 8 False (map unat (config_vals w))"
    "listening n (lses_prepare_next w) = listening n w" "script (lses_prepare_next w) = script w"
    "filter is_send (calls (lses_prepare_next w)) = filter is_send (calls w)"
    "last (calls (lses_prepare_next w)) =
       ThreadCreate (if stack_number w = 0 then 3 else 1) ''exec_experiment''"
    "stack_number (lses_prepare_next w) = (if stack_number w = 0 then 1 else 0)"
    using w unfolding eq by (simp_all add: abort_thread_def) (simp_all add: listening_def)
qed

lemma experiment_trace:
  fixes w :: "'a lses_scheme"
  assumes "listening 0 w" "\<not> tx (config w)" "list_all ping_ok pings" "settings_ok pl (junk w)"
    and "config_bytes (config_vals w)"
    and "script w = arrivals pings @ Arrive t (pl, sig) # repeats pl reps @ Silence # es"
    and "in_time (settings_delay pl (junk w)) reps"
  shows "\<exists>w' data. lses_exec_experiment w = Some w' \<and> take (length pl) data = pl \<and> length data = 20
    \<and> filter is_send (calls w') = filter is_send (calls w) @ answers pings
        @ replicate (Suc (length reps)) (Send data 20) @ concat (map (combo_sends pl) (combos pl))
    \<and> config w' = combo_config 8 False (map unat (config_vals w)) \<and> listening 0 w' \<and> script w' = es
    \<and> last (calls w') = ThreadCreate (if stack_number w = 0 then 3 else 1) ''exec_experiment''
    \<and> stack_number w' = (if stack_number w = 0 then 1 else 0)"
proof -
  obtain r s where sig: "sig = (r, s)" by fastforce
  have pl: "0 < length pl" "length pl \<le> 20" "pl ! 0 \<noteq> 33" "10 \<le> length pl" "10 \<le> unat (pl ! 2)"
    using assms(4) by (auto simp: settings_ok_def)
  obtain data w1 where 1: "lses_wait_start (replicate 20 0) w = Some (int (length pl), data, w1)"
    "length data = 20" "take (length pl) data = pl" "listening 0 w1" "script w1 = repeats pl reps @ Silence # es"
    "config w1 = config w" "persist w1 = persist w"
    "filter is_send (calls w1) = filter is_send (calls w) @ answers pings"
    using wait_start_returns [OF assms(1,2) assms(6) [unfolded sig] assms(3) pl(1-3), of "replicate 20 0"]
    by auto
  have "settings_ok pl (junk w1)" "\<not> tx (config w1)" "in_time (settings_delay pl (junk w1)) reps"
    using assms 1 persist_sel [OF 1(7)] by simp_all
  from await_delay_returns [OF this(1) 1(2-4) this(2,3) 1(5)]
  obtain w2 where 2: "lses_await_delay (int (length pl)) data w1 = Some (data, w2)" "listening 0 w2"
    "script w2 = es" "config w2 = config w1" "persist w2 = persist w1"
    "filter is_send (calls w2) = filter is_send (calls w1) @ replicate (Suc (length reps)) (Send data 20)"
    by blast
  have "take 9 data = take 9 (take (length pl) data)" using pl(4) by (simp add: min_def)
  then have "take 9 data = take 9 pl" by (simp only: 1(3))
  note cong = combos_cong [OF this]
  have sends: "combo_sends data = combo_sends pl" "10 \<le> unat (data ! 2)"
    using cong(2) [of 0] cong(2) [of 2] pl(5) by (simp_all add: combo_sends_def fun_eq_iff)
  from run_sweep_keeps [OF sends(2), of w2]
  obtain w3 where 3: "lses_run_sweep data w2 = Some w3" "keeps w2 w3"
    "filter is_send (calls w3) = filter is_send (calls w2) @ concat (map (combo_sends pl) (combos pl))"
    by (auto simp: filter_concat_map sends_combo sends(1) cong(1) [of 0])
  have p: "persist w3 = persist w" using keepsD(1) [OF 3(2)] 1(7) 2(5) by simp
  have w': "lses_exec_experiment w = Some (lses_prepare_next w3)"
    using 1(1) 2(1) 3(1) by (simp add: lses_exec_experiment_def)
  have "config_bytes (config_vals w3)" using assms(5) persist_sel(1) [OF p] by simp
  note nxt = prepare_next_spec [OF this, unfolded persist_sel(1,2) [OF p]]
  show ?thesis
  proof (intro exI conjI)
    show "lses_exec_experiment w = Some (lses_prepare_next w3)" by (fact w')
    show "take (length pl) data = pl" "length data = 20" by (fact 1)+
    show "filter is_send (calls (lses_prepare_next w3)) = filter is_send (calls w) @ answers pings
        @ replicate (Suc (length reps)) (Send data 20) @ concat (map (combo_sends pl) (combos pl))"
      by (simp only: nxt(4) 3(3) 2(6) 1(8) append_assoc)
    show "listening 0 (lses_prepare_next w3)" "script (lses_prepare_next w3) = es"
      using nxt(2,3) keepsD(2,3) [OF 3(2)] 2(2,3) by simp_all
  qed (fact nxt)+
qed


lemma boot_lses_listening: "listening 0 (boot_lses es)"
  using boot_radio_listening [of es] by (simp add: listening_def boot_lses_def radio.defs)

lemma boot_lses_sel [simp]:
  "calls (boot_lses es) = []" "stack_number (boot_lses es) = 0" "junk (boot_lses es) = [0]"
  "script (boot_lses es) = es" "config_vals (boot_lses es) = replicate 5 0" "\<not> tx (config (boot_lses es))"
  "conn_reads (boot_lses es) = [True]" "tx_power (config (boot_lses es)) = 4"
  by (simp_all add: boot_lses_def boot_radio_def radio.defs)


section \<open>The handlers\<close>

lemma calls_notify: "calls (snd (bt_lses_notify t w)) = calls w @ [Notify [t]]"
  by (simp add: bt_lses_notify_def bt_gatt_notify_def split: prod.split)

lemma notify_sel [simp]:
  "config (snd (bt_lses_notify t w)) = config w" "persist (snd (bt_lses_notify t w)) = persist w"
  "listening n (snd (bt_lses_notify t w)) = listening n w" "script (snd (bt_lses_notify t w)) = script w"
  by (simp_all add: bt_lses_notify_def bt_gatt_notify_def)

text \<open>
  (C19) The phone's configuration command: with five bytes whose first is one of the eight channel
  numbers it selects that configuration for sending, programs the radio with it and notifies the
  phone; exactly with anything else it reads outside an array (\<open>buf\<close> or \<open>frequencies\<close>), as no
  check is made.
\<close>

theorem change_config_cb_checks:
  assumes "w' = snd (lses_change_config_cb buf w)"
  shows "(OutOfBounds \<in> set (emitted w w') \<longleftrightarrow> \<not> config_bytes buf)
    \<and> (config_bytes buf \<longrightarrow> config w' = combo_config 8 True (map unat buf)
         \<and> emitted w w' = config_effects (combo_config 8 True (map unat buf)) @ [Notify [- 2]])"
proof (cases "config_bytes buf")
  case True
  then have "calls w' = calls w @ config_effects (combo_config 8 True (map unat buf)) @ [Notify [- 2]]"
    "config w' = combo_config 8 True (map unat buf)"
    using assms by (simp_all add: lses_change_config_cb_def change_config_ok calls_notify calls_configure)
  with True emittedI [OF this(1)] show ?thesis by (simp add: config_effects_def)
next
  case False
  from config_from_bad [OF this, of True w] obtain n where
    "calls (config_from buf True w) = calls w @ replicate (Suc n) OutOfBounds" by blast
  then have "emitted w w' = replicate (Suc n) OutOfBounds @ config_effects (config w') @ [Notify [- 2]]"
    using assms by (intro emittedI)
      (simp add: lses_change_config_cb_def lses_change_config_def calls_notify calls_configure)
  with False show ?thesis by simp
qed

theorem change_config_cb_checks_witness:
  "config (snd (lses_change_config_cb [1, 0, 5, 0, 7] (boot_lses []))) =
     \<lparr>frequency = 868100000, bandwidth = 0, datarate = 12, coding_rate = 1, preamble_len = 8,
      tx_power = 4, tx = True\<rparr>
   \<and> OutOfBounds \<in> set (emitted (boot_lses []) (snd (lses_change_config_cb [8, 0, 5, 0, 7] (boot_lses []))))"
  using change_config_cb_checks [OF refl, of "boot_lses []" "[1, 0, 5, 0, 7]"]
    change_config_cb_checks [OF refl, of "boot_lses []" "[8, 0, 5, 0, 7]"]
  by (simp add: config_bytes_def combo_config_def frequencies_def)

lemma stack_message_short:
  assumes "length msg < 20"
  shows "stack_message w msg = msg @ [46] @ map (rd w msg) [Suc (length msg)..<20]"
proof (rule nth_equalityI)
  fix i assume "i < length (stack_message w msg)"
  then have "i < 20" by (simp add: stack_message_def)
  then show "stack_message w msg ! i = (msg @ [46] @ map (rd w msg) [Suc (length msg)..<20]) ! i"
    using assms by (auto simp: stack_message_def nth_append rd_in)
qed (use assms in \<open>simp add: stack_message_def\<close>)

text \<open>
  (C20) The send command transmits the phone's bytes and a full stop, as meant, but always writes
  the full stop one byte behind the array made for the message, and always sends twenty bytes:
  what follows on the stack goes out over the air. A message starting with \<open>&\<close> is remembered and
  the thread that waits for its return is started.
\<close>

theorem send_command_overruns:
  assumes "0 < length buf" "length buf < 20" "length (ping_content w) = 20"
    and "w' = snd (lses_send_command_cb buf w)"
  shows "filter is_send (emitted w w') = [Send (buf @ [46] @ map (rd w buf) [Suc (length buf)..<20]) 20]
    \<and> OutOfBounds \<in> set (emitted w w')
    \<and> (if buf ! 0 = 38
       then last (emitted w w') = ThreadCreate 2 ''wait_for_ping_return'' \<and> ping_len w' = of_nat (length buf)
         \<and> take (length buf) (ping_content w') = buf \<and> length (ping_content w') = 20
       else ping_content w' = ping_content w \<and> length (emitted w w') = 3)"
proof -
  have r: "rd w buf 0 = buf ! 0" using assms(1) by (simp add: rd_in)
  have m: "stack_message (call OutOfBounds w) buf = buf @ [46] @ map (rd w buf) [Suc (length buf)..<20]"
    using stack_message_short [OF assms(2), of "call OutOfBounds w"] by simp
  let ?es = "[OutOfBounds, SetMaxPayloadLength 20, Send (buf @ [46] @ map (rd w buf) [Suc (length buf)..<20]) 20]"
  show ?thesis
  proof (cases "buf ! 0 = 38")
    case True
    have "calls w' = calls w @ ?es @ (if thread2_tid w then [ThreadAbort 2] else [])
        @ [ThreadCreate 2 ''wait_for_ping_return'']"
      using assms True by (simp add: lses_send_command_cb_def Let_def r m oob_def abort_thread_def
          lora_api_defs sx12xx_lora_send_def)
    moreover have "ping_len w' = of_nat (length buf)"
      "ping_content w' = take 20 (memcpy (ping_content w) buf (length buf))"
      using assms True by (simp_all add: lses_send_command_cb_def Let_def r oob_def abort_thread_def
          lora_api_defs sx12xx_lora_send_def)
    ultimately show ?thesis
      using assms True emittedI [of w' w] by (auto simp: memcpy_def)
  next
    case False
    have "calls w' = calls w @ ?es" "ping_content w' = ping_content w"
      using assms False by (simp_all add: lses_send_command_cb_def Let_def r m oob_def
          lora_api_defs sx12xx_lora_send_def)
    with False emittedI [OF this(1)] show ?thesis by simp
  qed
qed

theorem send_command_overruns_witness:
  "filter is_send (emitted (boot_lses []) (snd (lses_send_command_cb [104, 105] (boot_lses [])))) =
     [Send ([104, 105, 46] @ replicate 17 0) 20]"
proof -
  have "length (ping_content (boot_lses [])) = 20" by (simp add: boot_lses_def radio.defs)
  from send_command_overruns [OF _ _ this refl, of "[104, 105]"] show ?thesis
    by (simp add: rd_def upt_rec numeral_eq_Suc)
qed

definition ping_result :: "packet option \<Rightarrow> u8 list \<Rightarrow> nat \<Rightarrow> u8" where
  "ping_result pk sent n =
     (case pk of
        None \<Rightarrow> - 5
      | Some (pl, _) \<Rightarrow> if take n sent = take n (memcpy (replicate 20 0) pl (min (length pl) 20)) then - 3 else - 4)"

text \<open>
  (C21) After a ping the sender listens and tells the phone once what became of it: nothing heard
  for three seconds, an answer equal to the ping, or another answer. It always finishes (at high
  power, once the phone is connected again), with the radio set up for sending.
\<close>

theorem ping_verdict:
  fixes w :: "'a lses_scheme"
  assumes "listening 0 w" "unat (ping_len w) \<le> 20" "length (ping_content w) = 20"
    and "sint (tx_power (config w)) \<le> 10 \<or> True \<in> set (conn_reads w)"
    and heard: "ping_heard pk (script w) es"
  shows "\<exists>w'. lses_wait_for_ping_return w = Some w'
    \<and> filter is_notify (calls w') = filter is_notify (calls w)
        @ [Notify [ping_result pk (ping_content w) (unat (ping_len w))]]
    \<and> tx (config w') \<and> listening 0 w' \<and> script w' = es"
proof -
  let ?w0 = "configure (set_tx False w)"
  let ?l = "case pk of None \<Rightarrow> - EAGAIN | Some (pl, _) \<Rightarrow> int (min (length pl) 20)"
  let ?d = "case pk of None \<Rightarrow> replicate 20 0 | Some (pl, _) \<Rightarrow> memcpy (replicate 20 0) pl (min (length pl) 20)"
  have K: "K_SECONDS 3 \<noteq> K_NO_WAIT" "K_SECONDS 3 \<noteq> K_FOREVER" "timeout_ms (K_SECONDS 3) = 3000"
    by (simp_all add: K_SECONDS_def K_MSEC_def timeout_ms_def)
  have l0: "listening 0 ?w0" "script ?w0 = script w" using assms(1) by simp_all
  have "\<exists>st w1. lora_recv (replicate 20 0) 20 (K_SECONDS 3) ?w0 = Some (?l, ?d, st, w1)
      \<and> listening 0 w1 \<and> script w1 = es \<and> persist w1 = persist w \<and> config w1 = (config w)\<lparr>tx := False\<rparr>
      \<and> filter is_notify (calls w1) = filter is_notify (calls w)"
  proof (cases pk)
    case None
    then have "unheard (timeout_ms (K_SECONDS 3)) (script ?w0) es"
      using heard l0(2) K(3) by (simp add: ping_heard_def)
    from app_recv_silence [OF l0(1) K(1,2) this, of "replicate 20 0" 20] None show ?thesis
      by (auto simp: calls_configure)
  next
    case (Some p)
    obtain pl r s where p: "p = (pl, r, s)" by (cases p) auto
    then obtain ms where "script ?w0 = Arrive ms (pl, r, s) # es" "ms \<le> 3000" "length pl < 256"
      using heard l0(2) Some by (auto simp: ping_heard_def)
    with app_recv_packet [OF l0(1) K(1) this(1) _ this(3) refl, of "replicate 20 0" 20] K(3) Some p
    show ?thesis by (auto simp: calls_configure)
  qed
  then obtain st w1 where 1: "lora_recv (replicate 20 0) 20 (K_SECONDS 3) ?w0 = Some (?l, ?d, st, w1)"
    "listening 0 w1" "script w1 = es" "persist w1 = persist w" "config w1 = (config w)\<lparr>tx := False\<rparr>"
    "filter is_notify (calls w1) = filter is_notify (calls w)" by blast
  have "sint (tx_power (config w1)) \<le> 10 \<or> True \<in> set (conn_reads w1)"
    using assms(4) persist_sel [OF 1(4)] 1(5) by simp
  from ping_pause_returns [OF this] obtain w2 where 2: "ping_pause w1 = Some w2"
    "filter is_notify (calls w2) = filter is_notify (calls w)"
    "script w2 = es" "listening 0 w2" "ping_len w2 = ping_len w" "ping_content w2 = ping_content w"
    using 1 persist_sel(9,10) [OF 1(4)] by (auto simp: listening_def only_sleeps_filter)
  have d: "length ?d = 20" by (simp add: memcpy_length split: option.split)
  have "?l < 0 \<longleftrightarrow> pk = None" by (simp split: option.split)
  then have "lses_ping_report ?l ?d w2 = snd (bt_lses_notify (ping_result pk (ping_content w) (unat (ping_len w))) w2)"
    using assms(2,3) 2(5,6) d
    by (cases pk) (auto simp: lses_ping_report_def ping_result_def Let_def map_rd_take simp del: map_eq_conv)
  with 1(1) 2(1) have "lses_wait_for_ping_return w = Some (configure (set_tx True
      (snd (bt_lses_notify (ping_result pk (ping_content w) (unat (ping_len w))) w2))))"
    by (simp add: lses_wait_for_ping_return_def Let_def)
  with 2 show ?thesis by (simp add: calls_configure calls_notify)
qed

theorem ping_verdict_witness:
  "\<exists>w'. lses_wait_for_ping_return ((boot_lses [Arrive 800 ([38, 7, 46], - 90, 2)])
       \<lparr>ping_len := 2, ping_content := [38, 7] @ replicate 18 0\<rparr>) = Some w'
     \<and> filter is_notify (calls w') = [Notify [- 3]]"
proof -
  let ?w = "(boot_lses [Arrive 800 ([38, 7, 46], - 90, 2)])\<lparr>ping_len := 2, ping_content := [38, 7] @ replicate 18 0\<rparr>"
  have "listening 0 ?w" using boot_lses_listening by (simp add: listening_def)
  moreover have "sint (4 :: u8) \<le> 10" by simp
  ultimately show ?thesis
    using ping_verdict [of ?w "Some ([38, 7, 46], - 90, 2)" "[]"]
    by (auto simp: ping_result_def ping_heard_def memcpy_def)
qed

lemma send_loop_calls:
  "calls (lses_send_loop n data w) = calls w @
     concat (replicate n [SetMaxPayloadLength 20, Send data 20, KSleep (1000 * unat (time_between_msgs w))])"
proof (induction n arbitrary: w)
  case (Suc n)
  have "nat (1000 * uint (time_between_msgs w)) = 1000 * unat (time_between_msgs w)"
    by (simp add: nat_mult_distrib)
  with Suc show ?case by (simp add: lora_api_defs sx12xx_lora_send_def k_sleep_ms_def)
qed simp

text \<open>
  (C22) The loop of the explore mode sends the stored message as often as set, pausing the set
  number of seconds after each, and ends. Like the single message it is sent as twenty bytes,
  with the full stop written one byte behind its array.
\<close>

theorem loop_sends:
  assumes "length (loop_data w) = 255" "unat (loop_data_length w) < 20"
  shows "\<exists>rest. calls (lses_exec_loop w) = calls w @ [OutOfBounds] @
      concat (replicate (unat (number_of_messages w))
        [SetMaxPayloadLength 20, Send (take (unat (loop_data_length w)) (loop_data w) @ [46] @ rest) 20,
         KSleep (1000 * unat (time_between_msgs w))])"
proof -
  let ?msg = "take (unat (loop_data_length w)) (loop_data w)"
  have "length ?msg < 20" using assms by simp
  from stack_message_short [OF this, of "oob True w"] show ?thesis
    using assms
    by (auto simp: lses_exec_loop_def Let_def map_rd_take send_loop_calls oob_def)
qed

theorem loop_sends_witness:
  "\<exists>rest. calls (lses_exec_loop ((boot_lses [])\<lparr>number_of_messages := 2, loop_data_length := 1\<rparr>)) =
     [OutOfBounds, SetMaxPayloadLength 20, Send ([0, 46] @ rest) 20, KSleep 5000,
      SetMaxPayloadLength 20, Send ([0, 46] @ rest) 20, KSleep 5000]"
proof -
  let ?w = "(boot_lses [])\<lparr>number_of_messages := 2, loop_data_length := 1\<rparr>"
  have "loop_data ?w = replicate 255 0" "time_between_msgs ?w = 5"
    by (simp_all add: boot_lses_def radio.defs)
  moreover have "replicate 2 es = [es, es]" for es :: "effect list" by (simp add: numeral_2_eq_2)
  ultimately show ?thesis using loop_sends [of ?w] by auto
qed

end
