(* ===== verification/Lres.thy ===== *)
theory Lres
  imports LoraEval "HOL-Library.Signed_Division"
begin

text \<open>
  The receiver's Bluetooth service, \<open>subsys/bluetooth/services/lres.c\<close>: the GATT write handlers,
  the receiving thread of the explore mode, the ping and experiment threads and the
  notifications. The conventions are those of the sender's theory: a handler gets the bytes the
  phone wrote, a thread is a function on the program state with \<open>None\<close> for not ending, and an
  access outside an array is an effect.

  Shown here: what the receiver reports for a message, that its bit error count is the Hamming
  distance modulo 256, that an experiment visits the combinations in the order the sender does and
  ends whatever is received, and where it leaves its arrays.
\<close>

section \<open>State\<close>

record lres = app +
  lres_blsc :: u8
  experiment_data :: "u8 list"
  exp_data_length :: u16
  reconnect :: bool
  rx_tid :: bool \<comment> \<open>\<open>thread0_tid\<close>, \<open>thread1_tid\<close>, \<open>thread2_tid\<close>, not \<open>NULL\<close>\<close>
  exp_tid :: bool
  ping_tid :: bool

abbreviation "MAX_TRANSM_LEN \<equiv> (255 :: nat)"

definition lres_init :: "'a lres_scheme \<Rightarrow> int \<times> 'a lres_scheme" where
  "lres_init w = (0, w\<lparr>lres_blsc := 1\<rparr>)"

section \<open>Helpers\<close>

definition lres_change_config :: "u8 list \<Rightarrow> bool \<Rightarrow> 'a lres_scheme \<Rightarrow> 'a lres_scheme" where
  "lres_change_config pu b w = configure (snd (lora_init (config_from pu b w)))"

definition bt_lres_notify :: "u8 list \<Rightarrow> nat \<Rightarrow> 'a lres_scheme \<Rightarrow> int \<times> 'a lres_scheme" where
  "bt_lres_notify data type_of_notification w =
     (let (rc, w) =
            (if type_of_notification = 0 then bt_gatt_notify [- 1, data ! 0, data ! 1, data ! 2] w
             else if type_of_notification = 1 then bt_gatt_notify (take 20 data) w
             else bt_gatt_notify [data ! 0] w)
      in (if rc = - ENOTCONN then 0 else rc, w))"

section \<open>Explore mode\<close>

text \<open>
  One round of the receiving thread, on its buffer, the last signal values and the state. The
  thread never ends; \<open>lres_receive_lora n\<close> is its first \<open>n\<close> rounds.
\<close>

definition lres_receive_round ::
  "u8 list \<times> (u16 \<times> u8) \<times> 'a lres_scheme \<Rightarrow> (u8 list \<times> (u16 \<times> u8) \<times> 'a lres_scheme) option" where
  "lres_receive_round s = (case s of (data, sig, w) \<Rightarrow> do {
     (len, data, st, w) \<leftarrow> lora_recv data 20 K_FOREVER w;
     let (rssi, snr) = (case st of Some sig \<Rightarrow> sig | None \<Rightarrow> sig);
     if data ! 0 = 38
     then
       let w = configure (set_tx True w);
           w = snd (lora_send data (of_int len) w)
       in Some (data, (rssi, snr), configure (set_tx False w))
     else
       let rssi = ucast (ucast (- rssi) :: u8);
           w = snd (bt_lres_notify [ucast rssi, snr, - 1] 0 w);
           w = snd (bt_lres_notify data 1 w)
       in Some (data, (rssi, snr), w)
   })"

fun lres_receive_lora ::
  "nat \<Rightarrow> u8 list \<times> (u16 \<times> u8) \<times> 'a lres_scheme \<Rightarrow> (u8 list \<times> (u16 \<times> u8) \<times> 'a lres_scheme) option" where
  "lres_receive_lora 0 s = Some s"
| "lres_receive_lora (Suc n) s = lres_receive_round s \<bind> lres_receive_lora n"

definition lres_change_config_cb :: "u8 list \<Rightarrow> 'a lres_scheme \<Rightarrow> int \<times> 'a lres_scheme" where
  "lres_change_config_cb buf w =
     (let w = abort_thread 0 (rx_tid w) w;
          w = lres_change_config buf False w;
          w = snd (bt_lres_notify [- 2] 2 w);
          w = abort_thread 0 (rx_tid w) w
      in (0, call (ThreadCreate 0 ''receive_lora'') (w\<lparr>rx_tid := True\<rparr>)))"

section \<open>Experiment mode\<close>

text \<open>Sending the settings until the sender has sent them back.\<close>

partial_function (option) lres_await_ack ::
  "u8 list \<Rightarrow> u8 list \<Rightarrow> 'a lres_scheme \<Rightarrow> (int \<times> 'a lres_scheme) option" where
  "lres_await_ack exp_data data w = do {
     let w = snd (lora_send exp_data (of_nat (length exp_data)) w);
     let w = configure (set_tx False w);
     (l, data, _, w) \<leftarrow> lora_recv data 20 (K_SECONDS 2) w;
     if l < 0 then lres_await_ack exp_data data (snd (bt_lres_notify [- 5] 2 w))
     else
       let w = oob (20 < length exp_data) w
       in if exp_data = map (rd w data) [0..<length exp_data]
          then Some (l, snd (bt_lres_notify [- 6] 2 w))
          else lres_await_ack exp_data data w
   }"

text \<open>
  The start delay: as many bytes of \<open>exp_data\<close> from the tenth on as were received go into
  \<open>delay[5]\<close>. What is written behind it is read back by \<open>atoi\<close>.
\<close>

definition lres_delay :: "int \<Rightarrow> u8 list \<Rightarrow> 'a lres_scheme \<Rightarrow> u16 \<times> 'a lres_scheme" where
  "lres_delay l exp_data w =
     (let delay = map (rd w exp_data) [9..<nat l] @ junk w
      in (of_int (atoi delay), oob (14 < l \<or> int (length exp_data) < l \<or> atoi_overruns (take 5 delay)) w))"

definition lres_settle :: "u16 \<Rightarrow> 'a lres_scheme \<Rightarrow> u16 \<times> 'a lres_scheme" where
  "lres_settle d w =
     (if sint (tx_power (config w)) > 10
      then (d - 17, snd (bt_lres_notify [- 6] 2 (k_sleep_ms 17000 w)))
      else (d, w))"

record 'w lres_vars =
  compare_data :: "u8 list"
  transmission_data :: "u8 list"
  iteration :: u8
  first_iteration :: bool
  env :: 'w

definition lres_start :: "'a lres_scheme \<Rightarrow> ('a lres_scheme) lres_vars" where
  "lres_start w =
     \<lparr>compare_data = (replicate MAX_TRANSM_LEN 0)[5 := 95], transmission_data = replicate MAX_TRANSM_LEN 0,
      iteration = 0, first_iteration = True, env = set_tx False w\<rparr>"

definition lres_upd :: "(lora_modem_config \<Rightarrow> lora_modem_config) \<Rightarrow> ('a lres_scheme) lres_vars \<Rightarrow> ('a lres_scheme) lres_vars" where
  "lres_upd f s = s\<lparr>env := (env s)\<lparr>config := f (config (env s))\<rparr>\<rparr>"

definition lres_wr :: "int \<Rightarrow> u8 \<Rightarrow> ('a lres_scheme) lres_vars \<Rightarrow> ('a lres_scheme) lres_vars" where
  "lres_wr i v s =
     (let (xs, w) = wr i v (compare_data s, env s) in s\<lparr>compare_data := xs, env := w\<rparr>)"

definition lres_radio_init :: "('a lres_scheme) lres_vars \<Rightarrow> ('a lres_scheme) lres_vars" where
  "lres_radio_init s = s\<lparr>env := snd (lora_init (env s))\<rparr>"

text \<open>The message number from the time spent, and what message with that number should hold.\<close>

definition lres_msg_number :: "u8 \<Rightarrow> u16 \<Rightarrow> bool \<Rightarrow> int \<Rightarrow> 'a lres_scheme \<Rightarrow> u16 \<times> 'a lres_scheme" where
  "lres_msg_number interval d first millis_total w =
     (let t = (if first then millis_total - 1000 * uint d - 5000 else millis_total - 5000)
      in if interval = 0 then (ucast (junk32 w), call DivByZero w)
         else (of_int (t sdiv (uint interval * 1000)), w))"

definition lres_expect :: "u16 \<Rightarrow> u8 \<Rightarrow> u8 list \<times> 'a radio_scheme \<Rightarrow> u8 list \<times> 'a radio_scheme" where
  "lres_expect msg_number len s =
     (let l = unat len;
          c = unat (ucast msg_number :: u8);
          s = wr 6 (of_nat (c div 100 + 48)) s;
          s = wr 7 (of_nat (c div 10 + 48)) s;
          s = wr 8 (of_nat (c mod 10 + 48)) s;
          s = fold (\<lambda>p. wr (int p) (random_d ! ((unat msg_number * (l - 9) + (p - 9)) mod 200))) [9..<l - 1] s
      in wr (int l - 1) 46 s)"

definition count_bits :: "u8 \<Rightarrow> u8 \<Rightarrow> u8 \<Rightarrow> u8" where
  "count_bits a b n =
     fold (\<lambda>i n. if drop_bit i a AND 1 \<noteq> drop_bit i b AND 1 then n + 1 else n) [0..<8] n"

definition check_content :: "u8 list \<Rightarrow> u8 list \<Rightarrow> nat \<Rightarrow> bool \<times> u8" where
  "check_content expected got len =
     fold (\<lambda>z (same, n). if expected ! z \<noteq> got ! z then (False, count_bits (expected ! z) (got ! z) n) else (same, n))
       [0..<len] (True, 0)"

definition lres_judge ::
  "u8 list \<Rightarrow> u16 \<Rightarrow> int \<Rightarrow> u16 \<times> u8 \<Rightarrow> ('a lres_scheme) lres_vars \<Rightarrow> ('a lres_scheme) lres_vars" where
  "lres_judge exp_data d millis_total sig s =
     (let (msg_number, w) = lres_msg_number (exp_data ! 1) d (first_iteration s) millis_total (env s);
          (expected, w) = lres_expect msg_number (exp_data ! 2) (compare_data s, w);
          (same_content, bit_error_count) =
            check_content expected (transmission_data s) (unat (exp_data ! 2));
          w = snd (bt_lres_notify [ucast (- fst sig), snd sig, bit_error_count] 0 w);
          td = (transmission_data s)
                 [9 := if same_content then 116 else 102, 10 := iteration s, 11 := ucast msg_number, 12 := 46];
          w = snd (bt_lres_notify td 1 w)
      in s\<lparr>compare_data := expected, transmission_data := td, env := w\<rparr>)"

text \<open>Receiving until the time of an iteration is used up.\<close>

partial_function (option) lres_receive_loop ::
  "u8 list \<Rightarrow> u16 \<Rightarrow> int \<Rightarrow> int \<Rightarrow> int \<Rightarrow> ('a lres_scheme) lres_vars \<Rightarrow> ('a lres_scheme) lres_vars option" where
  "lres_receive_loop exp_data d iteration_time millis_total time_stamp s =
     (if iteration_time > 0
      then do {
        (l, td, st, w) \<leftarrow> lora_recv (transmission_data s) 255 (K_MSEC iteration_time) (env s);
        let spent = int (uptime w) - time_stamp;
        let s = s\<lparr>transmission_data := td, env := w\<rparr>;
        let s = (if l \<ge> 0
                 then case st of
                        Some sig \<Rightarrow> lres_judge exp_data d (millis_total + spent) sig s
                      | None \<Rightarrow> s
                 else s);
        lres_receive_loop exp_data d (iteration_time - spent) (millis_total + spent) (int (uptime w)) s
      }
      else Some s)"

definition lres_iteration_time :: "u8 list \<Rightarrow> u16 \<Rightarrow> bool \<Rightarrow> int" where
  "lres_iteration_time exp_data d first =
     uint (exp_data ! 0) * uint (exp_data ! 1) * 1000 + (if first then 1000 * uint d else 0) + 5000"

definition lres_iteration ::
  "u8 list \<Rightarrow> u16 \<Rightarrow> ('a lres_scheme) lres_vars \<Rightarrow> ('a lres_scheme) lres_vars option" where
  "lres_iteration exp_data d s = do {
     let s = s\<lparr>env := configure (env s)\<rparr>;
     s \<leftarrow> lres_receive_loop exp_data d (lres_iteration_time exp_data d (first_iteration s)) 1000
           (int (uptime (env s))) s;
     Some (s\<lparr>first_iteration := False, iteration := iteration s + 1\<rparr>)
   }"

definition lres_sweep ::
  "u8 list \<Rightarrow> u16 \<Rightarrow> ('a lres_scheme) lres_vars \<Rightarrow> ('a lres_scheme) lres_vars option" where
  "lres_sweep exp_data d =
     for_bits (exp_data ! 4) [0..<8] (\<lambda>i s.
       let s = lres_wr 0 (of_nat i + 48) (lres_upd (\<lambda>c. c\<lparr>frequency := frequencies ! i\<rparr>) (lres_radio_init s))
       in for_bits (exp_data ! 5) [0..<3] (\<lambda>j s.
         let s = lres_wr 1 (of_nat j + 48) (lres_upd (\<lambda>c. c\<lparr>bandwidth := of_nat j\<rparr>) s)
         in for_bits (exp_data ! 6) [0..<6] (\<lambda>k s.
           let s = lres_wr 2 (of_nat k + 48) (lres_upd (\<lambda>c. c\<lparr>datarate := of_nat k + 7\<rparr>) s)
           in for_bits (exp_data ! 7) [0..<4] (\<lambda>m s.
             let s = lres_wr 3 (of_nat m + 48) (lres_upd (\<lambda>c. c\<lparr>coding_rate := of_nat m + 1\<rparr>) s)
             in for_bits (exp_data ! 8) [0..<8] (\<lambda>p s.
               let s = lres_wr 4 (of_nat p + 48) (lres_upd (\<lambda>c. c\<lparr>tx_power := 18 - of_nat p * 2\<rparr>) s)
               in lres_iteration exp_data d s) s) s) s) s)"

text \<open>The settings are read through \<open>exp_data\<close>, an array of as many bytes as the phone sent.\<close>

definition lres_exec_experiment :: "'a lres_scheme \<Rightarrow> 'a lres_scheme option" where
  "lres_exec_experiment w = do {
     let len = unat (exp_data_length w);
     let w = oob (18 < len) w;
     let exp_data = map (rd w (experiment_data w)) [0..<len];
     (l, w) \<leftarrow> lres_await_ack exp_data (replicate 20 0) w;
     let (d, w) = lres_delay l exp_data w;
     let (d, w) = lres_settle d w;
     let w = oob (len < 9) w;
     s \<leftarrow> lres_sweep (map (rd w exp_data) [0..<9]) d (lres_start w);
     Some ((env s)\<lparr>reconnect := False\<rparr>)
   }"

section \<open>Pings and commands\<close>

definition ping_bytes :: "u8 list" where
  "ping_bytes = [33, 112, 105, 110, 103]"

text \<open>Up to twenty bytes are received into \<open>resp[5]\<close> and the memory behind it.\<close>

definition lres_wait_for_ping_return :: "'a lres_scheme \<Rightarrow> 'a lres_scheme option" where
  "lres_wait_for_ping_return w = do {
     let w = snd (lora_send ping_bytes 5 w);
     let w = configure (set_tx False w);
     (l, resp, _, w) \<leftarrow> lora_recv (replicate 5 0 @ map (rd w []) [0..<15]) 20 (K_SECONDS 3) w;
     let w = oob (5 < l) w;
     w \<leftarrow> ping_pause w;
     let w = (if l < 0 then snd (bt_lres_notify [- 7] 2 w)
              else if take 5 resp = ping_bytes then snd (bt_lres_notify [- 3] 2 w)
              else snd (bt_lres_notify [- 4] 2 w));
     Some (configure (set_tx True w))
   }"

definition lres_experiment_settings_cb :: "u8 list \<Rightarrow> 'a lres_scheme \<Rightarrow> int \<times> 'a lres_scheme" where
  "lres_experiment_settings_cb buf w =
     (let len = length buf;
          w = abort_thread 0 (rx_tid w) w
      in (0,
          if len = 5
          then
            let w = (if \<not> reconnect w then lres_change_config buf True w else w)
            in snd (bt_lres_notify [- 2] 2 (w\<lparr>reconnect := True\<rparr>))
          else if len = 1
          then
            let w = abort_thread 2 (ping_tid w) w
            in call (ThreadCreate 2 ''wait_for_ping_return'') (w\<lparr>ping_tid := True\<rparr>)
          else
            let w = oob (18 < len) w;
                w = w\<lparr>exp_data_length := of_nat len, experiment_data := take 18 (memcpy (experiment_data w) buf len)\<rparr>;
                w = abort_thread 1 (exp_tid w) w
            in call (ThreadCreate 1 ''exec_experiment'') (w\<lparr>exp_tid := True\<rparr>)))"

definition lres_set_connected :: "bool \<Rightarrow> 'a lres_scheme \<Rightarrow> 'a lres_scheme" where
  "lres_set_connected b w = w\<lparr>bt_connected := b\<rparr>"

section \<open>Judging a message\<close>

definition hamming8 :: "u8 \<Rightarrow> u8 \<Rightarrow> nat" where
  "hamming8 a b = length (filter (\<lambda>i. bit a i \<noteq> bit b i) [0..<8])"

definition hamming :: "u8 list \<Rightarrow> u8 list \<Rightarrow> nat" where
  "hamming xs ys = sum_list (map2 hamming8 xs ys)"

lemma drop_bit_and_one: "drop_bit i a AND 1 = (of_bool (bit a i) :: u8)"
  by (simp add: and_one_eq mod_2_eq_odd bit_iff_odd_drop_bit)

lemma fold_count: "fold (\<lambda>i n. if P i then n + 1 else n) xs n = n + of_nat (length (filter P xs))"
  for n :: "'b :: comm_semiring_1"
  by (induction xs arbitrary: n) (simp_all add: add.assoc)

lemma count_bits_hamming: "count_bits a b n = n + of_nat (hamming8 a b)"
proof -
  have "(drop_bit i a AND 1 \<noteq> drop_bit i b AND 1) = (bit a i \<noteq> bit b i)" for i
    by (simp add: drop_bit_and_one)
  then show ?thesis by (simp only: count_bits_def fold_count hamming8_def)
qed

lemma hamming8_same [simp]: "hamming8 a a = 0"
  by (simp add: hamming8_def)

lemma hamming_snoc: "length xs = length ys \<Longrightarrow> hamming (xs @ [x]) (ys @ [y]) = hamming xs ys + hamming8 x y"
  by (simp add: hamming_def)

lemma hamming_self [simp]: "hamming xs xs = 0"
  by (induction xs) (simp_all add: hamming_def)

lemma check_content_eq:
  assumes "len \<le> length expected" "len \<le> length got"
  shows "check_content expected got len =
    (take len expected = take len got, of_nat (hamming (take len expected) (take len got)))"
  using assms
proof (induction len)
  case (Suc len)
  have "check_content expected got (Suc len) =
      (case check_content expected got len of (same, n) \<Rightarrow>
        if expected ! len \<noteq> got ! len then (False, count_bits (expected ! len) (got ! len) n) else (same, n))"
    by (simp add: check_content_def)
  with Suc show ?case
    by (auto simp: take_Suc_conv_app_nth hamming_snoc count_bits_hamming)
qed (simp add: check_content_def hamming_def)

text \<open>
  (C27) Comparing a received message with the expected one: the verdict is whether the bytes are the
  same, and the bit error count is the number of differing bits, modulo 256, as the counter is
  one byte wide.
\<close>

theorem check_content_spec:
  assumes "len \<le> length expected" "len \<le> length got"
  shows "(fst (check_content expected got len) \<longleftrightarrow> take len expected = take len got)
    \<and> unat (snd (check_content expected got len)) = hamming (take len expected) (take len got) mod 256"
  by (simp add: check_content_eq [OF assms] unat_of_nat)

theorem check_content_spec_witness:
  "\<not> fst (check_content [1, 2, 3] [1, 3, 0] 3) \<and> unat (snd (check_content [1, 2, 3] [1, 3, 0] 3)) = 3"
  using check_content_spec [of 3 "[1, 2, 3]" "[1, 3, 0]"]
  by (simp add: hamming_def hamming8_def upt_rec bit_simps)

lemma unat_u8_le: "unat (x :: u8) \<le> 255"
proof -
  have "unat x < 2 ^ LENGTH(8)" by (rule unsigned_less)
  then show ?thesis by simp
qed

lemma expect_message:
  assumes "at_combo pre b vs xs c" "length vs = 5" "10 \<le> unat len" "unat len \<le> length xs" "unat n < 256"
  shows "lres_expect n len (xs, w) = (message vs (unat n) (unat len) @ drop (unat len) xs, w)"
proof -
  have "unat (ucast n :: u8) = unat n" using assms(5) by (simp add: unsigned_ucast_eq take_bit_nat_eq_self)
  then show ?thesis
    using assms(3,4) at_combo_header [OF assms(1,2)]
    unfolding lres_expect_def Let_def
    by (subst fill_frame) (simp_all add: message_def payload_def)
qed

lemma bt_lres_notify_sel [simp]:
  "snd (bt_lres_notify data 0 w) = call (Notify [- 1, data ! 0, data ! 1, data ! 2]) w"
  "snd (bt_lres_notify data 1 w) = call (Notify (take 20 data)) w"
  "snd (bt_lres_notify data (Suc 0) w) = call (Notify (take 20 data)) w"
  "snd (bt_lres_notify data 2 w) = call (Notify [data ! 0]) w"
  by (simp_all add: bt_lres_notify_def bt_gatt_notify_def)

lemma judge_eq:
  assumes "at_combo pre False vs (compare_data s) (config (env s))" "length vs = 5"
    and "length (compare_data s) = 255" "length (transmission_data s) = 255"
    and "10 \<le> unat (exp_data ! 2)" "exp_data ! 1 \<noteq> 0"
    and number: "fst (lres_msg_number (exp_data ! 1) d (first_iteration s) millis (env s)) = of_nat n" "n < 256"
    and sent: "sent = message vs n (unat (exp_data ! 2))"
    and got: "got = take (unat (exp_data ! 2)) (transmission_data s)"
  shows "calls (env (lres_judge exp_data d millis (rssi, snr) s)) = calls (env s) @
    [Notify [- 1, ucast (- rssi), snr, of_nat (hamming sent got)],
     Notify (take 9 (transmission_data s)
       @ [if sent = got then 116 else 102, iteration s, of_nat n, 46]
       @ take 7 (drop 13 (transmission_data s)))]"
proof -
  let ?l = "unat (exp_data ! 2)" and ?td = "transmission_data s"
  have l: "?l \<le> 255" by (rule unat_u8_le)
  have n: "unat (of_nat n :: u16) = n" using number(2) by (simp add: unat_of_nat)
  have num: "lres_msg_number (exp_data ! 1) d (first_iteration s) millis (env s) = (of_nat n, env s)"
    using number(1) assms(6) by (auto simp: lres_msg_number_def Let_def)
  have exp: "lres_expect (of_nat n) (exp_data ! 2) (compare_data s, env s) =
      (sent @ drop ?l (compare_data s), env s)"
    using expect_message [OF assms(1,2,5), of "of_nat n" "env s"] assms(3) l n number(2) sent by simp
  have len: "length sent = ?l" using assms(2,5) sent by (simp add: length_message)
  then have chk: "check_content (sent @ drop ?l (compare_data s)) ?td ?l = (sent = got, of_nat (hamming sent got))"
    using check_content_eq [of ?l "sent @ drop ?l (compare_data s)" ?td] assms(4) l got by simp
  have u: "(ucast (of_nat n :: u16) :: u8) = of_nat n" by (rule ucast_of_nat_u8)
  have td: "take 20 (?td[9 := a, 10 := b, 11 := e, 12 := f]) = take 9 ?td @ [a, b, e, f] @ take 7 (drop 13 ?td)"
    for a b e f
  proof (rule nth_equalityI)
    fix i assume "i < length (take 20 (?td[9 := a, 10 := b, 11 := e, 12 := f]))"
    then have "i < 20" by simp
    then consider "i < 9" | "i = 9" | "i = 10" | "i = 11" | "i = 12" | "13 \<le> i" "i < 20" by linarith
    then show "take 20 (?td[9 := a, 10 := b, 11 := e, 12 := f]) ! i =
        (take 9 ?td @ [a, b, e, f] @ take 7 (drop 13 ?td)) ! i"
      using assms(4) by cases (auto simp: nth_append nth_list_update)
  qed (simp add: assms(4))
  show ?thesis
    by (simp only: lres_judge_def num exp chk Let_def case_prod_conv) (simp add: u td)
qed

text \<open>
  (C26) A received packet is reported to the phone in two notifications: signal strength and number
  of bit errors, then its first nine bytes, a letter for right or wrong, the iteration and the
  message number. Right means that the bytes are those of the message the sender sends with that
  number for the combination being tested, and the bit errors are counted against that message.
\<close>

theorem judge_reports:
  assumes "at_combo pre False vs (compare_data s) (config (env s))" "length vs = 5"
    and "length (compare_data s) = 255" "length (transmission_data s) = 255"
    and "10 \<le> unat (exp_data ! 2)" "exp_data ! 1 \<noteq> 0"
    and number: "fst (lres_msg_number (exp_data ! 1) d (first_iteration s) millis (env s)) = of_nat n" "n < 256"
    and sent: "sent = message vs n (unat (exp_data ! 2))"
    and got: "got = take (unat (exp_data ! 2)) (transmission_data s)"
  shows "calls (env (lres_judge exp_data d millis (rssi, snr) s)) = calls (env s) @
    [Notify [- 1, ucast (- rssi), snr, of_nat (hamming sent got)],
     Notify (take 9 (transmission_data s)
       @ [if sent = got then 116 else 102, iteration s, of_nat n, 46]
       @ take 7 (drop 13 (transmission_data s)))]"
  by (rule judge_eq) (fact assms)+

section \<open>An experiment ends\<close>

text \<open>The effects followed here: radio settings, what is sent, and accesses outside an array.\<close>

definition notable :: "effect \<Rightarrow> bool" where
  "notable e \<longleftrightarrow> is_setup e \<or> is_send e \<or> e = OutOfBounds"

lemma notable_simps [simp]:
  "notable (Send d n)" "\<not> notable (KSleep t)" "\<not> notable (SetMaxPayloadLength n)" "\<not> notable (Rx n)"
  "\<not> notable RadioSleep" "\<not> notable RadioInit" "\<not> notable (Notify d)" "notable OutOfBounds" "\<not> notable DivByZero"
  "filter notable (config_effects c) = config_effects c"
  by (simp_all add: notable_def config_effects_def trace_defs)

text \<open>A script the receiver may meet: no packet is left over from before, and none is too long.\<close>

definition plain :: "rx_event list \<Rightarrow> bool" where
  "plain es = list_all (\<lambda>e. case e of Late _ \<Rightarrow> False | Arrive _ (pl, _) \<Rightarrow> length pl < 256 | Silence \<Rightarrow> True) es"

definition rx_sweeping :: "u8 list \<Rightarrow> u16 \<Rightarrow> nat list \<Rightarrow> ('a lres_scheme) lres_vars \<Rightarrow> bool" where
  "rx_sweeping exp_data pre vs s \<longleftrightarrow>
     10 \<le> unat (exp_data ! 2) \<and> length (compare_data s) = 255 \<and> length (transmission_data s) = 255
     \<and> at_combo pre False vs (compare_data s) (config (env s)) \<and> length vs \<le> 5
     \<and> listening 0 (env s) \<and> plain (script (env s))"

lemma expect_keeps:
  assumes "10 \<le> unat len" "length xs = 255"
  shows "take 6 (fst (lres_expect n len (xs, w))) = take 6 xs"
    "length (fst (lres_expect n len (xs, w))) = 255" "snd (lres_expect n len (xs, w)) = w"
proof -
  have "unat len \<le> length xs" using assms(2) unat_u8_le [of len] by simp
  note f = fill_frame [OF assms(1) this]
  show "take 6 (fst (lres_expect n len (xs, w))) = take 6 xs"
    "length (fst (lres_expect n len (xs, w))) = 255" "snd (lres_expect n len (xs, w)) = w"
    unfolding lres_expect_def Let_def f using assms unat_u8_le [of len] by simp_all
qed

lemma judge_keeps:
  assumes "rx_sweeping exp_data pre vs s"
  shows "rx_sweeping exp_data pre vs (lres_judge exp_data d millis sig s)"
    "filter notable (calls (env (lres_judge exp_data d millis sig s))) = filter notable (calls (env s))"
    "script (env (lres_judge exp_data d millis sig s)) = script (env s)"
proof -
  obtain n w where n: "lres_msg_number (exp_data ! 1) d (first_iteration s) millis (env s) = (n, w)"
    "config w = config (env s)" "script w = script (env s)" "listening 0 w = listening 0 (env s)"
    "filter notable (calls w) = filter notable (calls (env s))"
    by (cases "exp_data ! 1 = 0") (auto simp: lres_msg_number_def Let_def)
  have s: "10 \<le> unat (exp_data ! 2)" "length (compare_data s) = 255" using assms by (simp_all add: rx_sweeping_def)
  obtain x where x: "lres_expect n (exp_data ! 2) (compare_data s, w) = (x, w)"
    "take 6 x = take 6 (compare_data s)" "length x = 255"
    using expect_keeps [OF s, of n w] by (metis prod.collapse)
  obtain same count where c: "check_content x (transmission_data s) (unat (exp_data ! 2)) = (same, count)"
    by fastforce
  let ?td = "(transmission_data s)[9 := if same then 116 else 102, 10 := iteration s, 11 := ucast n, 12 := 46]"
  have j: "lres_judge exp_data d millis sig s = s\<lparr>compare_data := x, transmission_data := ?td,
      env := call (Notify (take 20 ?td)) (call (Notify [- 1, ucast (- fst sig), snd sig, count]) w)\<rparr>"
    by (simp only: lres_judge_def n(1) Let_def case_prod_conv x(1) c bt_lres_notify_sel nth_Cons_0) simp
  have "at_combo pre False vs x (config (env s))"
    using assms x(2,3) by (auto simp: rx_sweeping_def intro: at_combo_array [where xs = "compare_data s"])
  then show "rx_sweeping exp_data pre vs (lres_judge exp_data d millis sig s)"
    using assms n(2-4) x(3) unfolding j rx_sweeping_def by simp
  show "filter notable (calls (env (lres_judge exp_data d millis sig s))) = filter notable (calls (env s))"
    "script (env (lres_judge exp_data d millis sig s)) = script (env s)"
    using n(3,5) unfolding j by simp_all
qed

lemma judge_uptime:
  assumes "10 \<le> unat (exp_data ! 2)" "length (compare_data s) = 255"
  shows "uptime (env (lres_judge exp_data d millis sig s)) = uptime (env s)"
  by (simp add: lres_judge_def lres_msg_number_def Let_def case_prod_beta expect_keeps(3) [OF assms])

lemma receive_loop_end:
  assumes "iteration_time \<le> 0"
  shows "lres_receive_loop exp_data d iteration_time millis stamp s = Some s"
  using assms by (subst lres_receive_loop.simps) simp

text \<open>A wait that hears nothing is the last one.\<close>

lemma receive_loop_silent:
  assumes s: "rx_sweeping exp_data pre vs s" "stamp = int (uptime (env s))" "0 < iteration_time"
    and u: "unheard (nat iteration_time) (script (env s)) es" "plain es"
  shows "\<exists>s'. lres_receive_loop exp_data d iteration_time millis stamp s = Some s'
    \<and> rx_sweeping exp_data pre vs s' \<and> filter notable (calls (env s')) = filter notable (calls (env s))"
proof -
  let ?t = "K_MSEC iteration_time"
  have K: "?t \<noteq> K_NO_WAIT" "?t \<noteq> K_FOREVER" "timeout_ms ?t = nat iteration_time"
    using K_MSEC_pos [OF s(3)] timeout_ms_K_MSEC [of iteration_time] s(3) by auto
  have l: "listening 0 (env s)" using s(1) by (simp add: rx_sweeping_def)
  obtain k where r: "lora_recv (transmission_data s) 255 ?t (env s) = Some (- EAGAIN, transmission_data s, None,
      (env s)\<lparr>kern := k, script := es, uptime := uptime (env s) + nat iteration_time,
        calls := calls (env s) @ [SetMaxPayloadLength 255, Rx 0]\<rparr>)" "may_wait (data_sem (env s)) k"
    using recv_silence [OF l K(1,2), of es "transmission_data s" 255] u K(3) by auto
  then show ?thesis
    using s u(2) by (subst lres_receive_loop.simps)
      (simp add: receive_loop_end Let_def rx_sweeping_def listening_def)
qed

text \<open>A packet that comes in time is judged, and the loop goes on with the time left.\<close>

lemma receive_loop_packet:
  assumes s: "rx_sweeping exp_data pre vs s" "stamp = int (uptime (env s))" "0 < iteration_time"
    and ms: "ms \<le> nat iteration_time" "script (env s) = Arrive ms (pl, rssi, snr) # es" "plain es"
  shows "\<exists>s'. lres_receive_loop exp_data d iteration_time millis stamp s =
      lres_receive_loop exp_data d (iteration_time - int ms) (millis + int ms) (stamp + int ms) s'
    \<and> rx_sweeping exp_data pre vs s' \<and> script (env s') = es \<and> stamp + int ms = int (uptime (env s'))
    \<and> filter notable (calls (env s')) = filter notable (calls (env s))"
proof -
  let ?t = "K_MSEC iteration_time" and ?n = "min (of_nat (length pl)) (255 :: u8)"
  have K: "?t \<noteq> K_NO_WAIT" "timeout_ms ?t = nat iteration_time"
    using K_MSEC_pos [OF s(3)] timeout_ms_K_MSEC [of iteration_time] s(3) by auto
  have l: "listening 0 (env s)" "length (transmission_data s) = 255" using s(1) by (simp_all add: rx_sweeping_def)
  let ?td = "memcpy (transmission_data s) pl (unat ?n)"
  obtain k where k: "may_wait (data_sem (env s)) k"
    and r: "lora_recv (transmission_data s) 255 ?t (env s) = Some (uint ?n, ?td, Some (rssi, snr),
      (env s)\<lparr>kern := k, script := es, uptime := uptime (env s) + ms,
        calls := calls (env s) @ [SetMaxPayloadLength 255, Rx 0, RadioSleep],
        rx_buf := pl, rx_len := ?n, rx_rssi := rssi, rx_snr := snr\<rparr>)"
    using recv_packet [OF l(1) K(1) ms(2) _ refl, of "transmission_data s" 255] ms(1) K(2) by auto
  define w where "w = (env s)\<lparr>kern := k, script := es, uptime := uptime (env s) + ms,
        calls := calls (env s) @ [SetMaxPayloadLength 255, Rx 0, RadioSleep],
        rx_buf := pl, rx_len := ?n, rx_rssi := rssi, rx_snr := snr\<rparr>"
  have w: "script w = es" "uptime w = uptime (env s) + ms" "listening 0 w" "config w = config (env s)"
    "filter notable (calls w) = filter notable (calls (env s))"
    using k l(1) by (simp_all add: w_def listening_def)
  let ?s = "s\<lparr>transmission_data := ?td, env := w\<rparr>"
  have td: "length ?td = 255" using l(2) unat_u8_le [of ?n] by (simp add: memcpy_length)
  have ok: "rx_sweeping exp_data pre vs ?s"
    using s(1) ms(3) w td by (simp add: rx_sweeping_def)
  let ?s' = "lres_judge exp_data d (millis + int ms) (rssi, snr) ?s"
  have "lres_receive_loop exp_data d iteration_time millis stamp s =
      lres_receive_loop exp_data d (iteration_time - int ms) (millis + int ms) (stamp + int ms) ?s'"
    using s(2,3) r w(2) by (subst lres_receive_loop.simps) (simp add: w_def [symmetric] Let_def)
  with judge_keeps [OF ok] judge_uptime [of exp_data ?s] ok w s(2) show ?thesis
    by (intro exI [of _ ?s']) (simp add: rx_sweeping_def)
qed

lemma receive_loop_ends:
  assumes "rx_sweeping exp_data pre vs s" "stamp = int (uptime (env s))"
  shows "\<exists>s'. lres_receive_loop exp_data d iteration_time millis stamp s = Some s'
    \<and> rx_sweeping exp_data pre vs s' \<and> filter notable (calls (env s')) = filter notable (calls (env s))"
  using assms
proof (induction "script (env s)" arbitrary: s iteration_time millis stamp)
  case Nil
  then show ?case
    using receive_loop_silent [OF Nil(2,3), of iteration_time "[]" d millis]
    by (cases "0 < iteration_time") (auto simp: receive_loop_end unheard_def plain_def)
next
  case (Cons e es)
  have scr: "script (env s) = e # es" using Cons.hyps(2) by simp
  have p: "plain es" "plain (e # es)" using Cons.prems(1) by (simp_all add: scr rx_sweeping_def plain_def)
  consider "iteration_time \<le> 0" | es' where "0 < iteration_time" "unheard (nat iteration_time) (e # es) es'" "plain es'"
    | ms pl rssi snr where "0 < iteration_time" "e = Arrive ms (pl, rssi, snr)" "ms \<le> nat iteration_time"
  proof (cases e)
    case (Late q)
    then show ?thesis using p(2) by (simp add: plain_def)
  next
    case (Arrive ms q)
    obtain pl rssi snr where "q = (pl, rssi, snr)" by (cases q) auto
    with Arrive p(2) that show ?thesis
      by (cases "0 < iteration_time"; cases "ms \<le> nat iteration_time")
         (auto simp: unheard_def plain_def not_le)
  next
    case Silence
    with p(1) that show ?thesis by (cases "0 < iteration_time") (auto simp: unheard_def)
  qed
  then show ?case
  proof cases
    case 1
    then show ?thesis using Cons.prems by (simp add: receive_loop_end)
  next
    case (2 es')
    then show ?thesis using receive_loop_silent [OF Cons.prems 2(1), of es'] scr by simp
  next
    case (3 ms pl rssi snr)
    have scr: "script (env s) = Arrive ms (pl, rssi, snr) # es" using scr 3(2) by simp
    from receive_loop_packet [OF Cons.prems 3(1,3) scr p(1), of d millis] obtain s' where
      s': "lres_receive_loop exp_data d iteration_time millis stamp s =
        lres_receive_loop exp_data d (iteration_time - int ms) (millis + int ms) (stamp + int ms) s'"
      "rx_sweeping exp_data pre vs s'" "script (env s') = es" "stamp + int ms = int (uptime (env s'))"
      "filter notable (calls (env s')) = filter notable (calls (env s))"
      by blast
    from Cons.hyps(1) [OF s'(3) [symmetric] s'(2,4)] s'(1,5) show ?thesis by simp
  qed
qed

lemma lora_init_ok:
  assumes "listening n w"
  shows "listening 0 (snd (lora_init w))" "script (snd (lora_init w)) = script w"
    "calls (snd (lora_init w)) = calls w @ [RadioInit, RadioSleep]"
proof -
  have "(wait_qs (kern w))(sem_q (data_sem w) := []) = wait_qs (kern w)"
    using assms by (simp add: listening_def may_wait_def fun_upd_idem)
  then show "listening 0 (snd (lora_init w))" "script (snd (lora_init w)) = script w"
    "calls (snd (lora_init w)) = calls w @ [RadioInit, RadioSleep]"
    using assms by (simp_all add: lora_api_defs sx12xx_init_def z_impl_k_sem_init_def Let_def listening_def may_wait_def)
qed

lemma lora_init_config [simp]: "config (snd (lora_init w)) = config w"
  by (simp add: lora_api_defs sx12xx_init_def Let_def case_prod_beta)

definition lres_enter :: "nat \<Rightarrow> nat \<Rightarrow> ('a lres_scheme) lres_vars \<Rightarrow> ('a lres_scheme) lres_vars" where
  "lres_enter q v s =
     lres_wr (int q) (of_nat v + 48) (lres_upd (set_field q v) (if q = 0 then lres_radio_init s else s))"

lemma rx_enter_level:
  assumes "rx_sweeping exp_data pre vs s" "length vs < 5"
  shows "rx_sweeping exp_data pre (vs @ [v]) (lres_enter (length vs) v s)"
    "filter notable (calls (env (lres_enter (length vs) v s))) = filter notable (calls (env s))"
proof -
  define w where "w = (if length vs = 0 then snd (lora_init (env s)) else env s)"
  have l: "listening 0 (env s)" "length (compare_data s) = 255" using assms(1) by (simp_all add: rx_sweeping_def)
  have w: "listening 0 w" "script w = script (env s)" "config w = config (env s)"
    "filter notable (calls w) = filter notable (calls (env s))"
    using l(1) lora_init_ok [OF l(1)] by (simp_all add: w_def)
  have eq: "lres_enter (length vs) v s = s\<lparr>compare_data := (compare_data s)[length vs := of_nat v + 48],
      env := w\<lparr>config := set_field (length vs) v (config w)\<rparr>\<rparr>"
    using assms(2) l(2) by (simp add: lres_enter_def lres_upd_def lres_wr_def lres_radio_init_def wr_in w_def)
  show "rx_sweeping exp_data pre (vs @ [v]) (lres_enter (length vs) v s)"
    unfolding eq using assms w by (auto simp: rx_sweeping_def listening_def intro: at_combo_enter)
  show "filter notable (calls (env (lres_enter (length vs) v s))) = filter notable (calls (env s))"
    unfolding eq using w by simp
qed

lemma rx_sweeping_leave: "rx_sweeping exp_data pre (vs @ [v]) s \<Longrightarrow> rx_sweeping exp_data pre vs s"
  by (auto simp: rx_sweeping_def dest: at_combo_leave)

lemma iteration_ends:
  assumes "rx_sweeping exp_data pre vs s" "length vs = 5"
  shows "\<exists>s'. lres_iteration exp_data d s = Some s' \<and> rx_sweeping exp_data pre vs s'
    \<and> filter notable (calls (env s')) = filter notable (calls (env s)) @ config_effects (combo_config pre False vs)"
proof -
  let ?s = "s\<lparr>env := configure (env s)\<rparr>"
  have c: "config (env s) = combo_config pre False vs"
    using assms by (auto simp: rx_sweeping_def dest: at_combo_config)
  have "rx_sweeping exp_data pre vs ?s" using assms(1) by (simp add: rx_sweeping_def configure_eq listening_def)
  from receive_loop_ends [OF this refl, of d "lres_iteration_time exp_data d (first_iteration s)" 1000]
  obtain s' where s': "lres_receive_loop exp_data d (lres_iteration_time exp_data d (first_iteration s)) 1000
      (int (uptime (env ?s))) ?s = Some s'" "rx_sweeping exp_data pre vs s'"
    "filter notable (calls (env s')) = filter notable (calls (env ?s))" by blast
  have "rx_sweeping exp_data pre vs (s'\<lparr>first_iteration := False, iteration := iteration s' + 1\<rparr>)"
    using s'(2) by (simp add: rx_sweeping_def)
  with s' show ?thesis by (simp add: lres_iteration_def calls_configure c)
qed

interpretation lres_loop: sweep_loop lres_enter "lres_iteration exp_data d" "rx_sweeping exp_data pre"
    "\<lambda>s. filter notable (calls (env s))" "\<lambda>vs. config_effects (combo_config pre False vs)"
  for exp_data :: "u8 list" and d :: u16 and pre :: u16
  by unfold_locales (auto simp: rx_enter_level iteration_ends dest: rx_sweeping_leave)

lemma lres_sweep_bits:
  "lres_sweep exp_data d = sweep_bits lres_enter (lres_iteration exp_data d) (masks exp_data) 0"
  by (simp add: lres_sweep_def fun_eq_iff masks_def Let_def set_field_simps lres_enter_def numeral_eq_Suc)

section \<open>The settings exchange\<close>

definition is_told :: "effect \<Rightarrow> bool" where
  "is_told e \<longleftrightarrow> notable e \<or> is_notify e"

lemma is_told_simps [simp]:
  "is_told (Send d n)" "\<not> is_told (KSleep t)" "\<not> is_told (SetMaxPayloadLength n)" "\<not> is_told (Rx n)"
  "\<not> is_told RadioSleep" "\<not> is_told RadioInit" "is_told (Notify d)" "is_told OutOfBounds"
  "filter is_told (config_effects c) = config_effects c"
  by (simp_all add: is_told_def notable_def config_effects_def trace_defs)

lemma K_2: "K_SECONDS 2 \<noteq> K_NO_WAIT" "K_SECONDS 2 \<noteq> K_FOREVER" "timeout_ms (K_SECONDS 2) = 2000"
  by (simp_all add: K_SECONDS_def K_MSEC_def timeout_ms_def)

lemma call_lres_sel [simp]:
  "exp_data_length (call c w) = exp_data_length w" "experiment_data (call c w) = experiment_data w"
  "reconnect (call c w) = reconnect w" "rx_tid (call c w) = rx_tid w" "exp_tid (call c w) = exp_tid w"
  "ping_tid (call c w) = ping_tid w"
  by (simp_all add: call_def)

text \<open>One round of the exchange: silence, or the right answer.\<close>

lemma await_ack_silence:
  fixes w :: "'a lres_scheme"
  assumes "listening 0 w" "script w = Silence # es"
  shows "\<exists>w'. lres_await_ack ed data w = lres_await_ack ed data w'
    \<and> listening 0 w' \<and> script w' = es \<and> config w' = (config w)\<lparr>tx := False\<rparr> \<and> junk w' = junk w
    \<and> filter is_told (calls w') = filter is_told (calls w)
        @ Send ed (of_nat (length ed)) # config_effects ((config w)\<lparr>tx := False\<rparr>) @ [Notify [- 5]]"
proof -
  define w1 where "w1 = configure (set_tx False (snd (lora_send ed (of_nat (length ed)) w)))"
  have w1: "listening 0 w1" "config w1 = (config w)\<lparr>tx := False\<rparr>" "junk w1 = junk w"
    "unheard (timeout_ms (K_SECONDS 2)) (script w1) es"
    "filter is_told (calls w1) = filter is_told (calls w)
        @ Send ed (of_nat (length ed)) # config_effects ((config w)\<lparr>tx := False\<rparr>)"
    using assms by (simp_all add: w1_def unheard_def calls_configure)
  obtain k where k: "may_wait (data_sem w1) k" and rx: "lora_recv data 20 (K_SECONDS 2) w1 =
      Some (- EAGAIN, data, None, w1\<lparr>kern := k, script := es, uptime := uptime w1 + timeout_ms (K_SECONDS 2),
        calls := calls w1 @ [SetMaxPayloadLength 255, Rx 0]\<rparr>)"
    using recv_silence [OF w1(1) K_2(1,2) w1(4), of data 20] by blast
  let ?w = "call (Notify [- 5]) (w1\<lparr>kern := k, script := es, uptime := uptime w1 + timeout_ms (K_SECONDS 2),
        calls := calls w1 @ [SetMaxPayloadLength 255, Rx 0]\<rparr>)"
  have "lres_await_ack ed data w = lres_await_ack ed data ?w"
    by (subst lres_await_ack.simps) (simp add: Let_def rx flip: w1_def)
  with k w1 show ?thesis by (intro exI [of _ ?w]) (simp add: listening_def)
qed

lemma await_ack_answer:
  fixes w :: "'a lres_scheme"
  assumes "listening 0 w" "script w = Arrive t (ack, sig) # es"
    "t \<le> 2000" "length ack < 256" "length ed \<le> 20" "take (length ed) ack = ed" "length data = 20"
  shows "\<exists>w'. lres_await_ack ed data w = Some (int (min (length ack) 20), w')
    \<and> listening 0 w' \<and> script w' = es \<and> config w' = (config w)\<lparr>tx := False\<rparr> \<and> junk w' = junk w
    \<and> filter is_told (calls w') = filter is_told (calls w)
        @ Send ed (of_nat (length ed)) # config_effects ((config w)\<lparr>tx := False\<rparr>) @ [Notify [- 6]]"
proof -
  obtain r q where sig: "sig = (r, q)" by fastforce
  define w1 where "w1 = configure (set_tx False (snd (lora_send ed (of_nat (length ed)) w)))"
  have w1: "listening 0 w1" "script w1 = Arrive t (ack, r, q) # es" "config w1 = (config w)\<lparr>tx := False\<rparr>"
    "junk w1 = junk w"
    "filter is_told (calls w1) = filter is_told (calls w)
        @ Send ed (of_nat (length ed)) # config_effects ((config w)\<lparr>tx := False\<rparr>)"
    using assms(1,2) sig by (simp_all add: w1_def calls_configure)
  let ?n = "min (of_nat (length ack)) (20 :: u8)" and ?m = "min (length ack) 20"
  note n = u8_min [OF assms(4), of 20]
  obtain k where k: "may_wait (data_sem w1) k" and rx: "lora_recv data 20 (K_SECONDS 2) w1 =
      Some (uint ?n, memcpy data ack (unat ?n), Some (r, q), w1\<lparr>kern := k, script := es, uptime := uptime w1 + t,
        calls := calls w1 @ [SetMaxPayloadLength 255, Rx 0, RadioSleep],
        rx_buf := ack, rx_len := ?n, rx_rssi := r, rx_snr := q\<rparr>)"
    using recv_packet [OF w1(1) K_2(1) w1(2) _ refl, of data 20] assms(3) K_2(3) by auto
  have len: "length ed \<le> ?m" using assms(5,6) by (metis length_take min.boundedI min.cobounded2 min.commute)
  have "map (rd w' (memcpy data ack ?m)) [0..<length ed] = take (length ed) (memcpy data ack ?m)" for w' :: "'a lres_scheme"
    using len assms(7) by (intro map_rd_take) (simp add: memcpy_length)
  also have "take (length ed) (memcpy data ack ?m) = ed"
    using len assms(6) by (simp add: memcpy_take)
  finally have cmp: "map (rd w' (memcpy data ack ?m)) [0..<length ed] = ed" for w' :: "'a lres_scheme" .
  let ?w = "call (Notify [- 6]) (w1\<lparr>kern := k, script := es, uptime := uptime w1 + t,
        calls := calls w1 @ [SetMaxPayloadLength 255, Rx 0, RadioSleep],
        rx_buf := ack, rx_len := ?n, rx_rssi := r, rx_snr := q\<rparr>)"
  have "lres_await_ack ed data w = Some (int ?m, ?w)"
    using assms(5) by (subst lres_await_ack.simps) (simp add: Let_def rx n cmp flip: w1_def)
  with k w1 show ?thesis by (intro exI [of _ ?w]) (simp add: listening_def)
qed

definition exchange :: "nat \<Rightarrow> u8 list \<Rightarrow> lora_modem_config \<Rightarrow> effect list" where
  "exchange n ed c =
     concat (replicate n (Send ed (of_nat (length ed)) # config_effects (c\<lparr>tx := False\<rparr>) @ [Notify [- 5]]))
     @ Send ed (of_nat (length ed)) # config_effects (c\<lparr>tx := False\<rparr>) @ [Notify [- 6]]"

lemma await_ack_returns:
  fixes w :: "'a lres_scheme"
  assumes "listening 0 w" "script w = replicate n Silence @ Arrive t (ack, sig) # es"
    "t \<le> 2000" "length ack < 256" "length ed \<le> 20" "take (length ed) ack = ed" "length data = 20"
  shows "\<exists>w'. lres_await_ack ed data w = Some (int (min (length ack) 20), w')
    \<and> listening 0 w' \<and> script w' = es \<and> config w' = (config w)\<lparr>tx := False\<rparr> \<and> junk w' = junk w
    \<and> filter is_told (calls w') = filter is_told (calls w) @ exchange n ed (config w)"
  using assms(1,2)
proof (induction n arbitrary: w)
  case 0
  then show ?case
    using await_ack_answer [OF 0(1) _ assms(3-7), of sig es] by (simp add: exchange_def)
next
  case (Suc n)
  have "script w = Silence # replicate n Silence @ Arrive t (ack, sig) # es" using Suc.prems by simp
  from await_ack_silence [OF Suc.prems(1) this, of ed data] obtain w1 where 1:
    "lres_await_ack ed data w = lres_await_ack ed data w1" "listening 0 w1"
    "script w1 = replicate n Silence @ Arrive t (ack, sig) # es" "config w1 = (config w)\<lparr>tx := False\<rparr>"
    "junk w1 = junk w" "filter is_told (calls w1) = filter is_told (calls w)
        @ Send ed (of_nat (length ed)) # config_effects ((config w)\<lparr>tx := False\<rparr>) @ [Notify [- 5]]"
    by blast
  from Suc.IH [OF 1(2,3)] 1 show ?case by (simp add: exchange_def)
qed

lemma filter_notable_told: "filter (\<lambda>e. is_told e \<and> notable e) es = filter notable es"
  by (rule filter_cong) (auto simp: is_told_def)

lemma notable_oob: "filter notable (calls (oob b w)) = filter notable (calls w) @ (if b then [OutOfBounds] else [])"
  by (simp add: oob_def)

lemma settle_keeps:
  assumes "lres_settle d w = (d', w')"
  shows "listening 0 w' = listening 0 w" "script w' = script w" "config w' = config w" "junk w' = junk w"
    "filter notable (calls w') = filter notable (calls w)"
  using assms by (auto simp: lres_settle_def k_sleep_ms_def listening_def split: if_splits)

lemma start_sweeping:
  assumes "10 \<le> unat (ed ! 2)" "listening 0 w" "plain (script w)"
  shows "rx_sweeping ed (preamble_len (config w)) [] (lres_start w)"
  using assms by (simp add: rx_sweeping_def lres_start_def at_combo_def)


text \<open>A receiver board after boot, for the examples.\<close>

definition boot_lres :: "rx_event list \<Rightarrow> u8 list \<Rightarrow> lres" where
  "boot_lres es ed =
     radio.extend (boot_radio es)
      \<lparr>config = \<lparr>frequency = 869500000, bandwidth = 0, datarate = 7, coding_rate = 1, preamble_len = 8,
                tx_power = 4, tx = True\<rparr>,
       bt_connected = True, conn_reads = [True], notify_rc = 0, junk = [0], junk32 = 0,
       lres_blsc = 1, experiment_data = take 18 (ed @ replicate 18 0), exp_data_length = of_nat (length ed),
       reconnect = True, rx_tid = False, exp_tid = True, ping_tid = False\<rparr>"

lemma boot_lres_listening: "listening 0 (boot_lres es ed)"
  using boot_radio_listening [of es] by (simp add: listening_def boot_lres_def radio.defs)

lemma boot_lres_sel [simp]:
  "calls (boot_lres es ed) = []" "script (boot_lres es ed) = es" "junk (boot_lres es ed) = [0]"
  "experiment_data (boot_lres es ed) = take 18 (ed @ replicate 18 0)"
  "exp_data_length (boot_lres es ed) = of_nat (length ed)" "conn_reads (boot_lres es ed) = [True]"
  "preamble_len (config (boot_lres es ed)) = 8" "tx_power (config (boot_lres es ed)) = 4"
  by (simp_all add: boot_lres_def boot_radio_def radio.defs)


theorem judge_reports_witness:
  "calls (env (lres_judge [2, 1, 12] 1 7500 (- 61, 5)
     ((lres_start ((boot_lres [] [])\<lparr>config := combo_config 8 False [0, 0, 0, 0, 0]\<rparr>))
       \<lparr>compare_data := [48, 48, 48, 48, 48, 95] @ replicate 249 0,
        transmission_data := message [0, 0, 0, 0, 0] 1 12 @ replicate 243 0\<rparr>))) =
   [Notify [- 1, 61, 5, 0], Notify ([48, 48, 48, 48, 48, 95, 48, 48, 49, 116, 0, 1, 46] @ replicate 7 0)]"
proof -
  let ?w = "(boot_lres [] [])\<lparr>config := combo_config 8 False [0, 0, 0, 0, 0]\<rparr>"
  let ?m = "message [0, 0, 0, 0, 0] 1 12"
  let ?s = "(lres_start ?w)\<lparr>compare_data := [48, 48, 48, 48, 48, 95] @ replicate 249 0,
        transmission_data := ?m @ replicate 243 0\<rparr>"
  have m: "length ?m = 12" by (simp add: length_message)
  have at: "at_combo 8 False [0, 0, 0, 0, 0] (compare_data ?s) (config (env ?s))"
    by (simp add: at_combo_def lres_start_def combo_config_def nth_append nth_Cons')
  have t: "take 9 (?m @ replicate 243 0) = [48, 48, 48, 48, 48, 95, 48, 48, 49]"
    "take 7 (drop 13 (?m @ replicate 243 (0 :: u8))) = replicate 7 0"
    by (simp add: message_def, simp add: length_message)
  show ?thesis
    using judge_reports [OF at, of "[2, 1, 12]" 1 7500 1 _ _ "- 61" 5] m t
    by (simp add: lres_start_def lres_msg_number_def signed_divide_int_def)
qed

section \<open>Pings, commands, the explore mode\<close>

definition only_oob :: "effect list \<Rightarrow> effect list" where
  "only_oob es = filter (\<lambda>e. e = OutOfBounds) es"

lemma only_oob_simps [simp]:
  "only_oob (es @ es') = only_oob es @ only_oob es'" "only_oob [] = []" "only_oob (config_effects c) = []"
  "only_oob (e # es) = (if e = OutOfBounds then OutOfBounds # only_oob es else only_oob es)"
  by (simp_all add: only_oob_def config_effects_def)

lemma only_oob_sleeps: "only_sleeps es \<Longrightarrow> only_oob es = []"
  by (simp add: only_oob_def only_sleeps_filter)

lemma only_oob_oob: "only_oob (calls (oob b w)) = only_oob (calls w) @ (if b then [OutOfBounds] else [])"
  by (simp add: oob_def)

text \<open>An answer is the ping exactly when its first five bytes are.\<close>

lemma ping_answer:
  "take 5 (memcpy (replicate 5 0 @ jk) pl (min (length pl) 20)) = ping_bytes \<longleftrightarrow> take 5 pl = ping_bytes"
proof (cases "5 \<le> length pl")
  case True
  then show ?thesis by (simp add: memcpy_take)
next
  case False
  have "memcpy (replicate 5 0 @ jk) pl (min (length pl) 20) ! length pl = 0"
    using False by (simp add: memcpy_def nth_append)
  moreover have "ping_bytes ! length pl \<noteq> 0"
  proof -
    have "length pl < 5" using False by simp
    then have "ping_bytes ! length pl \<in> set ping_bytes" by (intro nth_mem) (simp add: ping_bytes_def)
    then show ?thesis by (auto simp: ping_bytes_def)
  qed
  ultimately have "take 5 (memcpy (replicate 5 0 @ jk) pl (min (length pl) 20)) \<noteq> ping_bytes"
    using False by (metis not_le nth_take)
  moreover have "take 5 pl \<noteq> ping_bytes"
    using False by (auto simp: ping_bytes_def dest: arg_cong [of _ _ length])
  ultimately show ?thesis by simp
qed

definition rx_ping_result :: "packet option \<Rightarrow> u8" where
  "rx_ping_result pk =
     (case pk of None \<Rightarrow> - 7 | Some (pl, _) \<Rightarrow> if take 5 pl = ping_bytes then - 3 else - 4)"

text \<open>
  (C28) The receiver's ping always ends with one notification: nothing heard, the ping came back, or
  something else did. Its five-byte buffer is overrun exactly when a packet of more than five
  bytes is heard, since twenty bytes are allowed in.
\<close>

theorem rx_ping_verdict:
  fixes w :: "'a lres_scheme"
  assumes "listening 0 w" "sint (tx_power (config w)) \<le> 10 \<or> True \<in> set (conn_reads w)"
    and heard: "ping_heard pk (script w) es"
  shows "\<exists>w'. lres_wait_for_ping_return w = Some w'
    \<and> filter is_notify (calls w') = filter is_notify (calls w) @ [Notify [rx_ping_result pk]]
    \<and> only_oob (calls w') = only_oob (calls w)
        @ (case pk of Some (pl, _) \<Rightarrow> if 5 < length pl then [OutOfBounds] else [] | None \<Rightarrow> [])
    \<and> tx (config w') \<and> listening 0 w' \<and> script w' = es"
proof -
  define w0 where "w0 = configure (set_tx False (snd (lora_send ping_bytes 5 w)))"
  have w0: "listening 0 w0" "script w0 = script w" "config w0 = (config w)\<lparr>tx := False\<rparr>" "conn_reads w0 = conn_reads w"
    "filter is_notify (calls w0) = filter is_notify (calls w)" "only_oob (calls w0) = only_oob (calls w)"
    using assms(1) by (simp_all add: w0_def calls_configure)
       (simp add: configure_eq set_tx_def lora_api_defs sx12xx_lora_send_def)
  let ?buf = "replicate 5 0 @ map (rd w0 []) [0..<15]"
  let ?l = "case pk of None \<Rightarrow> - EAGAIN | Some (pl, _) \<Rightarrow> int (min (length pl) 20)"
  let ?d = "case pk of None \<Rightarrow> ?buf | Some (pl, _) \<Rightarrow> memcpy ?buf pl (min (length pl) 20)"
  have K: "K_SECONDS 3 \<noteq> K_NO_WAIT" "K_SECONDS 3 \<noteq> K_FOREVER" "timeout_ms (K_SECONDS 3) = 3000"
    by (simp_all add: K_SECONDS_def K_MSEC_def timeout_ms_def)
  have "\<exists>st w1. lora_recv ?buf 20 (K_SECONDS 3) w0 = Some (?l, ?d, st, w1)
      \<and> listening 0 w1 \<and> script w1 = es \<and> config w1 = config w0 \<and> conn_reads w1 = conn_reads w0
      \<and> filter is_notify (calls w1) = filter is_notify (calls w) \<and> only_oob (calls w1) = only_oob (calls w)"
  proof (cases pk)
    case None
    then have "unheard (timeout_ms (K_SECONDS 3)) (script w0) es" using heard w0(2) K(3) by (simp add: ping_heard_def)
    from recv_silence [OF w0(1) K(1,2) this, of ?buf 20] None w0 show ?thesis by (auto simp: listening_def)
  next
    case (Some p)
    obtain pl r q where p: "p = (pl, r, q)" by (cases p) auto
    then obtain ms where h: "script w0 = Arrive ms (pl, r, q) # es" "ms \<le> 3000" "length pl < 256"
      using heard w0(2) Some by (auto simp: ping_heard_def)
    note n = u8_min [OF h(3), of 20]
    from recv_packet [OF w0(1) K(1) h(1) _ refl, of ?buf 20] h(2) K(3) Some p w0 show ?thesis
      by (auto simp: listening_def n)
  qed
  then obtain st w1 where 1: "lora_recv ?buf 20 (K_SECONDS 3) w0 = Some (?l, ?d, st, w1)"
    "listening 0 w1" "script w1 = es" "config w1 = config w0" "conn_reads w1 = conn_reads w0"
    "filter is_notify (calls w1) = filter is_notify (calls w)" "only_oob (calls w1) = only_oob (calls w)" by blast
  let ?w1 = "oob (5 < ?l) w1"
  have "sint (tx_power (config ?w1)) \<le> 10 \<or> True \<in> set (conn_reads ?w1)"
    using assms(2) 1 w0 by (simp add: oob_def)
  from ping_pause_returns [OF this] obtain w2 where 2: "ping_pause ?w1 = Some w2" "listening 0 w2" "script w2 = es"
    "filter is_notify (calls w2) = filter is_notify (calls w)"
    "only_oob (calls w2) = only_oob (calls w) @ (if 5 < ?l then [OutOfBounds] else [])"
    using 1 by (auto simp: listening_def oob_def only_sleeps_filter only_oob_sleeps)
  have report: "(if ?l < 0 then snd (bt_lres_notify [- 7] 2 w2)
      else if take 5 ?d = ping_bytes then snd (bt_lres_notify [- 3] 2 w2)
      else snd (bt_lres_notify [- 4] 2 w2)) = call (Notify [rx_ping_result pk]) w2"
    by (simp add: rx_ping_result_def ping_answer split: option.split)
  have "lres_wait_for_ping_return w = Some (configure (set_tx True (call (Notify [rx_ping_result pk]) w2)))"
    unfolding lres_wait_for_ping_return_def Let_def w0_def [symmetric] 1(1)
    using 2(1) report by simp
  with 2 show ?thesis by (auto simp: calls_configure split: option.split)
qed

theorem rx_ping_verdict_witness:
  "\<exists>w'. lres_wait_for_ping_return (boot_lres [Arrive 900 (ping_bytes @ [0, 0], - 60, 5)] []) = Some w'
     \<and> filter is_notify (calls w') = [Notify [- 3]] \<and> only_oob (calls w') = [OutOfBounds]"
proof -
  let ?w = "boot_lres [Arrive 900 (ping_bytes @ [0, 0], - 60, 5)] []"
  have "ping_heard (Some (ping_bytes @ [0, 0], - 60, 5)) (script ?w) []" by (simp add: ping_heard_def ping_bytes_def)
  from rx_ping_verdict [OF boot_lres_listening _ this] show ?thesis
    by (auto simp: rx_ping_result_def ping_bytes_def)
qed

text \<open>
  (C29) The commands of the experiment characteristic. Five bytes set the configuration, unless one
  is already set, one byte pings, any other number of bytes is stored as the settings and starts
  the experiment thread. The arrays are left exactly with an unknown channel number in a new
  configuration and with more than eighteen bytes of settings.
\<close>

theorem settings_cb_checks:
  assumes "length (experiment_data w) = 18" and w': "w' = snd (lres_experiment_settings_cb buf w)"
  shows "(OutOfBounds \<in> set (emitted w w') \<longleftrightarrow>
      (length buf = 5 \<and> \<not> reconnect w \<and> 8 \<le> unat (buf ! 0)) \<or> 18 < length buf)
    \<and> (length buf = 5 \<longrightarrow> reconnect w' \<and> last (emitted w w') = Notify [- 2]
         \<and> config w' = (if reconnect w \<or> 8 \<le> unat (buf ! 0) then config w' else combo_config 8 True (map unat buf)))
    \<and> (length buf = 1 \<longrightarrow> last (emitted w w') = ThreadCreate 2 ''wait_for_ping_return'')
    \<and> (length buf \<notin> {1, 5} \<and> length buf \<le> 18 \<longrightarrow>
         last (emitted w w') = ThreadCreate 1 ''exec_experiment'' \<and> length (experiment_data w') = 18
         \<and> take (unat (exp_data_length w')) (experiment_data w') = buf)"
proof -
  let ?w0 = "abort_thread 0 (rx_tid w) w"
  have c0: "calls ?w0 = calls w @ (if rx_tid w then [ThreadAbort 0] else [])" "reconnect ?w0 = reconnect w"
    "experiment_data ?w0 = experiment_data w"
    by (simp_all add: abort_thread_def)
  consider "length buf = 5" | "length buf = 1" | "length buf \<notin> {1, 5}" by auto
  then show ?thesis
  proof cases
    case 1
    show ?thesis
    proof (cases "reconnect w")
      case True
      have "calls w' = calls w @ (if rx_tid w then [ThreadAbort 0] else []) @ [Notify [- 2]]" "reconnect w'"
        using 1 True c0 by (simp_all add: w' lres_experiment_settings_cb_def Let_def)
      with 1 True emittedI [OF this(1)] show ?thesis by simp
    next
      case False
      obtain es where es: "calls (config_from buf True ?w0) = calls ?w0 @ es"
        "OutOfBounds \<in> set es \<longleftrightarrow> 8 \<le> unat (buf ! 0)"
        "config_bytes buf \<Longrightarrow> config (config_from buf True ?w0) = combo_config 8 True (map unat buf)"
      proof (cases "config_bytes buf")
        case True
        then show ?thesis using that [of "[]"] by (auto simp: config_from_ok config_bytes_def)
      next
        case False
        obtain n where n: "calls (config_from buf True ?w0) = calls ?w0 @ replicate (Suc n) OutOfBounds"
          using config_from_bad [OF False] by blast
        from False 1 that [OF n] show ?thesis by (auto simp: config_bytes_def)
      qed
      have "calls w' = calls w @ (if rx_tid w then [ThreadAbort 0] else []) @ es @ [RadioInit, RadioSleep]
          @ config_effects (config w') @ [Notify [- 2]]" "reconnect w'"
        "config w' = config (config_from buf True ?w0)"
        using 1 False c0 es(1) by (simp_all add: w' lres_experiment_settings_cb_def Let_def lres_change_config_def
            calls_configure lora_api_defs sx12xx_init_def case_prod_beta)
      with 1 False emittedI [OF this(1)] es(2,3) show ?thesis
        by (auto simp: config_bytes_def config_effects_def)
    qed
  next
    case 2
    have "calls w' = calls w @ (if rx_tid w then [ThreadAbort 0] else [])
        @ (if ping_tid ?w0 then [ThreadAbort 2] else []) @ [ThreadCreate 2 ''wait_for_ping_return'']"
      using 2 c0 by (simp add: w' lres_experiment_settings_cb_def Let_def abort_thread_def)
    with 2 emittedI [OF this] show ?thesis by simp
  next
    case 3
    let ?b = "18 < length buf"
    have "calls w' = calls w @ (if rx_tid w then [ThreadAbort 0] else []) @ (if ?b then [OutOfBounds] else [])
        @ (if exp_tid ?w0 then [ThreadAbort 1] else []) @ [ThreadCreate 1 ''exec_experiment'']"
      "exp_data_length w' = of_nat (length buf)"
      "experiment_data w' = take 18 (memcpy (experiment_data w) buf (length buf))"
      using 3 by (simp_all add: w' lres_experiment_settings_cb_def Let_def abort_thread_def oob_def)
    with 3 assms(1) emittedI [OF this(1)] show ?thesis by (auto simp: memcpy_def unat_of_nat)
  qed
qed

theorem settings_cb_checks_witness:
  "take 3 (experiment_data (snd (lres_experiment_settings_cb [7, 8, 9] (boot_lres [] [])))) = [7, 8, 9]"
proof -
  have "length (experiment_data (boot_lres [] [])) = 18" by simp
  from settings_cb_checks [OF this refl, of "[7, 8, 9]"] show ?thesis
    by (auto simp: lres_experiment_settings_cb_def Let_def abort_thread_def oob_def memcpy_def numeral_eq_Suc)
qed

text \<open>
  (C30) A round of the explore mode's receiving thread: a packet that starts with \<open>&\<close> is sent back,
  with the radio in sending configuration only meanwhile; any other is reported to the phone, its
  signal first. Either way the thread listens again.
\<close>

theorem explore_round:
  fixes w :: "'a lres_scheme"
  assumes "listening 0 w" "script w = Arrive ms (pl, rssi, snr) # es" "pl \<noteq> []" "length pl < 256"
    and "length data = 20"
    and l: "l = min (length pl) 20" and data': "data' = memcpy data pl l"
  shows "\<exists>sig' w'. lres_receive_round (data, sig, w) = Some (data', sig', w')
    \<and> listening 0 w' \<and> script w' = es \<and> length data' = 20 \<and> take l data' = take l pl
    \<and> filter is_told (calls w') = filter is_told (calls w) @
        (if pl ! 0 = 38
         then config_effects ((config w)\<lparr>tx := True\<rparr>) @ Send data' (of_nat l) # config_effects ((config w)\<lparr>tx := False\<rparr>)
         else [Notify [- 1, ucast (- rssi), snr, - 1], Notify data'])"
proof -
  note n = u8_min [OF assms(4), of 20]
  obtain w1 where rx: "lora_recv data 20 K_FOREVER w = Some (int l, data', Some (rssi, snr), w1)"
    and w1: "listening 0 w1" "script w1 = es" "config w1 = config w"
      "calls w1 = calls w @ [SetMaxPayloadLength 255, Rx 0, RadioSleep]"
    using recv_packet [OF assms(1) _ assms(2) _ refl, of K_FOREVER data 20] assms(1)
    by (auto simp: n l data' listening_def)
  have d: "data' ! 0 = pl ! 0" "length data' = 20" "take 20 data' = data'" "take l data' = take l pl"
    using assms(3,5) l by (auto simp: data' memcpy_nth memcpy_length memcpy_take)
  have u: "ucast (ucast (ucast (- rssi) :: u8) :: u16) = (ucast (- rssi) :: u8)"
    by (rule bit_word_eqI) (simp add: bit_simps)
  show ?thesis
    using w1 d by (auto simp: lres_receive_round_def rx Let_def calls_configure u)
qed

theorem explore_round_witness:
  "\<exists>sig' w'. lres_receive_round (replicate 20 0, (0, 0), boot_lres [Arrive 10 ([72, 105], - 70, 8)] []) =
     Some ([72, 105] @ replicate 18 0, sig', w')
     \<and> filter is_told (calls w') = [Notify [- 1, 70, 8, - 1], Notify ([72, 105] @ replicate 18 0)]"
proof -
  have "script (boot_lres [Arrive 10 ([72, 105], - 70, 8)] []) = Arrive 10 ([72, 105], - 70, 8) # []" by simp
  from explore_round [OF boot_lres_listening this _ _ _ refl refl, of "replicate 20 0" "(0, 0)"]
  show ?thesis by (auto simp: memcpy_def)
qed

end
