(* ===== verification/Phone.thy ===== *)
theory Phone
  imports LoraEval
begin

text \<open>
  The phone's side of an experiment, the Java application under \<open>LoRaVisual\<close>: the form an experiment is
  entered in (\<open>CustomizeExperimentsScreen\<close>), the encoding of its check boxes (\<open>Encoder\<close>), the row
  it is stored as (\<open>DatabaseHandler\<close>), the settings sent to the receiving board and the notifications
  it sends back (\<open>StartExperimentScreen\<close>, \<open>Central\<close>). The database and the platform's decoding of text are
  arguments. Java's \<open>byte\<close> is an 8-bit word read as signed, \<open>int\<close> arithmetic wraps at 32 bits. A method
  ends with a value, early with a toast, or with an exception. What is only shown on the screen
  is left out. Shown here: the settings bytes select the boxes that were ticked, the
  iterations the phone announces are those of the boards, and what it logs of a notification.
\<close>

section \<open>Java\<close>

datatype stop = Toast string | Exception string

type_synonym 'a java = "stop + 'a"

fun java_bind :: "'a java \<Rightarrow> ('a \<Rightarrow> 'b java) \<Rightarrow> 'b java" where
  "java_bind (Inl e) f = Inl e"
| "java_bind (Inr x) f = f x"

lemma java_bind_Inr [simp]: "java_bind m f = Inr y \<longleftrightarrow> (\<exists>x. m = Inr x \<and> f x = Inr y)"
  by (cases m) auto

definition jint :: "int \<Rightarrow> int" where
  "jint x = signed_take_bit 31 x"

text \<open>Decimal numerals: \<open>toString\<close> of the integer classes, \<open>Integer.parseInt\<close> and \<open>Byte.parseByte\<close>.\<close>

fun nat_text :: "nat \<Rightarrow> string" where
  "nat_text n = (if n < 10 then [char_of (48 + n)] else nat_text (n div 10) @ [char_of (48 + n mod 10)])"

declare nat_text.simps [simp del]

definition to_text :: "int \<Rightarrow> string" where
  "to_text i = (if i < 0 then CHR ''-'' # nat_text (nat (- i)) else nat_text (nat i))"

fun digits_value :: "nat \<Rightarrow> string \<Rightarrow> nat option" where
  "digits_value a [] = Some a"
| "digits_value a (c # cs) =
     (if 48 \<le> (of_char c :: nat) \<and> (of_char c :: nat) \<le> 57 then digits_value (10 * a + (of_char c - 48)) cs else None)"

definition parse_decimal :: "string \<Rightarrow> int option" where
  "parse_decimal s =
     (case s of
        [] \<Rightarrow> None
      | c # r \<Rightarrow>
          if c = CHR ''-'' then (if r = [] then None else map_option (\<lambda>n. - int n) (digits_value 0 r))
          else if c = CHR ''+'' then (if r = [] then None else map_option int (digits_value 0 r))
          else map_option int (digits_value 0 s))"

definition parse_range :: "int \<Rightarrow> int \<Rightarrow> string \<Rightarrow> int java" where
  "parse_range lo hi s =
     (case parse_decimal s of
        Some i \<Rightarrow> if lo \<le> i \<and> i \<le> hi then Inr i else Inl (Exception ''NumberFormatException'')
      | None \<Rightarrow> Inl (Exception ''NumberFormatException''))"

abbreviation parseInt :: "string \<Rightarrow> int java" where
  "parseInt \<equiv> parse_range (- 2147483648) 2147483647"

definition parseByte :: "string \<Rightarrow> u8 java" where
  "parseByte s = java_bind (parse_range (- 128) 127 s) (\<lambda>i. Inr (of_int i))"

definition parseBoolean :: "string \<Rightarrow> bool" where
  "parseBoolean s \<longleftrightarrow>
     map (\<lambda>c. if 65 \<le> (of_char c :: nat) \<and> (of_char c :: nat) \<le> 90 then char_of ((of_char c :: nat) + 32) else c) s = ''true''"

text \<open>\<open>getBytes\<close> of a numeral, whose characters are ASCII.\<close>

definition getBytes :: "string \<Rightarrow> u8 list" where
  "getBytes s = map (\<lambda>c. of_nat (of_char c)) s"

section \<open>Encoding the check boxes\<close>

definition encodeParamByte :: "bool list \<Rightarrow> u8" where
  "encodeParamByte configs =
     fold (\<lambda>i confByte. if configs ! i then ucast ((scast confByte :: u32) OR push_bit (i mod 32) 1) else confByte)
       [0..<length configs] 0"

text \<open>The names of the values, \<open>res/values/strings.xml\<close>.\<close>

definition parameter_names :: "string list list" where
  "parameter_names =
     [[''869.5 MHz'', ''868.1 MHz'', ''868.3 MHz'', ''868.5 MHz'', ''867.1 MHz'', ''867.3 MHz'', ''867.5 MHz'', ''867.7 MHz''],
      [''125 kHz'', ''250 kHz'', ''500 kHz''],
      [''7'', ''8'', ''9'', ''10'', ''11'', ''12''],
      [''4/5'', ''4/6'', ''4/7'', ''4/8''],
      [''18'', ''16'', ''14'', ''12'', ''10'', ''8'', ''6'', ''4'']]"

text \<open>The text shown for a parameter and the number of its values.\<close>

definition decodeConfigByte :: "nat \<Rightarrow> u8 \<Rightarrow> (string \<times> int) java" where
  "decodeConfigByte param bits =
     (let strings1 = parameter_names ! param;
          on = filter (\<lambda>i. signed_drop_bit i (scast bits :: u32) AND 1 = 1) [0..<8];
          summary = '' '' @ concat (map (\<lambda>i. strings1 ! i @ '', '') on)
      in if \<exists>i \<in> set on. length strings1 \<le> i then Inl (Exception ''ArrayIndexOutOfBoundsException'')
         else if length summary < 2 then Inl (Exception ''StringIndexOutOfBoundsException'')
         else Inr (take (length summary - 2) summary, int (length on)))"

section \<open>The form\<close>

record form =
  noMsgs :: string
  timeBetween :: string
  msgLength :: string
  autoIncrement :: bool
  description :: string
  distance :: string
  heightSender :: string
  heightReceiver :: string
  environment :: string
  boxes :: "bool list list"

text \<open>The boxes are those of the layout: eight frequencies, two bandwidths, and so on.\<close>

definition form_wf :: "form \<Rightarrow> bool" where
  "form_wf f \<longleftrightarrow> map length (boxes f) = [8, 2, 6, 4, 8]"

definition allParametersHaveOneChecked :: "form \<Rightarrow> bool" where
  "allParametersHaveOneChecked f \<longleftrightarrow> list_all (list_ex id) (boxes f)"

text \<open>The values \<open>logExperiment\<close> inserts, by column.\<close>

definition logExperiment :: "form \<Rightarrow> string list \<Rightarrow> (string \<times> string) list" where
  "logExperiment f params =
     [(''number_of_messages'', noMsgs f), (''time_between_msgs'', timeBetween f), (''msg_length'', msgLength f),
      (''payload_seed'', ''0''), (''auto_increment'', if autoIncrement f then ''true'' else ''false''),
      (''description'', description f), (''target_distance'', distance f), (''sender_height'', heightSender f),
      (''receiver_height'', heightReceiver f), (''environment'', environment f), (''state'', ''ready''),
      (''frequencies'', params ! 0), (''bandwidths'', params ! 1), (''spreading_factors'', params ! 2),
      (''coding_rates'', params ! 3), (''powers'', params ! 4)]"

definition experimentReady :: "form \<Rightarrow> ((string \<times> string) list) java" where
  "experimentReady f =
     java_bind (if noMsgs f = [] then Inr True
                else java_bind (parseInt (noMsgs f)) (\<lambda>n. Inr (n < 1 \<or> n > 100)))
      (\<lambda>bad. if bad then Inl (Toast ''Please specify the number of messages (between 1 and 100)'')
       else if timeBetween f = [] then Inl (Toast ''Please specify the time between messages'')
       else java_bind (if msgLength f = [] then Inr True
                       else java_bind (parseInt (msgLength f)) (\<lambda>l. java_bind (parseInt (noMsgs f)) (\<lambda>n. Inr (l < 11 \<or> n > 100))))
        (\<lambda>bad. if bad then Inl (Toast ''Please specify a message length between 11 and 100'')
         else if distance f = [] then Inl (Toast ''Please specify the distance'')
         else if environment f = [] then Inl (Toast ''Please specify the environment'')
         else if \<not> allParametersHaveOneChecked f then Inl (Toast ''Please check at least one box in every category'')
         else Inr (logExperiment f (map (\<lambda>b. to_text (sint (encodeParamByte b))) (boxes f)))))"

section \<open>The database\<close>

text \<open>
  The columns in the order of \<open>CREATE TABLE\<close>. The database is a function that gives the columns of a
  row; \<open>row_stored\<close> is what SQL promises of a row after its insertion: each column has the value
  inserted for its name.
\<close>

definition experiment_columns :: "string list" where
  "experiment_columns =
     [''_id'', ''number_of_messages'', ''time_between_msgs'', ''msg_length'', ''payload_seed'', ''auto_increment'',
      ''description'', ''target_distance'', ''sender_height'', ''receiver_height'', ''environment'', ''state'',
      ''frequencies'', ''bandwidths'', ''spreading_factors'', ''coding_rates'', ''powers'',
      ''number_of_iterations'', ''duration'', ''start_time'', ''sender_latitude'', ''sender_longitude'',
      ''sender_altitude'', ''receiver_latitude'', ''receiver_longitude'', ''receiver_altitude'',
      ''actual_distance'', ''altitude_difference'', ''temperature_values'', ''humidity_values'', ''pressure_values'',
      ''weather_descriptions'', ''sender_orientation'', ''receiver_orientation'']"

definition row_stored :: "(int \<Rightarrow> nat \<Rightarrow> string) \<Rightarrow> int \<Rightarrow> (string \<times> string) list \<Rightarrow> bool" where
  "row_stored getString absPos vals \<longleftrightarrow>
     (\<forall>i < length experiment_columns. \<forall>v. map_of vals (experiment_columns ! i) = Some v \<longrightarrow> getString absPos i = v)"

definition getExperimentInfo :: "(int \<Rightarrow> nat \<Rightarrow> string) \<Rightarrow> int \<Rightarrow> string list" where
  "getExperimentInfo getString absPos = map (getString absPos) [0..<34]"

abbreviation (input) "NUMBER_OF_MESSAGES \<equiv> (1 :: nat)"
abbreviation (input) "TIME_BETWEEN_MSGS \<equiv> (2 :: nat)"
abbreviation (input) "AUTO_INCREMENT \<equiv> (5 :: nat)"
abbreviation (input) "FREQUENCIES \<equiv> (12 :: nat)"

section \<open>Starting an experiment\<close>

record summary =
  multipliers :: "int list"
  totalMsgs :: int
  iterations :: int
  duration :: int
  updates :: "(string \<times> string) list"

fun each_param :: "(nat \<Rightarrow> 'a java) \<Rightarrow> nat list \<Rightarrow> ('a list) java" where
  "each_param f [] = Inr []"
| "each_param f (i # is) = java_bind (f i) (\<lambda>x. java_bind (each_param f is) (\<lambda>xs. Inr (x # xs)))"

text \<open>
  Called once, when the screen is created, with all multipliers 0. The two columns it
  sets in the experiment's row are \<open>updates\<close>.
\<close>

definition initSummary :: "string list \<Rightarrow> summary java" where
  "initSummary entry =
     java_bind (parseInt (entry ! NUMBER_OF_MESSAGES)) (\<lambda>m5.
     java_bind (parseInt (entry ! TIME_BETWEEN_MSGS)) (\<lambda>m6.
     java_bind (each_param (\<lambda>p. java_bind (parseByte (entry ! (FREQUENCIES + p))) (decodeConfigByte p)) [0..<5]) (\<lambda>ps.
       let ms = map snd ps;
           its = fold (\<lambda>m n. jint (n * m)) ms 1;
           tot = fold (\<lambda>m n. jint (n * m)) (ms @ [m5]) 1;
           dur = jint (jint (tot * m6) + jint (5 * its))
       in Inr \<lparr>multipliers = ms @ [m5, m6], totalMsgs = tot, iterations = its, duration = dur,
               updates = [(''number_of_iterations'', to_text its), (''duration'', to_text dur)]\<rparr>)))"

definition createSettingsBytes :: "string list \<Rightarrow> int \<Rightarrow> (u8 list) java" where
  "createSettingsBytes entry total_ms =
     java_bind (each_param (\<lambda>i. parseByte (entry ! (i + NUMBER_OF_MESSAGES))) [0..<3]) (\<lambda>msg.
     java_bind (each_param (\<lambda>i. parseByte (entry ! (i + FREQUENCIES))) [0..<5]) (\<lambda>params.
       Inr (msg @ [if parseBoolean (entry ! AUTO_INCREMENT) then 1 else 0] @ params
            @ getBytes (to_text (if total_ms < 0 then - (- total_ms div 1000) else total_ms div 1000)))))"

text \<open>
  The screen that follows an experiment: the delay that was set, the half-filled row, the rows logged, the flags, and the
  countdowns started. \<open>msgs\<close> is \<open>multipliers[5]\<close>.
\<close>

record monitor =
  msgs :: int
  total :: int
  dbEntries :: "(string option list) option"
  transmissions :: "string option list list"
  screen_ready :: bool
  connToastsDeactivated :: bool
  countdowns :: "int list"

text \<open>
  The button: \<open>conf\<close> is \<open>ConfigSetter.config\<close>, whose last entry below 4 stands for a power over 10 dBm;
  the result is what is written to the board's characteristic.
\<close>

definition startExperiment ::
    "string list \<Rightarrow> u8 list \<Rightarrow> string \<Rightarrow> string \<Rightarrow> string \<Rightarrow> monitor \<Rightarrow> monitor \<times> (u8 list) java" where
  "startExperiment entry conf hours minutes seconds m =
     (case java_bind (parseInt hours) (\<lambda>hoursD. java_bind (parseInt minutes) (\<lambda>minutesD. java_bind (parseInt seconds) (\<lambda>secondsD.
             if minutesD > 59 \<or> secondsD > 59 \<or> minutesD < 0 \<or> secondsD < 0 \<or> hoursD < 0
             then Inl (Toast ''Number of seconds and minutes must be smaller than 60 and positive'')
             else Inr (jint (jint (jint (jint (hoursD * 3600) + jint (minutesD * 60)) + secondsD) * 1000))))) of
        Inl e \<Rightarrow> (m, Inl e)
      | Inr t \<Rightarrow>
          let m = m\<lparr>total := t\<rparr>
          in case createSettingsBytes entry (if sint (conf ! 4) < 4 then t + 17000 else t) of
               Inl e \<Rightarrow> (m, Inl e)
             | Inr expSettings \<Rightarrow>
                 if screen_ready m then (m\<lparr>connToastsDeactivated := True\<rparr>, Inr expSettings)
                 else (m, Inl (Toast ''devices not ready'')))"

section \<open>Notifications\<close>

datatype broadcast = General int | RssiSnr "u8 list" | LoraMsg "u8 list" | Ignored

text \<open>The text before the last full stop; all of it is dropped where there is none.\<close>

definition filterContent :: "u8 list \<Rightarrow> u8 list" where
  "filterContent msg = take (fold (\<lambda>i index. if msg ! i = 46 then i else index) [0..<length msg] 0) msg"

definition onCharacteristicChanged :: "bool \<Rightarrow> u8 list \<Rightarrow> broadcast java" where
  "onCharacteristicChanged receiver bytes =
     (if bytes = [] then Inl (Exception ''ArrayIndexOutOfBoundsException'')
      else if sint (bytes ! 0) = - 2 then Inr (General (- 2))
      else if sint (bytes ! 0) \<in> {- 3, - 4, - 5, - 6} then Inr (General (sint (bytes ! 0)))
      else if receiver
      then Inr (if sint (bytes ! 0) = - 1 then RssiSnr bytes else LoraMsg (filterContent bytes))
      else Inr Ignored)"

definition makeByteUnsigned :: "u8 \<Rightarrow> int" where
  "makeByteUnsigned b = uint b"

definition log_or_keep :: "string option list \<Rightarrow> monitor \<Rightarrow> monitor" where
  "log_or_keep entries m =
     (if dbEntries m = None then m\<lparr>dbEntries := Some entries\<rparr>
      else m\<lparr>transmissions := transmissions m @ [entries], dbEntries := None\<rparr>)"

definition half_row :: "monitor \<Rightarrow> string option list" where
  "half_row m = (case dbEntries m of None \<Rightarrow> replicate 5 None | Some es \<Rightarrow> es)"

definition on_rssi :: "u8 list \<Rightarrow> monitor \<Rightarrow> monitor java" where
  "on_rssi bytes m =
     (if length bytes < 4 then Inl (Exception ''ArrayIndexOutOfBoundsException'')
      else Inr (log_or_keep ((half_row m)
                 [2 := Some (''-'' @ to_text (makeByteUnsigned (bytes ! 1))),
                  3 := Some (to_text (sint (bytes ! 2))),
                  4 := Some (to_text (makeByteUnsigned (bytes ! 3)))]) m))"

definition on_msg :: "(u8 list \<Rightarrow> string) \<Rightarrow> u8 list \<Rightarrow> monitor \<Rightarrow> monitor java" where
  "on_msg new_String bytes m =
     (if length bytes < 12 then Inl (Exception ''ArrayIndexOutOfBoundsException'')
      else if length (new_String bytes) < 10 then Inl (Exception ''StringIndexOutOfBoundsException'')
      else
        let totalNumber = to_text (jint (sint (bytes ! 11) + jint (sint (bytes ! 10) * msgs m)));
            msg = take 10 (new_String bytes)
        in Inr (log_or_keep ((half_row m)[0 := Some totalNumber, 1 := Some msg]) m))"

definition on_general :: "int \<Rightarrow> monitor \<Rightarrow> monitor" where
  "on_general status m =
     (let m = (if status = - 2 then m\<lparr>screen_ready := True\<rparr>
               else if status = - 6 then m\<lparr>countdowns := countdowns m @ [total m]\<rparr> else m)
      in if status = - 3 \<or> status = - 4 \<or> status = - 7 then m\<lparr>connToastsDeactivated := False\<rparr> else m)"

definition on_notification :: "(u8 list \<Rightarrow> string) \<Rightarrow> u8 list \<Rightarrow> monitor \<Rightarrow> monitor java" where
  "on_notification new_String bytes m =
     java_bind (onCharacteristicChanged True bytes) (\<lambda>b.
       case b of
         General status \<Rightarrow> Inr (on_general status m)
       | RssiSnr bs \<Rightarrow> on_rssi bs m
       | LoraMsg bs \<Rightarrow> on_msg new_String bs m
       | Ignored \<Rightarrow> Inr m)"

section \<open>Numerals\<close>

lemma digits_value_append: "digits_value a (xs @ ys) = Option.bind (digits_value a xs) (\<lambda>b. digits_value b ys)"
  by (induction xs arbitrary: a) auto

lemma of_char_digit: "d < 10 \<Longrightarrow> (of_char (char_of (48 + d)) :: nat) = 48 + d"
  by simp

lemma digits_value_text: "digits_value 0 (nat_text n) = Some n"
proof (induction n rule: nat_text.induct)
  case (1 n)
  show ?case
  proof (cases "n < 10")
    case True
    then show ?thesis by (simp add: nat_text.simps [of n])
  next
    case False
    then show ?thesis using 1 [OF False] by (simp add: nat_text.simps [of n] digits_value_append)
  qed
qed

lemma nat_text_digits: "nat_text n \<noteq> [] \<and> (\<forall>c \<in> set (nat_text n). 48 \<le> (of_char c :: nat) \<and> (of_char c :: nat) \<le> 57)"
proof (induction n rule: nat_text.induct)
  case (1 n)
  then show ?case by (cases "n < 10") (auto simp: nat_text.simps [of n])
qed

lemma parse_decimal_text [simp]: "parse_decimal (to_text i) = Some i"
proof (cases "i < 0")
  case True
  then show ?thesis using nat_text_digits [of "nat (- i)"] by (simp add: to_text_def parse_decimal_def digits_value_text)
next
  case False
  obtain c r where t: "nat_text (nat i) = c # r" using nat_text_digits [of "nat i"] by (cases "nat_text (nat i)") auto
  have "c \<noteq> CHR ''-''" "c \<noteq> CHR ''+''" using nat_text_digits [of "nat i"] t by auto
  then show ?thesis using False digits_value_text [of "nat i"] by (simp add: to_text_def parse_decimal_def t)
qed

lemma parseByte_text: "parseByte (to_text (sint b)) = Inr b"
  using sint_greater_eq [of b] sint_less [of b] by (simp add: parseByte_def parse_range_def)

lemma parse_ranges:
  "parse_range lo hi s = Inr i \<longleftrightarrow> parse_decimal s = Some i \<and> lo \<le> i \<and> i \<le> hi"
  by (auto simp: parse_range_def split: option.splits if_splits)

section \<open>Check boxes\<close>

lemma bit_scast_low: "i < 8 \<Longrightarrow> bit (scast (c :: u8) :: u32) i \<longleftrightarrow> bit c i"
  by (cases "i = 7") (auto simp: bit_simps min_def)

lemma bit_encodeParamByte:
  assumes "length bs \<le> 8"
  shows "bit (encodeParamByte bs) i \<longleftrightarrow> i < length bs \<and> bs ! i"
proof -
  define f where "f i (c :: u8) = (if bs ! i then ucast ((scast c :: u32) OR push_bit (i mod 32) 1) else c)" for i c
  have "bit (fold f [0..<n] 0) i \<longleftrightarrow> i < n \<and> bs ! i" if "n \<le> 8" for n
    using that
  proof (induction n)
    case (Suc n)
    then have "bit (f n c) i \<longleftrightarrow> bit c i \<or> (i = n \<and> bs ! n)" for c
    proof (cases "i < 8")
      case True
      then show ?thesis using Suc.prems
        by (auto simp: f_def bit_ucast_iff bit_or_iff bit_scast_low bit_exp_iff)
    next
      case False
      then show ?thesis using Suc.prems by (auto dest: bit_imp_le_length)
    qed
    with Suc show ?case by (auto simp: less_Suc_eq)
  qed simp
  moreover have "encodeParamByte bs = fold f [0..<length bs] 0" by (simp add: encodeParamByte_def f_def [abs_def])
  ultimately show ?thesis using assms by simp
qed

lemma decode_bits: "i < 8 \<Longrightarrow> signed_drop_bit i (scast bits :: u32) AND 1 = 1 \<longleftrightarrow> bit (bits :: u8) i"
proof -
  assume i: "i < 8"
  have "signed_drop_bit i (scast bits :: u32) AND 1 = 1 \<longleftrightarrow> bit (signed_drop_bit i (scast bits :: u32)) 0"
    by (simp add: and_one_eq bit_0 odd_iff_mod_2_eq_one)
  also have "\<dots> \<longleftrightarrow> bit (scast bits :: u32) i" using i by (simp add: bit_signed_drop_bit_iff)
  finally show ?thesis using bit_scast_low [OF i] by simp
qed

lemma decodeConfigByte_count:
  assumes "param < 5" "length bs \<le> length (parameter_names ! param)" "list_ex id bs"
  shows "\<exists>t. decodeConfigByte param (encodeParamByte bs) = Inr (t, int (length (filter ((!) bs) [0..<length bs])))"
proof -
  have len: "length bs \<le> 8" using assms(1,2) by (auto simp: parameter_names_def less_Suc_eq numeral_eq_Suc)
  let ?on = "filter ((!) bs) [0..<length bs]"
  have on: "filter (\<lambda>i. signed_drop_bit i (scast (encodeParamByte bs) :: u32) AND 1 = 1) [0..<8] = ?on"
  proof -
    have "[0..<8] = [0..<length bs] @ [length bs..<8]" using len upt_add_eq_append [of 0 "length bs" "8 - length bs"] by simp
    then have "filter (\<lambda>i. i < length bs \<and> bs ! i) [0..<8] = ?on" by (auto simp: filter_empty_conv intro!: filter_cong)
    moreover have "filter (\<lambda>i. signed_drop_bit i (scast (encodeParamByte bs) :: u32) AND 1 = 1) [0..<8]
        = filter (\<lambda>i. i < length bs \<and> bs ! i) [0..<8]"
      by (rule filter_cong) (auto simp: decode_bits bit_encodeParamByte [OF len])
    ultimately show ?thesis by simp
  qed
  obtain i where i: "i < length bs" "bs ! i" using assms(3) by (auto simp: list_ex_iff in_set_conv_nth)
  then have "?on \<noteq> []" by (auto simp: filter_empty_conv)
  then have "2 \<le> length ('' '' @ concat (map (\<lambda>i. parameter_names ! param ! i @ '', '') ?on))" by (cases ?on) auto
  moreover have "\<not> (\<exists>i \<in> set ?on. length (parameter_names ! param) \<le> i)" using assms(2) by auto
  ultimately show ?thesis using i by (auto simp: decodeConfigByte_def on Let_def)
qed

text \<open>The combinations of the boards are the choices of one ticked box each.\<close>

definition ticked :: "bool list \<Rightarrow> nat list" where
  "ticked bs = filter ((!) bs) [0..<length bs]"

lemma filter_encoded:
  assumes "length bs \<le> n" "n \<le> 8"
  shows "filter (bit_set (encodeParamByte bs)) [0..<n] = ticked bs"
proof -
  have "[0..<n] = [0..<length bs] @ [length bs..<n]" using assms upt_add_eq_append [of 0 "length bs" "n - length bs"] by simp
  then show ?thesis
    using assms by (auto simp: ticked_def bit_set_iff bit_encodeParamByte filter_empty_conv intro!: filter_cong)
qed

lemma combos_ticked:
  assumes "form_wf f" "length msg = 4"
  shows "combos (msg @ map encodeParamByte (boxes f) @ r) = product_lists (map ticked (boxes f))"
proof -
  obtain a b c d e where bx: "boxes f = [a, b, c, d, e]" "length a = 8" "length b = 2" "length c = 6" "length d = 4" "length e = 8"
    using assms(1) by (auto simp: form_wf_def map_eq_Cons_conv)
  have "masks (msg @ map encodeParamByte (boxes f) @ r) =
      [(encodeParamByte a, 8), (encodeParamByte b, 3), (encodeParamByte c, 6), (encodeParamByte d, 4), (encodeParamByte e, 8)]"
    using assms(2) by (simp add: masks_def bx nth_append)
  then show ?thesis by (simp add: combos_def bx filter_encoded)
qed

section \<open>From the form to the boards\<close>

lemma form_accepted:
  assumes "experimentReady f = Inr vals"
  obtains nm ml where "parseInt (noMsgs f) = Inr nm" "1 \<le> nm" "nm \<le> 100" "parseInt (msgLength f) = Inr ml" "11 \<le> ml"
    "list_all (list_ex id) (boxes f)" "vals = logExperiment f (map (\<lambda>b. to_text (sint (encodeParamByte b))) (boxes f))"
  using assms by (auto simp: experimentReady_def allParametersHaveOneChecked_def not_less split: if_splits) (metis not_le)

text \<open>The columns the settings are made of.\<close>

lemma stored_entry:
  assumes "row_stored getString pos (logExperiment f ps)"
  shows "getExperimentInfo getString pos ! 1 = noMsgs f" "getExperimentInfo getString pos ! 2 = timeBetween f"
    "getExperimentInfo getString pos ! 3 = msgLength f"
    "getExperimentInfo getString pos ! 5 = (if autoIncrement f then ''true'' else ''false'')"
    "p < 5 \<Longrightarrow> getExperimentInfo getString pos ! (12 + p) = ps ! p"
proof -
  have col: "getExperimentInfo getString pos ! i = v" if "i < 34" "map_of (logExperiment f ps) (experiment_columns ! i) = Some v" for i v
    using assms that by (auto simp: row_stored_def getExperimentInfo_def experiment_columns_def)
  show "getExperimentInfo getString pos ! 1 = noMsgs f" "getExperimentInfo getString pos ! 2 = timeBetween f"
    "getExperimentInfo getString pos ! 3 = msgLength f"
    "getExperimentInfo getString pos ! 5 = (if autoIncrement f then ''true'' else ''false'')"
    by (rule col; simp add: logExperiment_def experiment_columns_def)+
  show "getExperimentInfo getString pos ! (12 + p) = ps ! p" if p: "p < 5"
  proof -
    consider "p = 0" | "p = 1" | "p = 2" | "p = 3" | "p = 4" using p by linarith
    then show ?thesis by cases (rule col; simp add: logExperiment_def experiment_columns_def)+
  qed
qed

lemma parseByte_ok: "parseInt s = Inr i \<Longrightarrow> - 128 \<le> i \<Longrightarrow> i \<le> 127 \<Longrightarrow> parseByte s = Inr (of_int i)"
  by (simp add: parseByte_def parse_ranges)

lemma upt_small: "[0..<3] = [0, 1, 2 :: nat]" "[0..<5] = [0, 1, 2, 3, 4 :: nat]"
  by (simp_all add: upt_rec)

lemma createSettingsBytes_form:
  assumes f: "form_wf f" "experimentReady f = Inr vals" "row_stored getString pos vals"
    and typed: "parseInt (noMsgs f) = Inr nm" "parseInt (timeBetween f) = Inr tb" "parseInt (msgLength f) = Inr ml"
      "- 128 \<le> tb" "tb \<le> 127" "ml \<le> 127" and "0 \<le> ms"
  shows "createSettingsBytes (getExperimentInfo getString pos) ms =
    Inr ([of_int nm, of_int tb, of_int ml, if autoIncrement f then 1 else 0] @ map encodeParamByte (boxes f)
         @ getBytes (to_text (ms div 1000)))"
proof -
  obtain nm' ml' where acc: "parseInt (noMsgs f) = Inr nm'" "1 \<le> nm'" "nm' \<le> 100" "parseInt (msgLength f) = Inr ml'" "11 \<le> ml'"
    "vals = logExperiment f (map (\<lambda>b. to_text (sint (encodeParamByte b))) (boxes f))"
    using form_accepted [OF f(2)] by metis
  have nm: "nm' = nm" "ml' = ml" using acc(1,4) typed(1,3) by simp_all
  note e = stored_entry [OF f(3) [unfolded acc(6)]]
  have len: "length (boxes f) = 5" using arg_cong [OF f(1) [unfolded form_wf_def], of length] by simp
  then obtain a b c d g where bx: "boxes f = [a, b, c, d, g]" by (auto simp: length_Suc_conv numeral_eq_Suc)
  have params: "parseByte (getExperimentInfo getString pos ! (i + 12)) = Inr (encodeParamByte (boxes f ! i))" if "i < 5" for i
    using e(5) [OF that] that len by (simp add: parseByte_text add.commute)
  have "parseByte (noMsgs f) = Inr (of_int nm)" "parseByte (timeBetween f) = Inr (of_int tb)" "parseByte (msgLength f) = Inr (of_int ml)"
    using typed acc(2,3,5) nm by (simp_all add: parseByte_ok)
  then have "each_param (\<lambda>i. parseByte (getExperimentInfo getString pos ! (i + 1))) [0..<3] = Inr [of_int nm, of_int tb, of_int ml]"
    unfolding upt_small using e(1-3) by (simp add: numeral_2_eq_2 numeral_3_eq_3)
  moreover have "each_param (\<lambda>i. parseByte (getExperimentInfo getString pos ! (i + 12))) [0..<5] = Inr (map encodeParamByte (boxes f))"
    unfolding upt_small each_param.simps using params [of 0] params [of 1] params [of 2] params [of 3] params [of 4]
    by (simp add: bx)
  moreover have "parseBoolean (getExperimentInfo getString pos ! 5) = autoIncrement f"
    unfolding e(4) by (simp add: parseBoolean_def)
  ultimately show ?thesis using \<open>0 \<le> ms\<close> by (simp add: createSettingsBytes_def)
qed

lemma jint_id: "- 2147483648 \<le> x \<Longrightarrow> x < 2147483648 \<Longrightarrow> jint x = x"
  by (simp add: jint_def signed_take_bit_int_eq_self)

lemma length_product_lists: "length (product_lists xss) = prod_list (map length xss)"
  by (induction xss) (simp_all add: length_concat comp_def sum_list_triv)

lemma fold_jint:
  assumes "\<forall>m \<in> set ms. 0 \<le> m \<and> m \<le> 8" "0 \<le> a" "a * 8 ^ length ms < 2147483648"
  shows "fold (\<lambda>m n. jint (n * m)) ms a = a * prod_list ms \<and> a * prod_list ms \<le> a * 8 ^ length ms \<and> 0 \<le> a * prod_list ms"
  using assms
proof (induction ms arbitrary: a)
  case (Cons m ms)
  have am: "0 \<le> a * m" "a * m \<le> a * 8" using Cons.prems by (auto intro: mult_left_mono)
  have "a * m * 8 ^ length ms \<le> a * 8 * 8 ^ length ms" using am(2) by (intro mult_right_mono) simp_all
  then have lt: "a * m * 8 ^ length ms < 2147483648" using Cons.prems(3) by (simp add: mult.assoc)
  moreover have "a * m \<le> a * m * 8 ^ length ms" using am(1) mult_left_mono [of 1 "8 ^ length ms" "a * m"] by simp
  ultimately have "jint (a * m) = a * m" using am(1) by (intro jint_id) simp_all
  moreover have "a * m * 8 ^ length ms \<le> a * 8 ^ length (m # ms)"
    using \<open>a * m * 8 ^ length ms \<le> a * 8 * 8 ^ length ms\<close> by (simp add: mult.assoc)
  ultimately show ?case using Cons.IH [of "a * m"] Cons.prems(1) am(1) lt by (auto simp: mult.assoc)
qed simp

lemma initSummary_form:
  assumes f: "form_wf f" "experimentReady f = Inr vals" "row_stored getString pos vals"
    and typed: "parseInt (noMsgs f) = Inr nm" "parseInt (timeBetween f) = Inr tb" "- 128 \<le> tb" "tb \<le> 127"
  defines "its \<equiv> int (length (product_lists (map ticked (boxes f))))"
  shows "initSummary (getExperimentInfo getString pos) =
    Inr \<lparr>multipliers = map (\<lambda>b. int (length (ticked b))) (boxes f) @ [nm, tb], totalMsgs = its * nm,
         iterations = its, duration = its * nm * tb + 5 * its,
         updates = [(''number_of_iterations'', to_text its), (''duration'', to_text (its * nm * tb + 5 * its))]\<rparr>"
proof -
  obtain nm' ml' where acc: "parseInt (noMsgs f) = Inr nm'" "1 \<le> nm'" "nm' \<le> 100" "list_all (list_ex id) (boxes f)"
    "vals = logExperiment f (map (\<lambda>b. to_text (sint (encodeParamByte b))) (boxes f))"
    using form_accepted [OF f(2)] by metis
  have nm: "1 \<le> nm" "nm \<le> 100" using acc(1-3) typed(1) by simp_all
  note e = stored_entry [OF f(3) [unfolded acc(5)]]
  obtain a b c d g where bx: "boxes f = [a, b, c, d, g]" "length a = 8" "length b = 2" "length c = 6" "length d = 4" "length g = 8"
    using f(1) by (auto simp: form_wf_def map_eq_Cons_conv)
  define cnt where "cnt p = int (length (ticked (boxes f ! p)))" for p
  have "\<exists>t. java_bind (parseByte (getExperimentInfo getString pos ! (12 + p))) (decodeConfigByte p) = Inr (t, cnt p)" if p: "p < 5" for p
  proof -
    have "length (boxes f ! p) \<le> length (parameter_names ! p)"
      using p by (auto simp: bx parameter_names_def less_Suc_eq numeral_eq_Suc)
    moreover have "list_ex id (boxes f ! p)" using acc(4) p by (auto simp: bx less_Suc_eq numeral_eq_Suc)
    ultimately obtain t where "decodeConfigByte p (encodeParamByte (boxes f ! p)) = Inr (t, cnt p)"
      using decodeConfigByte_count [OF p] unfolding cnt_def ticked_def by blast
    moreover have "getExperimentInfo getString pos ! (12 + p) = to_text (sint (encodeParamByte (boxes f ! p)))"
      using e(5) [OF p] p by (auto simp: bx less_Suc_eq numeral_eq_Suc)
    ultimately show ?thesis by (simp add: parseByte_text)
  qed
  then obtain t where t: "\<And>p. p < 5 \<Longrightarrow> java_bind (parseByte (getExperimentInfo getString pos ! (12 + p))) (decodeConfigByte p) = Inr (t p, cnt p)"
    by metis
  have ps: "each_param (\<lambda>p. java_bind (parseByte (getExperimentInfo getString pos ! (12 + p))) (decodeConfigByte p)) [0..<5] =
      Inr (map (\<lambda>p. (t p, cnt p)) [0, 1, 2, 3, 4])"
    unfolding upt_small by (simp only: each_param.simps t java_bind.simps list.map)
  let ?ms = "map cnt [0, 1, 2, 3, 4]"
  have ms: "?ms = map (\<lambda>b. int (length (ticked b))) (boxes f)" by (simp add: cnt_def bx)
  have its: "prod_list ?ms = its" unfolding its_def length_product_lists by (simp add: cnt_def bx)
  have le8: "length (ticked bs) \<le> 8" if "length bs \<le> 8" for bs
    using that length_filter_le [of "(!) bs" "[0..<length bs]"] by (simp add: ticked_def)
  have le: "\<forall>m \<in> set ?ms. 0 \<le> m \<and> m \<le> 8" using bx le8 by (simp add: cnt_def)
  note fold = fold_jint [OF le, of 1, simplified its]
  have its_le: "0 \<le> its" "its \<le> 32768" "fold (\<lambda>m n. jint (n * m)) ?ms 1 = its" using fold by simp_all
  have tot: "0 \<le> its * nm" "its * nm \<le> 3276800" using its_le nm mult_mono [of its 32768 nm 100] by simp_all
  have dur: "- 419430400 \<le> its * nm * tb" "its * nm * tb \<le> 416153600"
    using tot mult_left_mono [OF typed(3) tot(1)] mult_left_mono [OF typed(4) tot(1)] by linarith+
  have eq: "fold (\<lambda>m n. jint (n * m)) (map (\<lambda>b. int (length (ticked b))) (boxes f)) 1 = its"
    using its_le(3) unfolding ms .
  show ?thesis
    using e(1,2) typed(1,2) its_le(1,2) tot dur ms by (simp add: initSummary_def ps comp_def jint_id Let_def eq)
qed

section \<open>From the boards to the log\<close>

text \<open>What is used of the platform's decoding of bytes: leading ASCII bytes are their characters.\<close>

definition decodes_ascii :: "(u8 list \<Rightarrow> string) \<Rightarrow> bool" where
  "decodes_ascii new_String \<longleftrightarrow>
     (\<forall>xs ys. list_all (\<lambda>b. b < 128) xs \<longrightarrow> take (length xs) (new_String (xs @ ys)) = map (\<lambda>b. char_of (unat b)) xs)"

lemma filterContent_keeps:
  assumes "k < length msg" "msg ! k = 46"
  shows "\<exists>j. k \<le> j \<and> filterContent msg = take j msg"
proof -
  let ?f = "\<lambda>i index. if msg ! i = 46 then i else index"
  have ge: "k \<le> j \<Longrightarrow> k \<le> fold ?f [Suc k..<n] j" for n j
    by (induction n) (auto simp: less_Suc_eq_le)
  have "[0..<length msg] = [0..<k] @ [k..<length msg]"
    using assms(1) upt_add_eq_append [of 0 k "length msg - k"] by simp
  also have "[k..<length msg] = k # [Suc k..<length msg]" using assms(1) by (rule upt_conv_Cons)
  finally have "[0..<length msg] = [0..<k] @ k # [Suc k..<length msg]" .
  then have "fold ?f [0..<length msg] 0 = fold ?f [Suc k..<length msg] k"
    using assms(2) by (simp only: fold_append fold_simps comp_apply simp_thms if_True)
  then have "filterContent msg = take (fold ?f [Suc k..<length msg] k) msg" by (simp only: filterContent_def)
  with ge [OF order_refl] show ?thesis by blast
qed

lemma sint_u8: "- 128 \<le> sint b" "sint b \<le> 127" for b :: u8
  using sint_greater_eq [of b] sint_less [of b] by simp_all

lemma sint_ascii: "b < 128 \<Longrightarrow> sint b = uint b" for b :: u8
  by (simp add: sint_uint word_less_def signed_take_bit_int_eq_self_iff order_trans [of "- 128" 0])

lemma stats_row:
  assumes "dbEntries m = None"
  shows "on_notification new_String [- 1, r, q, e] m =
    Inr (m\<lparr>dbEntries := Some [None, None, Some (''-'' @ to_text (uint r)), Some (to_text (sint q)), Some (to_text (uint e))]\<rparr>)"
  using assms
  by (simp add: on_notification_def onCharacteristicChanged_def on_rssi_def log_or_keep_def half_row_def makeByteUnsigned_def
      numeral_eq_Suc)

lemma message_row:
  assumes dec: "decodes_ascii new_String" and hdr: "length hdr = 10" "list_all (\<lambda>b. b < 128) hdr"
    and row: "dbEntries m = Some [None, None, a, b, c]" and "0 \<le> msgs m" "msgs m \<le> 127"
  shows "on_notification new_String (hdr @ [it, n, 46] @ rest) m =
    Inr (m\<lparr>dbEntries := None, transmissions := transmissions m @
      [[Some (to_text (sint n + sint it * msgs m)), Some (map (\<lambda>b. char_of (unat b)) hdr), a, b, c]]\<rparr>)"
proof -
  let ?bs = "hdr @ it # n # 46 # rest"
  obtain j where j: "12 \<le> j" "filterContent ?bs = take j ?bs"
    using filterContent_keeps [of 12 ?bs] hdr(1) by (auto simp: nth_append)
  moreover have "j - length hdr = Suc (Suc (j - 12))" using j(1) hdr(1) by simp
  ultimately have "filterContent ?bs = hdr @ it # n # take (j - 12) (46 # rest)" using hdr(1) by simp
  then obtain tl where bs: "filterContent ?bs = hdr @ it # n # tl" ..
  have "0 \<le> sint (?bs ! 0)" using hdr sint_ascii [of "hdr ! 0"] by (simp add: nth_append list_all_length)
  then have "onCharacteristicChanged True ?bs = Inr (LoraMsg (filterContent ?bs))"
    by (simp add: onCharacteristicChanged_def)
  moreover have "take 10 (new_String (hdr @ it # n # tl)) = map (\<lambda>b. char_of (unat b)) hdr"
    using dec hdr unfolding decodes_ascii_def by metis
  moreover from this have "10 \<le> length (new_String (hdr @ it # n # tl))"
    using hdr(1) by (metis length_map length_take min.cobounded1)
  moreover have "\<bar>sint it * msgs m\<bar> \<le> 128 * 127"
    unfolding abs_mult using assms(5,6) sint_u8 [of it] by (intro mult_mono) auto
  then have "jint (sint it * msgs m) = sint it * msgs m" "jint (sint n + sint it * msgs m) = sint n + sint it * msgs m"
    using sint_u8 [of n] by (auto intro!: jint_id)
  ultimately show ?thesis
    using row hdr(1) by (simp add: on_notification_def on_msg_def bs log_or_keep_def half_row_def nth_append Let_def)
qed

section \<open>What the phone does not check\<close>

text \<open>
  The receiver reports an unanswered ping with \<open>-7\<close>. \<open>Central\<close> does not know this number, takes the
  notification for a message, and the screen, which has a toast for \<open>-7\<close>, reads its twelfth byte.
\<close>

lemma no_response_throws: "on_notification new_String [- 7] m = Inl (Exception ''ArrayIndexOutOfBoundsException'')"
  by (simp add: on_notification_def onCharacteristicChanged_def on_msg_def filterContent_def)

text \<open>A form as the phone accepts it, with the length of messages beyond any limit and no time between them.\<close>

definition sample_form :: "string \<Rightarrow> string \<Rightarrow> string \<Rightarrow> form" where
  "sample_form nm tb ml =
     \<lparr>noMsgs = nm, timeBetween = tb, msgLength = ml, autoIncrement = False, description = [], distance = ''100'',
      heightSender = [], heightReceiver = [], environment = ''field'',
      boxes = [[True, False, False, False, False, False, False, False], [True, False],
        [True, False, True, False, False, False], [True, False, False, False], [False, False, False, False, False, False, False, True]]\<rparr>"

lemma parse_small: "parse_decimal ''200'' = Some 200" "parse_decimal ''12'' = Some 12" "parse_decimal ''2'' = Some 2"
  "parse_decimal ''0'' = Some 0" "parse_decimal ''597'' = Some 597" "parse_decimal ''5'' = Some 5"
  by (simp_all add: parse_decimal_def)

lemma length_not_checked:
  "\<exists>vals. experimentReady (sample_form ''2'' ''0'' ''200'') = Inr vals"
  "parseByte ''200'' = Inl (Exception ''NumberFormatException'')"
  by (simp_all add: experimentReady_def sample_form_def parse_range_def parse_small allParametersHaveOneChecked_def parseByte_def)

text \<open>The delay is computed in 32 bits: from 597 hours on the board is sent a negative one.\<close>

lemma delay_wraps: "total (fst (startExperiment entry conf ''597'' ''0'' ''0'' m)) = - 2145767296"
proof -
  have "jint (jint (jint (jint (597 * 3600) + jint (0 * 60)) + 0) * 1000) = - 2145767296"
    by (simp add: jint_def signed_take_bit_eq_take_bit_minus take_bit_int_def)
  then show ?thesis by (simp add: startExperiment_def parse_range_def parse_small Let_def split: sum.split)
qed

text \<open>
  In range, what is sent is the delay that was set, 17 seconds longer with a power
  over 10 dBm, for which the board waits to be connected again.
\<close>

lemma delay_sent:
  assumes "parseInt hours = Inr h" "parseInt minutes = Inr mi" "parseInt seconds = Inr se"
    "0 \<le> h" "h < 596" "0 \<le> mi" "mi \<le> 59" "0 \<le> se" "se \<le> 59" "screen_ready m"
  shows "snd (startExperiment entry conf hours minutes seconds m) =
    createSettingsBytes entry ((h * 3600 + mi * 60 + se) * 1000 + (if sint (conf ! 4) < 4 then 17000 else 0))"
  using assms by (auto simp: startExperiment_def jint_id Let_def split: sum.split)

end
