(* ===== verification/Hex.thy ===== *)
theory Hex
  imports Prelude
begin

text \<open>
  Hexadecimal and decimal text, \<open>lib/os/hex.c\<close> and \<open>lib/os/dec.c\<close>. Output buffers are lists of
  the size the caller passes; \<open>poke\<close> writes one byte and notes an index outside the buffer. Shown
  here: decoding an encoded buffer gives it back, when the encoder stays in its buffer (not always
  when it should: its size check is too weak), and that the decimal digits are the number's.
\<close>

section \<open>Buffers\<close>

type_synonym out_buf = "u8 list \<times> bool" \<comment> \<open>the bytes, and whether every write was inside\<close>

definition poke :: "nat \<Rightarrow> u8 \<Rightarrow> out_buf \<Rightarrow> out_buf" where
  "poke i v b = (case b of (xs, ok) \<Rightarrow> if i < length xs then (xs[i := v], ok) else (xs, False))"

section \<open>Hexadecimal\<close>

definition char2hex :: "u8 \<Rightarrow> u8 option" where
  "char2hex c =
     (if c \<ge> 48 \<and> c \<le> 57 then Some (c - 48)
      else if c \<ge> 97 \<and> c \<le> 102 then Some (c - 97 + 10)
      else if c \<ge> 65 \<and> c \<le> 70 then Some (c - 65 + 10)
      else None)"

definition hex2char :: "u8 \<Rightarrow> u8 option" where
  "hex2char x =
     (if x \<le> 9 then Some (x + 48)
      else if x \<le> 15 then Some (x - 10 + 97)
      else None)"

text \<open>The loops return \<open>None\<close> where the function returns 0 early.\<close>

fun bin2hex_loop :: "nat \<Rightarrow> u8 list \<Rightarrow> out_buf \<Rightarrow> out_buf option" where
  "bin2hex_loop i [] hex = Some hex"
| "bin2hex_loop i (b # buf) hex = do {
     c1 \<leftarrow> hex2char (drop_bit 4 b);
     c2 \<leftarrow> hex2char (b AND 15);
     bin2hex_loop (Suc i) buf (poke (2 * i + 1) c2 (poke (2 * i) c1 hex))
   }"

definition bin2hex :: "u8 list \<Rightarrow> u8 list \<Rightarrow> nat \<times> out_buf" where
  "bin2hex buf hex =
     (if length hex + 1 < length buf * 2 then (0, hex, True)
      else case bin2hex_loop 0 buf (hex, True) of
             None \<Rightarrow> (0, hex, True)
           | Some out \<Rightarrow> (2 * length buf, poke (2 * length buf) 0 out))"

fun hex2bin_loop :: "nat \<Rightarrow> u8 list \<Rightarrow> out_buf \<Rightarrow> out_buf option" where
  "hex2bin_loop i (c1 # c2 # hex) buf = do {
     d1 \<leftarrow> char2hex c1;
     d2 \<leftarrow> char2hex c2;
     hex2bin_loop (Suc i) hex (poke i (push_bit 4 d1 + d2) buf)
   }"
| "hex2bin_loop i hex buf = Some buf"

definition hex2bin :: "u8 list \<Rightarrow> u8 list \<Rightarrow> nat \<times> out_buf" where
  "hex2bin hex buf =
     (let n = length hex div 2 + length hex mod 2
      in if length buf < n then (0, buf, True)
         else
           let out =
             (if length hex mod 2 = 1
              then case char2hex (hd hex) of
                     None \<Rightarrow> None
                   | Some d \<Rightarrow> hex2bin_loop 1 (tl hex) (poke 0 d (buf, True))
              else hex2bin_loop 0 hex (buf, True))
           in case out of None \<Rightarrow> (0, buf, True) | Some out \<Rightarrow> (n, out))"

section \<open>Decimal\<close>

fun u8_to_dec_loop :: "nat list \<Rightarrow> nat \<Rightarrow> nat \<Rightarrow> nat \<Rightarrow> u8 list \<Rightarrow> nat \<times> u8 list" where
  "u8_to_dec_loop [] buflen v num_digits out = (num_digits, out)"
| "u8_to_dec_loop (divisor # ds) buflen v num_digits out =
     (if buflen > 0
      then
        let digit = v div divisor
        in if digit \<noteq> 0 \<or> divisor = 1 \<or> num_digits \<noteq> 0
           then u8_to_dec_loop ds (buflen - 1) (v - digit * divisor) (num_digits + 1) (out @ [of_nat (digit + 48)])
           else u8_to_dec_loop ds buflen (v - digit * divisor) num_digits out
      else (num_digits, out))"

text \<open>The digits written and their number; a byte 0 follows where the buffer has room.\<close>

definition u8_to_dec :: "nat \<Rightarrow> u8 \<Rightarrow> nat \<times> u8 list" where
  "u8_to_dec buflen v =
     (let (n, out) = u8_to_dec_loop [100, 10, 1] buflen (unat v) 0 []
      in (n, out @ (if n < buflen then [0] else [])))"

section \<open>Round trip\<close>

definition hex_digits :: "u8 \<Rightarrow> u8 list" where
  "hex_digits b = [the (hex2char (drop_bit 4 b)), the (hex2char (b AND 15))]"

lemma char2hex_hex2char:
  assumes "x \<le> 15"
  shows "\<exists>c. hex2char x = Some c \<and> char2hex c = Some x"
proof -
  have "list_all (\<lambda>n. case hex2char (of_nat n) of Some c \<Rightarrow> char2hex c = Some (of_nat n) | None \<Rightarrow> False) [0..<16]"
    by code_simp
  moreover have "unat x < 16" using assms by (simp add: word_le_nat_alt)
  ultimately have "case hex2char x of Some c \<Rightarrow> char2hex c = Some x | None \<Rightarrow> False"
    by (rule word_exhaust)
  then show ?thesis by (simp split: option.splits)
qed

lemma nibbles: "drop_bit 4 (b :: u8) \<le> 15" "b AND 15 \<le> 15" "push_bit 4 (drop_bit 4 b) + (b AND 15) = b"
proof -
  have "unat b < 2 ^ LENGTH(8)" by (rule unsigned_less)
  then have "unat (drop_bit 4 b) \<le> 15"
    by (simp only: unsigned_drop_bit_eq) (simp add: drop_bit_eq_div take_bit_nat_eq_self)
  then show "drop_bit 4 b \<le> 15" by (simp add: word_le_nat_alt)
  show "b AND 15 \<le> 15" by (rule word_and_le1)
  have "push_bit 4 (drop_bit 4 b) AND (b AND mask 4) = 0"
    by (rule bit_word_eqI) (auto simp: bit_simps)
  then have "push_bit 4 (drop_bit 4 b) + (b AND mask 4) = push_bit 4 (drop_bit 4 b) OR (b AND mask 4)"
    by (rule disjunctive_add_eq_or)
  also have "\<dots> = b"
    by (rule bit_word_eqI) (auto simp: bit_simps)
  finally show "push_bit 4 (drop_bit 4 b) + (b AND 15) = b" by (simp add: mask_eq_exp_minus_1)
qed

lemma bin2hex_loop_eq:
  "bin2hex_loop i buf (hex, ok) =
     Some (fold (\<lambda>j. poke j (concat (map hex_digits buf) ! (j - 2 * i))) [2 * i..<2 * i + 2 * length buf] (hex, ok))"
proof (induction buf arbitrary: i hex ok)
  case (Cons b buf)
  obtain c1 c2 where c: "hex2char (drop_bit 4 b) = Some c1" "hex2char (b AND 15) = Some c2"
    using char2hex_hex2char nibbles(1,2) by blast
  let ?d = "concat (map hex_digits (b # buf))"
  have d: "hex_digits b = [c1, c2]" by (simp add: hex_digits_def c)
  have "[2 * i..<2 * i + 2 * length (b # buf)] = 2 * i # Suc (2 * i) # [2 * Suc i..<2 * Suc i + 2 * length buf]"
    by (simp add: upt_rec)
  moreover obtain xs ok' where p: "poke (Suc (2 * i)) c2 (poke (2 * i) c1 (hex, ok)) = (xs, ok')" by fastforce
  moreover have "fold (\<lambda>j. poke j (?d ! (j - 2 * i))) [2 * Suc i..<2 * Suc i + 2 * length buf] s =
      fold (\<lambda>j. poke j (concat (map hex_digits buf) ! (j - 2 * Suc i))) [2 * Suc i..<2 * Suc i + 2 * length buf] s" for s
    by (rule fold_cong) (auto simp: d nth_Cons' nth_append)
  ultimately show ?case using Cons.IH [of "Suc i" xs ok'] c by (simp add: d)
qed simp

lemma hex2bin_loop_eq:
  "hex2bin_loop i (concat (map hex_digits buf)) b = Some (fold (\<lambda>j. poke j (buf ! (j - i))) [i..<i + length buf] b)"
proof (induction buf arbitrary: i b)
  case (Cons c buf)
  obtain c1 c2 where c: "hex2char (drop_bit 4 c) = Some c1" "char2hex c1 = Some (drop_bit 4 c)"
    "hex2char (c AND 15) = Some c2" "char2hex c2 = Some (c AND 15)"
    using char2hex_hex2char nibbles(1,2) by meson
  have "[i..<i + length (c # buf)] = i # [Suc i..<Suc i + length buf]" by (simp add: upt_rec)
  moreover have "fold (\<lambda>j. poke j ((c # buf) ! (j - i))) [Suc i..<Suc i + length buf] s =
      fold (\<lambda>j. poke j (buf ! (j - Suc i))) [Suc i..<Suc i + length buf] s" for s
    by (rule fold_cong) (auto simp: nth_Cons')
  ultimately show ?case using Cons.IH [of "Suc i"] c nibbles(3) by (simp add: hex_digits_def)
qed simp

lemma fold_poke:
  "n \<le> length d \<Longrightarrow>
   fold (\<lambda>j. poke j (d ! j)) [0..<n] (xs, ok) = (take (length xs) (take n d) @ drop n xs, ok \<and> n \<le> length xs)"
proof (induction n)
  case (Suc n)
  have "take (length xs) (take n d) @ drop n xs = take n d @ drop n xs" if "n < length xs"
    using that by simp
  moreover have "(take n d @ drop n xs)[n := d ! n] = take (Suc n) d @ drop (Suc n) xs" if "n < length xs"
    using that Suc.prems
    by (auto simp: list_update_append take_Suc_conv_app_nth Cons_nth_drop_Suc [symmetric])
  ultimately show ?case using Suc by (auto simp: poke_def)
qed simp

lemma length_hex_digits: "length (concat (map hex_digits buf)) = 2 * length buf"
  by (induction buf) (simp_all add: hex_digits_def)

lemma bin2hex_eq:
  assumes "2 * length buf \<le> length hex + 1"
  shows "bin2hex buf hex = (2 * length buf,
    poke (2 * length buf) 0
      (take (length hex) (concat (map hex_digits buf)) @ drop (2 * length buf) hex, 2 * length buf \<le> length hex))"
proof -
  let ?d = "concat (map hex_digits buf)"
  have "bin2hex_loop 0 buf (hex, True) = Some (fold (\<lambda>j. poke j (?d ! j)) [0..<2 * length buf] (hex, True))"
    by (simp add: bin2hex_loop_eq)
  then show ?thesis
    using assms fold_poke [of "2 * length buf" ?d hex True] by (simp add: bin2hex_def length_hex_digits)
qed

text \<open>
  (C32) Encoding: with room for the digits and the final 0 the buffer holds both afterwards; with
  much too little room nothing is written and 0 is returned. In between the check is off by two:
  with a buffer one byte or two bytes too small the function claims success and writes behind it.
\<close>

theorem bin2hex_room:
  assumes "bin2hex buf hex = (r, out, ok)"
  shows "(length hex + 1 < 2 * length buf \<longrightarrow> r = 0 \<and> out = hex \<and> ok)
    \<and> (2 * length buf < length hex \<longrightarrow>
        r = 2 * length buf \<and> ok \<and> out = concat (map hex_digits buf) @ 0 # drop (2 * length buf + 1) hex)
    \<and> (length hex \<le> 2 * length buf \<and> 2 * length buf \<le> length hex + 1 \<longrightarrow> r = 2 * length buf \<and> \<not> ok)"
proof -
  have "length hex + 1 < 2 * length buf \<Longrightarrow> r = 0 \<and> out = hex \<and> ok"
    using assms by (auto simp: bin2hex_def)
  moreover have "r = 2 * length buf \<and> ok \<and> out = concat (map hex_digits buf) @ 0 # drop (2 * length buf + 1) hex"
    if "2 * length buf < length hex"
    using that assms bin2hex_eq [of buf hex]
    by (auto simp: poke_def length_hex_digits list_update_append Cons_nth_drop_Suc [symmetric] split: if_splits)
  moreover have "r = 2 * length buf \<and> \<not> ok" if "length hex \<le> 2 * length buf" "2 * length buf \<le> length hex + 1"
    using that assms bin2hex_eq [of buf hex] by (auto simp: poke_def length_hex_digits split: if_splits)
  ultimately show ?thesis by blast
qed

theorem bin2hex_room_witness:
  "bin2hex [171] [9, 9, 9, 9] = (2, [97, 98, 0, 9], True) \<and> \<not> snd (snd (bin2hex [171] [9, 9]))
   \<and> \<not> snd (snd (bin2hex [171] [9]))"
  using bin2hex_room [of "[171]" "[9, 9, 9, 9]"] bin2hex_room [of "[171]" "[9, 9]"] bin2hex_room [of "[171]" "[9]"]
  by (cases "bin2hex [171] [9, 9, 9, 9]"; cases "bin2hex [171] [9, 9]"; cases "bin2hex [171] [9]")
     (auto simp: hex_digits_def hex2char_def)

text \<open>
  (C31) Decoding what the encoder wrote gives the bytes back, and nothing else of the output buffer
  changes.
\<close>

theorem hex_roundtrip:
  assumes "2 * length buf < length hex" "length buf \<le> length out" "bin2hex buf hex = (r, hex', ok)"
  shows "hex2bin (take r hex') out = (length buf, buf @ drop (length buf) out, True)"
proof -
  have "r = 2 * length buf" "take r hex' = concat (map hex_digits buf)"
    using assms(1,3) bin2hex_eq [of buf hex]
    by (auto simp: poke_def length_hex_digits list_update_append)
  moreover have "hex2bin_loop 0 (concat (map hex_digits buf)) (out, True) =
      Some (buf @ drop (length buf) out, True)"
    using assms(2) fold_poke [of "length buf" buf out True] by (simp add: hex2bin_loop_eq)
  ultimately show ?thesis using assms(2) by (simp add: hex2bin_def Let_def length_hex_digits)
qed

theorem hex_roundtrip_witness:
  "hex2bin (take (fst (bin2hex [1, 254] [0, 0, 0, 0, 0])) (fst (snd (bin2hex [1, 254] [0, 0, 0, 0, 0])))) [7, 7, 7] =
     (2, [1, 254, 7], True)"
  using hex_roundtrip [of "[1, 254]" "[0, 0, 0, 0, 0]" "[7, 7, 7]"]
  by (cases "bin2hex [1, 254] [0, 0, 0, 0, 0]") auto

text \<open>The decimal digits of a byte denote it.\<close>

lemma u8_to_dec_value:
  assumes "3 \<le> buflen" "u8_to_dec buflen v = (n, out)"
  shows "foldl (\<lambda>a c. 10 * a + (unat c - 48)) 0 (take n out) = unat v" "n \<le> 3"
proof -
  have v: "unat v < 256"
  proof -
    have "unat v < 2 ^ LENGTH(8)" by (rule unsigned_less)
    then show ?thesis by simp
  qed
  have digit: "unat (of_nat (d + 48) :: u8) - 48 = d" if "d < 200" for d
    using that by (simp only: unat_of_nat) simp
  define m where "m = unat v"
  define a where "a = m div 100"
  define r where "r = m - a * 100"
  define b where "b = r div 10"
  define c where "c = r - b * 10"
  have abc: "a < 200" "b < 200" "c < 200" "m = 100 * a + 10 * b + c"
    using v by (auto simp: a_def r_def b_def c_def m_def)
  have bl: "0 < buflen" "0 < buflen - 1" "0 < buflen - 1 - 1" using assms(1) by simp_all
  have loop: "u8_to_dec_loop [100, 10, 1] buflen m 0 [] =
      (if a \<noteq> 0 then (3, [of_nat (a + 48), of_nat (b + 48), of_nat (c + 48)])
       else if b \<noteq> 0 then (2, [of_nat (b + 48), of_nat (c + 48)])
       else (1, [of_nat (c + 48)]))"
    using bl by (simp only: u8_to_dec_loop.simps Let_def a_def [symmetric] r_def [symmetric] b_def [symmetric]
        c_def [symmetric] div_by_1) auto
  consider "a \<noteq> 0" "n = 3" "take n out = [of_nat (a + 48), of_nat (b + 48), of_nat (c + 48)]"
    | "a = 0" "b \<noteq> 0" "n = 2" "take n out = [of_nat (b + 48), of_nat (c + 48)]"
    | "a = 0" "b = 0" "n = 1" "take n out = [of_nat (c + 48)]"
    using assms(2) unfolding u8_to_dec_def m_def [symmetric] loop by (auto split: if_splits)
  then show "foldl (\<lambda>a c. 10 * a + (unat c - 48)) 0 (take n out) = unat v" "n \<le> 3"
    unfolding m_def [symmetric] by (cases; simp only: foldl.simps digit abc; simp)+
qed

end
