(* ===== verification/Crc.thy ===== *)
theory Crc
  imports Prelude
begin

text \<open>
  Cyclic redundancy checks, \<open>lib/os/crc7_sw.c\<close>, \<open>crc8_sw.c\<close>, \<open>crc16_sw.c\<close>, \<open>crc32_sw.c\<close> and
  \<open>crc32c_sw.c\<close>: table driven or with shift tricks. Shown here: each is the bitwise division by its
  polynomial, one bit at a time. The bitwise step is linear over exclusive or, so that a table of
  sixteen entries, or the images of single bits, decide the whole function (locale
  \<open>nibble_table\<close>, interpreted on both 32-bit tables).
\<close>

section \<open>The source\<close>

definition crc7_step :: "u8 \<Rightarrow> u8 \<Rightarrow> u8" where
  "crc7_step seed b =
     (let e = seed XOR b;
          f = e XOR drop_bit 4 e XOR drop_bit 7 e
      in push_bit 1 f XOR push_bit 4 f)"

definition crc7_be :: "u8 \<Rightarrow> u8 list \<Rightarrow> u8" where
  "crc7_be seed src = fold (\<lambda>b seed. crc7_step seed b) src seed"

definition crc8_ccitt_small_table :: "u8 list" where
  "crc8_ccitt_small_table =
     [0x00, 0x07, 0x0e, 0x09, 0x1c, 0x1b, 0x12, 0x15, 0x38, 0x3f, 0x36, 0x31, 0x24, 0x23, 0x2a, 0x2d]"

definition crc8_ccitt_nibble :: "u8 \<Rightarrow> u8" where
  "crc8_ccitt_nibble v = push_bit 4 v XOR crc8_ccitt_small_table ! unat (drop_bit 4 v)"

definition crc8_ccitt :: "u8 \<Rightarrow> u8 list \<Rightarrow> u8" where
  "crc8_ccitt v buf = fold (\<lambda>b v. crc8_ccitt_nibble (crc8_ccitt_nibble (v XOR b))) buf v"

definition crc8_bit :: "u8 \<Rightarrow> bool \<Rightarrow> u8 \<Rightarrow> u8" where
  "crc8_bit polynomial reversed crc =
     (if reversed
      then if crc AND 0x01 \<noteq> 0 then drop_bit 1 crc XOR polynomial else drop_bit 1 crc
      else if crc AND 0x80 \<noteq> 0 then push_bit 1 crc XOR polynomial else push_bit 1 crc)"

definition crc8 :: "u8 list \<Rightarrow> u8 \<Rightarrow> u8 \<Rightarrow> bool \<Rightarrow> u8" where
  "crc8 src polynomial initial_value reversed =
     fold (\<lambda>b crc. (crc8_bit polynomial reversed ^^ 8) (crc XOR b)) src initial_value"

definition crc16_bit :: "u16 \<Rightarrow> bool \<Rightarrow> u16 \<Rightarrow> u16" where
  "crc16_bit polynomial input crc =
     (let divide = crc AND 0x8000;
          crc = push_bit 1 crc OR of_bool input
      in if divide \<noteq> 0 then crc XOR polynomial else crc)"

definition crc16_byte :: "u16 \<Rightarrow> u8 \<Rightarrow> u16 \<Rightarrow> u16" where
  "crc16_byte polynomial byte crc =
     fold (\<lambda>b. crc16_bit polynomial (byte AND drop_bit b 0x80 \<noteq> 0)) [0..<8] crc"

definition crc16 :: "u8 list \<Rightarrow> u16 \<Rightarrow> u16 \<Rightarrow> bool \<Rightarrow> u16" where
  "crc16 src polynomial initial_value pad =
     fold (crc16_byte polynomial) (src @ (if pad then [0, 0] else [])) initial_value"

definition crc16_ccitt_step :: "u16 \<Rightarrow> u8 \<Rightarrow> u16" where
  "crc16_ccitt_step seed b =
     (let e = ucast (seed XOR ucast b) :: u8;
          f = e XOR push_bit 4 e
      in drop_bit 8 seed XOR push_bit 8 (ucast f) XOR push_bit 3 (ucast f) XOR ucast (drop_bit 4 f))"

definition crc16_ccitt :: "u16 \<Rightarrow> u8 list \<Rightarrow> u16" where
  "crc16_ccitt seed src = fold (\<lambda>b seed. crc16_ccitt_step seed b) src seed"

definition crc16_itu_t_step :: "u16 \<Rightarrow> u8 \<Rightarrow> u16" where
  "crc16_itu_t_step seed b =
     (let seed = drop_bit 8 seed OR push_bit 8 seed;
          seed = seed XOR ucast b;
          seed = seed XOR drop_bit 4 (seed AND 0xff);
          seed = seed XOR push_bit 12 seed
      in seed XOR push_bit 5 (seed AND 0xff))"

definition crc16_itu_t :: "u16 \<Rightarrow> u8 list \<Rightarrow> u16" where
  "crc16_itu_t seed src = fold (\<lambda>b seed. crc16_itu_t_step seed b) src seed"

definition crc32_table :: "u32 list" where
  "crc32_table =
     [0x00000000, 0x1db71064, 0x3b6e20c8, 0x26d930ac, 0x76dc4190, 0x6b6b51f4, 0x4db26158, 0x5005713c,
      0xedb88320, 0xf00f9344, 0xd6d6a3e8, 0xcb61b38c, 0x9b64c2b0, 0x86d3d2d4, 0xa00ae278, 0xbdbdf21c]"

text \<open>One byte through a table of sixteen words, low half first.\<close>

definition table_byte :: "u32 list \<Rightarrow> u8 \<Rightarrow> u32 \<Rightarrow> u32" where
  "table_byte table byte crc =
     (let crc = drop_bit 4 crc XOR table ! unat ((crc XOR ucast byte) AND 0x0f)
      in drop_bit 4 crc XOR table ! unat ((crc XOR ucast (drop_bit 4 byte)) AND 0x0f))"

definition crc32_ieee_update :: "u32 \<Rightarrow> u8 list \<Rightarrow> u32" where
  "crc32_ieee_update crc data = NOT (fold (table_byte crc32_table) data (NOT crc))"

definition crc32_ieee :: "u8 list \<Rightarrow> u32" where
  "crc32_ieee data = crc32_ieee_update 0 data"

definition crc32c_table :: "u32 list" where
  "crc32c_table =
     [0x00000000, 0x105EC76F, 0x20BD8EDE, 0x30E349B1, 0x417B1DBC, 0x5125DAD3, 0x61C69362, 0x7198540D,
      0x82F63B78, 0x92A8FC17, 0xA24BB5A6, 0xB21572C9, 0xC38D26C4, 0xD3D3E1AB, 0xE330A81A, 0xF36E6F75]"

definition crc32_c :: "u32 \<Rightarrow> u8 list \<Rightarrow> bool \<Rightarrow> bool \<Rightarrow> u32" where
  "crc32_c crc data first_pkt last_pkt =
     (let crc = fold (table_byte crc32c_table) data (if first_pkt then 0xFFFFFFFF else crc)
      in if last_pkt then crc XOR 0xFFFFFFFF else crc)"

section \<open>Division, bit by bit\<close>

text \<open>Least significant bit first, and most significant bit first.\<close>

definition step_r :: "'a :: len word \<Rightarrow> 'a word \<Rightarrow> 'a word" where
  "step_r P c = drop_bit 1 c XOR (if bit c 0 then P else 0)"

definition step_l :: "'a :: len word \<Rightarrow> 'a word \<Rightarrow> 'a word" where
  "step_l P c = push_bit 1 c XOR (if bit c (LENGTH('a) - 1) then P else 0)"

definition byte_r :: "'a :: len word \<Rightarrow> u8 \<Rightarrow> 'a word \<Rightarrow> 'a word" where
  "byte_r P b c = (step_r P ^^ 8) (c XOR ucast b)"

definition byte_l :: "'a :: len word \<Rightarrow> u8 \<Rightarrow> 'a word \<Rightarrow> 'a word" where
  "byte_l P b c = (step_l P ^^ 8) (c XOR push_bit (LENGTH('a) - 8) (ucast b))"

definition xor_linear :: "('a :: len word \<Rightarrow> 'b :: len word) \<Rightarrow> bool" where
  "xor_linear f \<longleftrightarrow> (\<forall>x y. f (x XOR y) = f x XOR f y)"

lemma xor_linearD: "xor_linear f \<Longrightarrow> f (x XOR y) = f x XOR f y"
  by (simp add: xor_linear_def)

lemma xor_linear_zero: "xor_linear f \<Longrightarrow> f 0 = 0"
  using xor_linearD [of f 0 0] by simp

lemma xor_linear_funpow:
  fixes f :: "'a :: len word \<Rightarrow> 'a word"
  shows "xor_linear f \<Longrightarrow> xor_linear (f ^^ n)"
  by (induction n) (simp_all add: xor_linear_def)

lemma xor_linear_step_r: "xor_linear (step_r P)"
  by (auto simp: xor_linear_def step_r_def bit_simps intro!: bit_word_eqI)

lemma xor_linear_step_l: "xor_linear (step_l P)"
  by (auto simp: xor_linear_def step_l_def bit_simps intro!: bit_word_eqI)

text \<open>A linear function is known by its values on the single bits.\<close>

lemma xor_linear_eqI:
  fixes f g :: "'a :: len word \<Rightarrow> 'b :: len word"
  assumes "xor_linear f" "xor_linear g"
    and bits: "\<And>i. i < LENGTH('a) \<Longrightarrow> f (push_bit i 1) = g (push_bit i 1)"
  shows "f x = g x"
proof -
  have "f (take_bit n x) = g (take_bit n x)" if "n \<le> LENGTH('a)" for n
    using that
  proof (induction n)
    case 0
    then show ?case using assms(1,2) by (simp add: xor_linear_zero)
  next
    case (Suc n)
    have "take_bit (Suc n) x = take_bit n x XOR (if bit x n then push_bit n 1 else 0)"
      using Suc.prems by (intro bit_word_eqI) (auto simp: bit_simps less_Suc_eq)
    with Suc bits [of n] show ?case
      using assms(1,2) by (simp add: xor_linearD xor_linear_zero)
  qed
  from this [of "LENGTH('a)"] show ?thesis by simp
qed

text \<open>Bits that are shifted out without having met the end do nothing but shift.\<close>

lemma step_r_shift: "(\<And>i. i < k \<Longrightarrow> \<not> bit c i) \<Longrightarrow> (step_r P ^^ k) c = drop_bit k c"
proof (induction k arbitrary: c)
  case (Suc k)
  have "step_r P c = drop_bit 1 c" using Suc.prems [of 0] by (simp add: step_r_def)
  moreover have "(step_r P ^^ k) (drop_bit 1 c) = drop_bit k (drop_bit 1 c)"
    using Suc.prems by (intro Suc.IH) (simp add: bit_simps)
  ultimately show ?case by (simp add: funpow_Suc_right del: funpow.simps)
qed simp

lemma step_r_split: "(step_r P ^^ k) c = drop_bit k c XOR (step_r P ^^ k) (take_bit k c)"
proof -
  let ?h = "c XOR take_bit k c"
  have "c = ?h XOR take_bit k c" by (simp add: xor.assoc)
  then have "(step_r P ^^ k) c = (step_r P ^^ k) ?h XOR (step_r P ^^ k) (take_bit k c)"
    by (metis xor_linearD xor_linear_funpow xor_linear_step_r)
  moreover have "(step_r P ^^ k) ?h = drop_bit k c"
  proof -
    have "(step_r P ^^ k) ?h = drop_bit k ?h" by (rule step_r_shift) (auto simp: bit_simps)
    also have "\<dots> = drop_bit k c" by (rule bit_word_eqI) (auto simp: bit_simps)
    finally show ?thesis .
  qed
  ultimately show ?thesis by simp
qed

lemma step_l_shift:
  "(\<And>i. LENGTH('a) - k \<le> i \<Longrightarrow> \<not> bit c i) \<Longrightarrow> (step_l P ^^ k) c = push_bit k c"
  for c :: "'a :: len word"
proof (induction k arbitrary: c)
  case (Suc k)
  have "step_l P c = push_bit 1 c"
    using Suc.prems [of "LENGTH('a) - 1"] by (simp add: step_l_def diff_le_mono2)
  moreover have "(step_l P ^^ k) (push_bit 1 c) = push_bit k (push_bit 1 c)"
  proof (rule Suc.IH)
    fix i
    assume "LENGTH('a) - k \<le> i"
    then have "LENGTH('a) - Suc k \<le> i - 1" by arith
    then show "\<not> bit (push_bit 1 c) i" using Suc.prems by (auto simp only: bit_push_bit_iff)
  qed
  ultimately show ?case by (simp add: funpow_Suc_right del: funpow.simps)
qed simp

section \<open>Tables of half bytes\<close>

locale nibble_table =
  fixes P :: u32 and table :: "u32 list"
  assumes entry: "n < 16 \<Longrightarrow> table ! n = (step_r P ^^ 4) (of_nat n)"
begin

lemma nibble: "drop_bit 4 c XOR table ! unat ((c XOR x) AND 0x0f) = (step_r P ^^ 4) (c XOR take_bit 4 x)"
proof -
  have m: "(c XOR x) AND 0x0f = take_bit 4 (c XOR x)"
    by (simp add: take_bit_eq_mask mask_eq_exp_minus_1)
  have "unat (take_bit 4 (c XOR x)) < 2 ^ 4"
    by (simp only: unsigned_take_bit_eq) (rule take_bit_nat_less_exp)
  then have "table ! unat ((c XOR x) AND 0x0f) = (step_r P ^^ 4) (take_bit 4 (c XOR x))"
    using entry [of "unat (take_bit 4 (c XOR x))"] by (simp add: m del: take_bit_xor)
  moreover have "take_bit 4 (c XOR take_bit 4 x) = take_bit 4 (c XOR x)"
    "drop_bit 4 (c XOR take_bit 4 x) = drop_bit 4 c"
    by (rule bit_word_eqI; auto simp: bit_simps)+
  ultimately show ?thesis using step_r_split [of 4 P "c XOR take_bit 4 x"] by simp
qed

lemma byte: "table_byte table = byte_r P"
proof (intro ext)
  fix b :: u8 and c :: u32
  let ?l = "take_bit 4 (ucast b) :: u32" and ?h = "ucast (drop_bit 4 b) :: u32"
  have h: "take_bit 4 ?h = ?h" by (rule bit_word_eqI) (use bit_imp_le_length in \<open>fastforce simp: bit_simps\<close>)
  have up: "(step_r P ^^ 4) (push_bit 4 ?h) = ?h"
  proof -
    have "(step_r P ^^ 4) (push_bit 4 ?h) = drop_bit 4 (push_bit 4 ?h)"
      by (rule step_r_shift) (simp add: bit_simps)
    also have "\<dots> = ?h" by (rule bit_word_eqI) (use bit_imp_le_length in \<open>fastforce simp: bit_simps\<close>)
    finally show ?thesis .
  qed
  have b: "(c XOR ?l) XOR push_bit 4 ?h = c XOR ucast b"
    by (rule bit_word_eqI) (auto simp: bit_simps)
  have "table_byte table b c = (step_r P ^^ 4) ((step_r P ^^ 4) (c XOR ?l) XOR ?h)"
    by (simp add: table_byte_def nibble Let_def h)
  also have "\<dots> = (step_r P ^^ 4) ((step_r P ^^ 4) ((c XOR ?l) XOR push_bit 4 ?h))"
    by (simp add: xor_linearD [OF xor_linear_funpow [OF xor_linear_step_r]] up)
  also have "\<dots> = byte_r P b c"
    using funpow_add [of 4 4 "step_r P"] by (simp add: byte_r_def b comp_def fun_eq_iff)
  finally show "table_byte table b c = byte_r P b c" .
qed

end

lemma crc32_table_eq: "crc32_table = map (\<lambda>n. (step_r 0xEDB88320 ^^ 4) (of_nat n)) [0..<16]"
  by code_simp

lemma crc32c_table_eq: "crc32c_table = map (\<lambda>n. (step_r 0x82F63B78 ^^ 4) (of_nat n)) [0..<16]"
  by code_simp

interpretation ieee: nibble_table "0xEDB88320" crc32_table
  by unfold_locales (simp add: crc32_table_eq)

interpretation castagnoli: nibble_table "0x82F63B78" crc32c_table
  by unfold_locales (simp add: crc32c_table_eq)

section \<open>Short registers\<close>

lemma xor_linear_pair:
  fixes f g :: "'a :: len word \<Rightarrow> 'b :: len word \<Rightarrow> 'c :: len word"
  assumes "\<And>s s' b b'. f (s XOR s') (b XOR b') = f s b XOR f s' b'"
    and "\<And>s s' b b'. g (s XOR s') (b XOR b') = g s b XOR g s' b'"
    and "\<And>i. i < LENGTH('a) \<Longrightarrow> f (push_bit i 1) 0 = g (push_bit i 1) 0"
    and "\<And>i. i < LENGTH('b) \<Longrightarrow> f 0 (push_bit i 1) = g 0 (push_bit i 1)"
  shows "f s b = g s b"
proof -
  have "f s 0 = g s 0"
    using assms(3) by (rule xor_linear_eqI [rotated 2])
      (use assms(1,2) [where b = 0 and b' = 0] in \<open>simp_all add: xor_linear_def\<close>)
  moreover have "f 0 b = g 0 b"
    using assms(4) by (rule xor_linear_eqI [rotated 2])
      (use assms(1,2) [where s = 0 and s' = 0] in \<open>simp_all add: xor_linear_def\<close>)
  ultimately show ?thesis using assms(1,2) [of s 0 0 b] by simp
qed

lemma ucast_xor: "ucast (b XOR b') = ucast b XOR ucast b'"
  by (rule bit_word_eqI) (auto simp: bit_simps)

lemmas xor_spread = ucast_xor push_bit_xor drop_bit_xor bit.conj_xor_distrib2 xor.assoc xor.commute
  xor.left_commute

lemma byte_l_xor: "byte_l P (b XOR b') (c XOR c') = byte_l P b c XOR byte_l P b' c'"
  by (simp only: byte_l_def xor_spread xor_linearD [OF xor_linear_funpow [OF xor_linear_step_l]])

lemma byte_r_xor: "byte_r P (b XOR b') (c XOR c') = byte_r P b c XOR byte_r P b' c'"
  by (simp only: byte_r_def xor_spread xor_linearD [OF xor_linear_funpow [OF xor_linear_step_r]])

text \<open>What is left to compare are the single bits of the register and of the byte.\<close>

definition same_bits :: "('a :: len word \<Rightarrow> u8 \<Rightarrow> 'a word) \<Rightarrow> ('a word \<Rightarrow> u8 \<Rightarrow> 'a word) \<Rightarrow> bool" where
  "same_bits f g \<longleftrightarrow>
     list_all (\<lambda>i. f (push_bit i 1) 0 = g (push_bit i 1) 0) [0..<LENGTH('a)] \<and>
     list_all (\<lambda>i. f 0 (push_bit i 1) = g 0 (push_bit i 1)) [0..<8]"

lemma same_bits_eq:
  assumes "same_bits f g"
    and "\<And>s s' b b'. f (s XOR s') (b XOR b') = f s b XOR f s' b'"
    and "\<And>s s' b b'. g (s XOR s') (b XOR b') = g s b XOR g s' b'"
  shows "f s b = g s b"
  using assms(2,3) by (rule xor_linear_pair) (use assms(1) in \<open>auto simp: same_bits_def list_all_iff\<close>)

lemma funpow_4: "(f ^^ 4) x = f (f (f (f x)))"
  by (simp add: eval_nat_numeral)

lemma funpow_8: "(f ^^ 8) x = f (f (f (f (f (f (f (f x)))))))"
  by (simp add: eval_nat_numeral)

lemmas step_eval =
  step_l_def [of _ "numeral n" for n] step_l_def [of _ 0] step_l_def [of _ 1]
  step_r_def [of _ "numeral n" for n] step_r_def [of _ 0] step_r_def [of _ 1]
  byte_l_def byte_r_def funpow_8 same_bits_def upt_rec

lemma crc7_step_eq: "crc7_step c b = byte_l 0x12 b c"
proof (rule same_bits_eq [of crc7_step "\<lambda>c b. byte_l 0x12 b c"])
  show "same_bits crc7_step (\<lambda>c b. byte_l 0x12 b c)" by (simp add: crc7_step_def step_eval)
  show "crc7_step (s XOR s') (b XOR b') = crc7_step s b XOR crc7_step s' b'" for s s' b b'
    by (simp only: crc7_step_def Let_def xor_spread)
qed (rule byte_l_xor)

lemma crc16_ccitt_step_eq: "crc16_ccitt_step c b = byte_r 0x8408 b c"
proof (rule same_bits_eq [of crc16_ccitt_step "\<lambda>c b. byte_r 0x8408 b c"])
  show "same_bits crc16_ccitt_step (\<lambda>c b. byte_r 0x8408 b c)"
    by (simp add: crc16_ccitt_step_def step_eval)
  show "crc16_ccitt_step (s XOR s') (b XOR b') = crc16_ccitt_step s b XOR crc16_ccitt_step s' b'" for s s' b b'
    by (simp only: crc16_ccitt_step_def Let_def xor_spread)
qed (rule byte_r_xor)

lemma swap_xor: "drop_bit 8 s OR push_bit 8 s = drop_bit 8 s XOR push_bit 8 s" for s :: u16
  by (rule bit_word_eqI) (use bit_imp_le_length in \<open>fastforce simp: bit_simps\<close>)

lemma crc16_itu_t_step_xor:
  "crc16_itu_t_step (s XOR s') (b XOR b') = crc16_itu_t_step s b XOR crc16_itu_t_step s' b'"
proof -
  let ?f = "\<lambda>x :: u16. x XOR drop_bit 4 (x AND 0xff)" and ?g = "\<lambda>x :: u16. x XOR push_bit 12 x"
    and ?h = "\<lambda>x :: u16. x XOR push_bit 5 (x AND 0xff)" and ?s = "\<lambda>x :: u16. drop_bit 8 x XOR push_bit 8 x"
  have lin: "xor_linear ?f" "xor_linear ?g" "xor_linear ?h" "xor_linear ?s"
    by (simp_all only: xor_linear_def xor_spread) simp_all
  have step: "crc16_itu_t_step c d = ?h (?g (?f (?s c XOR ucast d)))" for c d
    by (simp only: crc16_itu_t_step_def Let_def swap_xor)
  have "?s (s XOR s') XOR ucast (b XOR b') = (?s s XOR ucast b) XOR (?s s' XOR ucast b')"
    by (simp only: xor_spread)
  then show ?thesis
    by (simp only: step lin [THEN xor_linearD])
qed

lemma crc16_itu_t_step_eq: "crc16_itu_t_step c b = byte_l 0x1021 b c"
proof (rule same_bits_eq [of crc16_itu_t_step "\<lambda>c b. byte_l 0x1021 b c"])
  show "same_bits crc16_itu_t_step (\<lambda>c b. byte_l 0x1021 b c)"
    by (simp add: crc16_itu_t_step_def step_eval)
qed (rule crc16_itu_t_step_xor byte_l_xor)+

lemma crc8_bit_eq: "crc8_bit P r = (if r then step_r P else step_l P)"
proof -
  have "(c AND 1 = 0) = (\<not> bit c 0)" for c :: u8
    by (simp add: and_one_eq bit_0 odd_iff_mod_2_eq_one)
  moreover have "(c AND 0x80 = 0) = (\<not> bit c 7)" for c :: u8
    using and_exp_eq_0_iff_not_bit [of c 7] by simp
  ultimately show ?thesis
    by (auto simp: fun_eq_iff crc8_bit_def step_r_def step_l_def)
qed

lemma crc8_ccitt_small_table_eq:
  "crc8_ccitt_small_table = map (\<lambda>n. (step_l 7 ^^ 4) (push_bit 4 (of_nat n))) [0..<16]"
  by (simp add: crc8_ccitt_small_table_def funpow_4 step_eval)

lemma crc8_ccitt_nibble_eq: "crc8_ccitt_nibble v = (step_l 7 ^^ 4) v"
proof -
  have lt: "unat (drop_bit 4 v) < 16"
  proof -
    have "unat v < 2 ^ LENGTH(8)" by (rule unsigned_less)
    then show ?thesis by (simp only: unsigned_drop_bit_eq) (simp add: drop_bit_eq_div take_bit_eq_mod)
  qed
  have low: "(step_l 7 ^^ 4) (take_bit 4 v) = push_bit 4 (take_bit 4 v)"
    by (rule step_l_shift) (auto simp: bit_simps)
  have split: "take_bit 4 v XOR push_bit 4 (drop_bit 4 v) = v"
    by (rule bit_word_eqI) (auto simp: bit_simps)
  have "(step_l 7 ^^ 4) v = push_bit 4 (take_bit 4 v) XOR (step_l 7 ^^ 4) (push_bit 4 (drop_bit 4 v))"
    using xor_linearD [OF xor_linear_funpow [OF xor_linear_step_l], of 4 7 "take_bit 4 v" "push_bit 4 (drop_bit 4 v)"]
    by (simp only: split low)
  also have "push_bit 4 (take_bit 4 v) = push_bit 4 v"
    by (rule bit_word_eqI) (use bit_imp_le_length in \<open>fastforce simp: bit_simps\<close>)
  also have "(step_l 7 ^^ 4) (push_bit 4 (drop_bit 4 v)) = crc8_ccitt_small_table ! unat (drop_bit 4 v)"
    using lt by (simp add: crc8_ccitt_small_table_eq)
  finally show ?thesis by (simp add: crc8_ccitt_nibble_def)
qed

text \<open>
  With padding, the message is shifted through the register and sixteen more steps bring it out: the
  same as starting from the register sixteen steps on and adding each byte at the top.
\<close>

lemma crc16_bit_eq: "crc16_bit P x c = step_l P c XOR of_bool x"
proof -
  have "(c AND 0x8000 = 0) = (\<not> bit c 15)"
    using and_exp_eq_0_iff_not_bit [of c 15] by simp
  moreover have "d OR of_bool x = d XOR of_bool x" if "\<not> bit d 0" for d :: u16
    by (rule bit_word_eqI) (use that in \<open>cases x; auto simp: bit_simps intro: gr0I\<close>)
  moreover have "\<not> bit (push_bit 1 c) 0" by (simp only: bit_push_bit_iff) simp
  ultimately have "(c AND 0x8000 = 0) = (\<not> bit c 15)"
    "push_bit 1 c OR of_bool x = push_bit 1 c XOR of_bool x" by blast+
  then show ?thesis
    by (simp add: crc16_bit_def step_l_def Let_def xor.assoc xor.commute [of P])
qed

lemma step_l_push: "i < 15 \<Longrightarrow> step_l P (push_bit i (of_bool x)) = push_bit (Suc i) (of_bool x)" for P :: u16
  by (cases x) (auto simp: step_l_def bit_simps)

lemma crc16_byte_eq: "crc16_byte P b c = (step_l P ^^ 8) c XOR ucast b"
proof -
  define B where "B = (\<lambda>i j. push_bit i (of_bool (bit b j)) :: u16)"
  have sel: "(b AND drop_bit i 0x80 \<noteq> 0) = bit b (7 - i)" if "i < 8" for i
  proof -
    have "drop_bit i 0x80 = (2 :: u8) ^ (7 - i)"
    proof -
      from that have "i \<in> set [0..<8]" by simp
      then show ?thesis by (auto simp: upt_rec)
    qed
    then show ?thesis by (simp add: and_exp_eq_0_iff_not_bit)
  qed
  have bits: "crc16_byte P b c = fold (\<lambda>i c. step_l P c XOR B 0 (7 - i)) [0..<8] c"
    unfolding crc16_byte_def by (rule fold_cong [OF refl refl]) (simp add: crc16_bit_eq sel B_def fun_eq_iff)
  have BS: "step_l P (B i j) = B (Suc i) j" if "i < 15" for i j
    using that by (simp add: B_def step_l_push)
  have B: "step_l P (B 0 j) = B 1 j" "step_l P (B 1 j) = B 2 j" "step_l P (B 2 j) = B 3 j"
    "step_l P (B 3 j) = B 4 j" "step_l P (B 4 j) = B 5 j" "step_l P (B 5 j) = B 6 j"
    "step_l P (B 6 j) = B 7 j" for j
    using BS [of 0] BS [of 1] BS [of 2] BS [of 3] BS [of 4] BS [of 5] BS [of 6] by (simp_all add: numeral_eq_Suc)
  have "crc16_byte P b c = (step_l P ^^ 8) c XOR
      (B 7 7 XOR B 6 6 XOR B 5 5 XOR B 4 4 XOR B 3 3 XOR B 2 2 XOR B 1 1 XOR B 0 0)"
    by (simp add: bits upt_rec funpow_8 B [simplified] xor_linearD [OF xor_linear_step_l] xor.assoc)
  also have "B 7 7 XOR B 6 6 XOR B 5 5 XOR B 4 4 XOR B 3 3 XOR B 2 2 XOR B 1 1 XOR B 0 0 = ucast b"
  proof (rule bit_word_eqI)
    fix n
    assume "n < LENGTH(16)"
    have B: "bit (B i j) m \<longleftrightarrow> m = i \<and> m < 16 \<and> bit b j" for i j m
      by (auto simp: B_def bit_simps)
    have "n = 0 \<or> n = 1 \<or> n = 2 \<or> n = 3 \<or> n = 4 \<or> n = 5 \<or> n = 6 \<or> n = 7 \<or>
        n \<notin> {0, 1, 2, 3, 4, 5, 6, 7} \<and> \<not> bit b n"
      using bit_imp_le_length [of b n] by auto
    then show "bit (B 7 7 XOR B 6 6 XOR B 5 5 XOR B 4 4 XOR B 3 3 XOR B 2 2 XOR B 1 1 XOR B 0 0) n = bit (ucast b :: u16) n"
      using \<open>n < LENGTH(16)\<close> by (elim disjE) (simp_all add: B bit_xor_iff bit_unsigned_iff)
  qed
  finally show ?thesis .
qed

lemma crc16_out: "(step_l P ^^ 16) (crc16_byte P b c) = byte_l P b ((step_l P ^^ 16) c)"
proof -
  have b: "(step_l P ^^ 8) (ucast b) = push_bit 8 (ucast b)"
    by (rule step_l_shift) (auto simp: bit_simps dest: bit_imp_le_length)
  have sixteen: "(step_l P ^^ 16) x = (step_l P ^^ 8) ((step_l P ^^ 8) x)" for x
    using funpow_add [of 8 8 "step_l P"] by simp
  have swap: "(step_l P ^^ 8) ((step_l P ^^ 16) x) = (step_l P ^^ 16) ((step_l P ^^ 8) x)" for x
    by (simp only: sixteen)
  show ?thesis
    by (simp only: crc16_byte_eq byte_l_def b swap [symmetric] sixteen
        xor_linearD [OF xor_linear_funpow [OF xor_linear_step_l]]) (simp add: b)
qed

lemma crc16_pad: "crc16 src P v True = fold (byte_l P) src ((step_l P ^^ 16) v)"
proof -
  have "(step_l P ^^ 16) (fold (crc16_byte P) src v) = fold (byte_l P) src ((step_l P ^^ 16) v)"
    by (induction src arbitrary: v) (simp_all add: crc16_out)
  moreover have "crc16 src P v True = (step_l P ^^ 16) (fold (crc16_byte P) src v)"
    using funpow_add [of 8 8 "step_l P"] by (simp add: crc16_def crc16_byte_eq)
  ultimately show ?thesis by simp
qed

section \<open>Errors are seen\<close>

text \<open>Up to a register's width, the bytes of a message act as one word added to the register.\<close>

primrec pack :: "u8 list \<Rightarrow> 'a :: len word" where
  "pack [] = 0"
| "pack (b # bs) = ucast b XOR push_bit 8 (pack bs)"

lemma bit_pack: "bit (pack bs :: 'a :: len word) n \<longleftrightarrow> n < LENGTH('a) \<and> n div 8 < length bs \<and> bit (bs ! (n div 8)) (n mod 8)"
proof (induction bs arbitrary: n)
  case (Cons b bs)
  show ?case
  proof (cases "n < 8")
    case True
    then show ?thesis by (auto simp: bit_simps)
  next
    case False
    then have "n div 8 = Suc ((n - 8) div 8)" "(n - 8) mod 8 = n mod 8"
      by (auto simp: div_if [of n] mod_if [of n])
    moreover have "\<not> bit b n" using False bit_imp_le_length [of b n] by auto
    ultimately show ?thesis using False Cons.IH [of "n - 8"] by (auto simp: bit_simps)
  qed
qed simp

lemma pack_inj:
  assumes "(pack bs :: 'a :: len word) = pack ds" "length bs = length ds" "8 * length bs \<le> LENGTH('a)"
  shows "bs = ds"
proof (rule nth_equalityI [OF assms(2)])
  fix i
  assume i: "i < length bs"
  show "bs ! i = ds ! i"
  proof (rule bit_word_eqI)
    fix k
    assume "k < LENGTH(8)"
    then have "8 * i + k < LENGTH('a)" "(8 * i + k) div 8 = i" "(8 * i + k) mod 8 = k"
      using i assms(3) by auto
    then show "bit (bs ! i) k = bit (ds ! i) k"
      using arg_cong [OF assms(1), of "\<lambda>w. bit w (8 * i + k)"] i assms(2) by (simp add: bit_pack)
  qed
qed

lemma fold_byte_r:
  "8 * length bs \<le> LENGTH('a) \<Longrightarrow> fold (byte_r P) bs c = (step_r P ^^ (8 * length bs)) (c XOR pack bs)"
  for P :: "'a :: len word"
proof (induction bs arbitrary: c)
  case (Cons b bs)
  let ?S = "step_r P ^^ 8"
  have "?S (push_bit 8 (pack bs)) = drop_bit 8 (push_bit 8 (pack bs))"
    by (rule step_r_shift) (simp add: bit_simps)
  also have "\<dots> = pack bs"
    using Cons.prems by (intro bit_word_eqI) (auto simp: bit_simps bit_pack)
  finally have S: "?S (push_bit 8 (pack bs)) = pack bs" .
  have "fold (byte_r P) (b # bs) c = (step_r P ^^ (8 * length bs)) (byte_r P b c XOR pack bs)"
    using Cons by simp
  also have "byte_r P b c XOR pack bs = ?S (c XOR pack (b # bs))"
    by (simp add: byte_r_def S xor.assoc xor_linearD [OF xor_linear_funpow [OF xor_linear_step_r]])
  finally show ?case by (simp add: funpow_add add.commute [of 8])
qed simp

lemma step_r_inj:
  assumes "bit P (LENGTH('a) - 1)"
  shows "inj (step_r P :: 'a :: len word \<Rightarrow> 'a word)"
proof (rule injI)
  fix x y :: "'a word"
  assume "step_r P x = step_r P y"
  then have eq: "bit (step_r P x) n = bit (step_r P y) n" for n by simp
  have low: "bit x 0 = bit y 0"
    using eq [of "LENGTH('a) - 1"] assms bit_imp_le_length [of x "LENGTH('a)"]
      bit_imp_le_length [of y "LENGTH('a)"] by (auto simp: step_r_def bit_simps split: if_splits)
  show "x = y"
  proof (rule bit_word_eqI)
    fix n
    show "bit x n = bit y n"
      using eq [of "n - 1"] low by (cases n) (auto simp: step_r_def bit_simps)
  qed
qed

lemma xor_cancel: "(u XOR w = v XOR w) = (u = v)" "(w XOR u = w XOR v) = (u = v)" for u :: "'a :: len word"
proof -
  show "(u XOR w = v XOR w) = (u = v)"
    by (metis xor.assoc xor_self_eq xor.right_neutral)
  then show "(w XOR u = w XOR v) = (u = v)"
    by (simp add: xor.commute)
qed

lemma burst_seen:
  assumes "bit P (LENGTH('a) - 1)" "length ys = length ys'" "8 * length ys \<le> LENGTH('a)" "ys \<noteq> ys'"
  shows "fold (byte_r P) (xs @ ys @ zs) c \<noteq> fold (byte_r P) (xs @ ys' @ zs) (c :: 'a :: len word)"
proof -
  have inj: "inj (step_r P ^^ n)" for n
    by (rule inj_fn [OF step_r_inj [OF assms(1)]])
  have byte: "inj (byte_r P b)" for b
  proof (rule injI)
    fix u v
    assume "byte_r P b u = byte_r P b v"
    then show "u = v" by (simp add: byte_r_def inj_eq [OF inj] xor_cancel)
  qed
  have rest: "fold (byte_r P) zs u = fold (byte_r P) zs v \<longleftrightarrow> u = v" for u v
    by (induction zs arbitrary: u v) (simp_all add: inj_eq [OF byte])
  show ?thesis
    using assms pack_inj [of ys ys', where ?'a = 'a] by (auto simp: rest fold_byte_r inj_eq [OF inj] xor_cancel)
qed

lemma crc32_fold:
  "crc32_ieee_update crc data = NOT (fold (byte_r 0xEDB88320) data (NOT crc))"
  "crc32_c crc data first_pkt last_pkt =
     (fold (byte_r 0x82F63B78) data (if first_pkt then 0xFFFFFFFF else crc)) XOR (if last_pkt then 0xFFFFFFFF else 0)"
  by (simp_all add: crc32_ieee_update_def crc32_c_def ieee.byte castagnoli.byte Let_def)

lemma crc16_fold:
  "crc16_ccitt seed src = fold (byte_r 0x8408) src seed"
  "crc16_itu_t seed src = fold (byte_l 0x1021) src seed"
  by (simp_all add: crc16_ccitt_def crc16_itu_t_def crc16_ccitt_step_eq crc16_itu_t_step_eq)

lemma crc8_fold:
  "crc8 src P v r = fold (if r then byte_r P else byte_l P) src v"
  "crc8_ccitt v src = fold (byte_l 7) src v"
  "crc7_be v src = fold (byte_l 0x12) src v"
proof -
  have "(\<lambda>b crc. (step_r P ^^ 8) (crc XOR b)) = byte_r P" "(\<lambda>b crc. (step_l P ^^ 8) (crc XOR b)) = byte_l P"
    by (simp_all add: byte_r_def byte_l_def fun_eq_iff)
  then show "crc8 src P v r = fold (if r then byte_r P else byte_l P) src v"
    by (simp add: crc8_def crc8_bit_eq)
  have "crc8_ccitt_nibble (crc8_ccitt_nibble (v XOR b)) = byte_l 7 b v" for v b
    using funpow_add [of 4 4 "step_l (7 :: u8)"] by (simp add: crc8_ccitt_nibble_eq byte_l_def)
  then show "crc8_ccitt v src = fold (byte_l 7) src v"
    by (simp add: crc8_ccitt_def)
  show "crc7_be v src = fold (byte_l 0x12) src v"
    by (simp add: crc7_be_def crc7_step_eq)
qed


text \<open>
  (C34) A burst of errors within four consecutive bytes changes both 32-bit checksums of a message,
  wherever it strikes, and one within two bytes changes \<open>crc16_ccitt\<close>.
\<close>

theorem crc_sees_burst:
  assumes "length ys = length ys'" "ys \<noteq> ys'" "length ys \<le> 4"
  shows "crc32_ieee (xs @ ys @ zs) \<noteq> crc32_ieee (xs @ ys' @ zs)
    \<and> crc32_c crc (xs @ ys @ zs) first_pkt last_pkt \<noteq> crc32_c crc (xs @ ys' @ zs) first_pkt last_pkt
    \<and> (length ys \<le> 2 \<longrightarrow> crc16_ccitt seed (xs @ ys @ zs) \<noteq> crc16_ccitt seed (xs @ ys' @ zs))"
proof -
  have "fold (byte_r 0xEDB88320) (xs @ ys @ zs) c \<noteq> fold (byte_r 0xEDB88320) (xs @ ys' @ zs) (c :: u32)"
    "fold (byte_r 0x82F63B78) (xs @ ys @ zs) c \<noteq> fold (byte_r 0x82F63B78) (xs @ ys' @ zs) (c :: u32)" for c
    using assms by (intro burst_seen; simp)+
  moreover have "fold (byte_r 0x8408) (xs @ ys @ zs) c \<noteq> fold (byte_r 0x8408) (xs @ ys' @ zs) (c :: u16)"
    if "length ys \<le> 2" for c
    using assms that by (intro burst_seen; simp)
  ultimately show ?thesis
    by (simp only: crc32_ieee_def crc32_fold crc16_fold) (simp add: xor_cancel del: fold_append)
qed

theorem crc_sees_burst_witness:
  "crc32_ieee [1, 2, 3, 4] \<noteq> crc32_ieee [1, 9, 8, 4]
   \<and> crc32_c 0 [1, 2, 3, 4] True True \<noteq> crc32_c 0 [1, 9, 8, 4] True True
   \<and> crc16_ccitt 0 [1, 2, 3, 4] \<noteq> crc16_ccitt 0 [1, 9, 8, 4]"
  using crc_sees_burst [of "[2, 3]" "[9, 8]" "[1]" "[4]" 0 True True 0] by simp

end
