(* ===== verification/RingBuf.thy ===== *)
theory RingBuf
  imports Prelude
begin

text \<open>
  Ring buffers, \<open>lib/os/ring_buffer.c\<close> and the inline functions of \<open>sys/ring_buffer.h\<close>. Head and tail
  are 32-bit indices that only grow, reduced to places of the buffer when used, and moved back by a
  multiple of the size before they could wrap around. In byte mode the buffer is a queue of bytes,
  filled and emptied in place through claims; in item mode it is a queue of words, each item a
  header and up to 255 words. Shown here: both are first-in-first-out queues that never lose,
  reorder or invent data, and the moving back of the indices is invisible.
\<close>

section \<open>The source\<close>

abbreviation (input) "RING_BUFFER_MAX_SIZE \<equiv> (0x80000000 :: u32)"

text \<open>
  The two members of \<open>union ring_buf_misc\<close> and of \<open>union ring_buf_buffer\<close> are fields of their own: a
  ring buffer is used in one mode.
\<close>

record ring_buf =
  head :: u32
  tail :: u32
  dropped_put_count :: u32
  tmp_tail :: u32
  tmp_head :: u32
  rb_size :: u32
  buf32 :: "u32 list"
  buf8 :: "u8 list"
  rb_mask :: u32

definition is_power_of_two :: "u32 \<Rightarrow> bool" where
  "is_power_of_two x \<longleftrightarrow> x \<noteq> 0 \<and> x AND (x - 1) = 0"

definition ring_buf_init :: "u32 \<Rightarrow> u32 list \<Rightarrow> u8 list \<Rightarrow> ring_buf" where
  "ring_buf_init sz data32 data8 =
     \<lparr>head = 0, tail = 0, dropped_put_count = 0, tmp_tail = 0, tmp_head = 0, rb_size = sz,
      buf32 = data32, buf8 = data8, rb_mask = (if is_power_of_two sz then sz - 1 else 0)\<rparr>"

definition ring_buf_is_empty :: "ring_buf \<Rightarrow> bool" where
  "ring_buf_is_empty b \<longleftrightarrow> head b = tail b"

definition ring_buf_reset :: "ring_buf \<Rightarrow> ring_buf" where
  "ring_buf_reset b = b\<lparr>head := 0, tail := 0, dropped_put_count := 0, tmp_tail := 0, tmp_head := 0\<rparr>"

definition ring_buf_space_get :: "ring_buf \<Rightarrow> u32" where
  "ring_buf_space_get b = rb_size b - (tail b - head b)"

definition ring_buf_capacity_get :: "ring_buf \<Rightarrow> u32" where
  "ring_buf_capacity_get b = rb_size b"

definition ring_buf_get_rewind_threshold :: u32 where
  "ring_buf_get_rewind_threshold = RING_BUFFER_MAX_SIZE"

definition rb_mod :: "ring_buf \<Rightarrow> u32 \<Rightarrow> u32" where
  "rb_mod b v = (if rb_mask b \<noteq> 0 then v AND rb_mask b else v mod rb_size b)"

definition item_indexes_rewind :: "ring_buf \<Rightarrow> ring_buf" where
  "item_indexes_rewind b =
     (let threshold = ring_buf_get_rewind_threshold
      in if head b < threshold then b
         else let rew = rb_size b * (threshold div rb_size b)
              in b\<lparr>tail := tail b - rew, head := head b - rew\<rparr>)"

definition byte_indexes_rewind :: "ring_buf \<Rightarrow> ring_buf" where
  "byte_indexes_rewind b =
     (let threshold = ring_buf_get_rewind_threshold
      in if head b < threshold then b
         else let rew = rb_size b * (threshold div rb_size b)
              in b\<lparr>tail := tail b - rew, head := head b - rew,
                   tmp_head := tmp_head b - rew, tmp_tail := tmp_tail b - rew\<rparr>)"

text \<open>Items. The header's bit fields are, from the lowest bit, type, length and value.\<close>

definition ring_element :: "u16 \<Rightarrow> u8 \<Rightarrow> u8 \<Rightarrow> u32" where
  "ring_element type len value = ucast type OR push_bit 16 (ucast len) OR push_bit 24 (ucast value)"

definition elem_type :: "u32 \<Rightarrow> u16" where
  "elem_type h = ucast h"

definition elem_length :: "u32 \<Rightarrow> u8" where
  "elem_length h = ucast (drop_bit 16 h)"

definition elem_value :: "u32 \<Rightarrow> u8" where
  "elem_value h = ucast (drop_bit 24 h)"

text \<open>\<open>i\<close> counts the words stored so far; \<open>data[i]\<close> is the head of the rest.\<close>

primrec item_put_loop :: "u32 \<Rightarrow> u32 list \<Rightarrow> ring_buf \<Rightarrow> ring_buf" where
  "item_put_loop i [] b = b"
| "item_put_loop i (x # xs) b =
     (let index = rb_mod b (i + tail b + 1)
      in item_put_loop (i + 1) xs (b\<lparr>buf32 := (buf32 b)[unat index := x]\<rparr>))"

definition ring_buf_item_put :: "u16 \<Rightarrow> u8 \<Rightarrow> u32 list \<Rightarrow> u8 \<Rightarrow> ring_buf \<Rightarrow> int \<times> ring_buf" where
  "ring_buf_item_put type value data size32 b =
     (if unat (ring_buf_space_get b) \<ge> unat size32 + 1
      then
        let b = b\<lparr>buf32 := (buf32 b)[unat (rb_mod b (tail b)) := ring_element type size32 value]\<rparr>;
            b = item_put_loop 0 (take (unat size32) data) b
        in (0, b\<lparr>tail := tail b + ucast size32 + 1\<rparr>)
      else (- EMSGSIZE, b\<lparr>dropped_put_count := dropped_put_count b + 1\<rparr>))"

text \<open>
  Result, the header's fields, and the words copied out. \<open>room\<close> is \<open>*size32\<close>, and \<open>None\<close> stands for
  a null \<open>data\<close>.
\<close>

datatype item_result =
    ItemErr int "u8 option"
  | Item u16 u8 u8 "u32 list"

definition ring_buf_item_get :: "u8 option \<Rightarrow> ring_buf \<Rightarrow> item_result \<times> ring_buf" where
  "ring_buf_item_get room b =
     (if ring_buf_is_empty b then (ItemErr (- EAGAIN) None, b)
      else
        let header = buf32 b ! unat (rb_mod b (head b));
            len = elem_length header
        in if (case room of Some r \<Rightarrow> r < len | None \<Rightarrow> False) then (ItemErr (- EMSGSIZE) (Some len), b)
           else
             let data = (if room = None then []
                         else map (\<lambda>i. buf32 b ! unat (rb_mod b (of_nat i + head b + 1))) [0..<unat len])
             in (Item (elem_type header) (elem_value header) len data,
                 item_indexes_rewind (b\<lparr>head := head b + ucast len + 1\<rparr>)))"

text \<open>Bytes. A claim returns the place in the buffer and the number of bytes.\<close>

definition ring_buf_put_claim :: "u32 \<Rightarrow> ring_buf \<Rightarrow> u32 \<times> u32 \<times> ring_buf" where
  "ring_buf_put_claim sz b =
     (let tmp_trail_mod = rb_mod b (tmp_tail b);
          space = (head b + rb_size b) - tmp_tail b;
          trail_size = rb_size b - tmp_trail_mod;
          sz = min sz space;
          allocated = min trail_size sz
      in (tmp_trail_mod, allocated, b\<lparr>tmp_tail := tmp_tail b + allocated\<rparr>))"

definition ring_buf_put_finish :: "u32 \<Rightarrow> ring_buf \<Rightarrow> int \<times> ring_buf" where
  "ring_buf_put_finish sz b =
     (if tail b + sz > head b + rb_size b then (- EINVAL, b)
      else (0, b\<lparr>tail := tail b + sz, tmp_tail := tail b + sz\<rparr>))"

text \<open>\<open>memcpy\<close> of the first \<open>n\<close> bytes of \<open>data\<close> to place \<open>i\<close> of the buffer.\<close>

definition blit :: "'a list \<Rightarrow> nat \<Rightarrow> 'a list \<Rightarrow> 'a list" where
  "blit xs i ys = take i xs @ ys @ drop (i + length ys) xs"

lemma put_claim_le: "ring_buf_put_claim sz b = (i, n, b') \<Longrightarrow> n \<le> sz"
  by (auto simp: ring_buf_put_claim_def Let_def intro: min.coboundedI1 min.coboundedI2)

lemma claim_smaller: "n \<le> sz \<Longrightarrow> sz - n \<noteq> 0 \<and> n \<noteq> 0 \<Longrightarrow> unat (sz - n) < unat sz" for n sz :: u32
  using unat_gt_0 [of n] unat_sub [of n sz] by (auto simp: word_le_nat_alt)

function put_loop :: "u8 list \<Rightarrow> u32 \<Rightarrow> u32 \<Rightarrow> ring_buf \<Rightarrow> u32 \<times> ring_buf" where
  "put_loop data sz acc b =
     (case ring_buf_put_claim sz b of
        (i, n, b) \<Rightarrow>
          let b = b\<lparr>buf8 := blit (buf8 b) (unat i) (take (unat n) data)\<rparr>
          in if sz - n \<noteq> 0 \<and> n \<noteq> 0 then put_loop (drop (unat n) data) (sz - n) (acc + n) b
             else (acc + n, b))"
  by pat_completeness auto

termination
  by (relation "measure (\<lambda>(data, sz, acc, b). unat sz)") (auto intro!: claim_smaller dest: put_claim_le [OF sym])

definition ring_buf_put :: "u8 list \<Rightarrow> u32 \<Rightarrow> ring_buf \<Rightarrow> u32 \<times> ring_buf" where
  "ring_buf_put data sz b =
     (let (total_size, b) = put_loop data sz 0 b;
          (err, b) = ring_buf_put_finish total_size b
      in (total_size, b))"

definition ring_buf_get_claim :: "u32 \<Rightarrow> ring_buf \<Rightarrow> u32 \<times> u32 \<times> ring_buf" where
  "ring_buf_get_claim sz b =
     (let tmp_head_mod = rb_mod b (tmp_head b);
          space = tail b - tmp_head b;
          trail_size = rb_size b - tmp_head_mod;
          granted_size = min sz space;
          granted_size = min trail_size granted_size
      in (tmp_head_mod, granted_size, b\<lparr>tmp_head := tmp_head b + granted_size\<rparr>))"

definition ring_buf_get_finish :: "u32 \<Rightarrow> ring_buf \<Rightarrow> int \<times> ring_buf" where
  "ring_buf_get_finish sz b =
     (if head b + sz > tail b then (- EINVAL, b)
      else (0, byte_indexes_rewind (b\<lparr>head := head b + sz, tmp_head := head b + sz\<rparr>)))"

lemma get_claim_le: "ring_buf_get_claim sz b = (i, n, b') \<Longrightarrow> n \<le> sz"
  by (auto simp: ring_buf_get_claim_def Let_def intro: min.coboundedI1 min.coboundedI2)

text \<open>The bytes copied to \<open>data\<close>; with a null \<open>data\<close> they are dropped.\<close>

function get_loop :: "u32 \<Rightarrow> u32 \<Rightarrow> u8 list \<Rightarrow> ring_buf \<Rightarrow> u32 \<times> u8 list \<times> ring_buf" where
  "get_loop sz acc out b =
     (case ring_buf_get_claim sz b of
        (i, n, b) \<Rightarrow>
          let out = out @ take (unat n) (drop (unat i) (buf8 b))
          in if sz - n \<noteq> 0 \<and> n \<noteq> 0 then get_loop (sz - n) (acc + n) out b else (acc + n, out, b))"
  by pat_completeness auto

termination
  by (relation "measure (\<lambda>(sz, acc, out, b). unat sz)") (auto intro!: claim_smaller dest: get_claim_le [OF sym])

definition ring_buf_get :: "u32 \<Rightarrow> ring_buf \<Rightarrow> u32 \<times> u8 list \<times> ring_buf" where
  "ring_buf_get sz b =
     (let (total_size, out, b) = get_loop sz 0 [] b;
          (err, b) = ring_buf_get_finish total_size b
      in (total_size, out, b))"

declare put_loop.simps [simp del] get_loop.simps [simp del]

section \<open>Rings of places\<close>

definition stretch :: "'a list \<Rightarrow> nat \<Rightarrow> nat \<Rightarrow> 'a list" where
  "stretch xs h n = map (\<lambda>j. xs ! ((h + j) mod length xs)) [0..<n]"

lemma length_stretch [simp]: "length (stretch xs h n) = n"
  by (simp add: stretch_def)

lemma mod_run: "p = h mod n \<Longrightarrow> p + i < n \<Longrightarrow> (h + i) mod n = p + i" for h :: nat
  by (metis mod_add_left_eq mod_less)

lemma stretch_Suc: "stretch xs h (Suc n) = stretch xs h n @ [xs ! ((h + n) mod length xs)]"
  by (simp add: stretch_def)

lemma stretch_add: "stretch xs h (m + n) = stretch xs h m @ stretch xs (h + m) n"
  by (induction n) (simp_all add: stretch_Suc add.assoc, simp add: stretch_def)

lemma stretch_shift: "stretch xs (h + k * length xs) n = stretch xs h n"
proof -
  have "(h + k * length xs + j) mod length xs = (h + j) mod length xs" for j
    by (metis add.commute add.left_commute mod_mult_self1 mult.commute)
  then show ?thesis by (simp add: stretch_def)
qed

lemma stretch_line:
  assumes "h mod length xs + n \<le> length xs"
  shows "stretch xs h n = take n (drop (h mod length xs) xs)"
proof (rule nth_equalityI)
  fix j
  assume "j < length (stretch xs h n)"
  then have "j < n" by simp
  moreover from this have "(h + j) mod length xs = h mod length xs + j"
    using assms by (intro mod_run) auto
  ultimately show "stretch xs h n ! j = take n (drop (h mod length xs) xs) ! j"
    using assms by (simp add: stretch_def)
qed (use assms in simp)

lemma length_blit [simp]: "i + length ys \<le> length xs \<Longrightarrow> length (blit xs i ys) = length xs"
  by (simp add: blit_def)

lemma blit_nth:
  "i + length ys \<le> length xs \<Longrightarrow> j < length xs \<Longrightarrow>
   blit xs i ys ! j = (if i \<le> j \<and> j < i + length ys then ys ! (j - i) else xs ! j)"
  by (auto simp: blit_def nth_append min_def)

text \<open>A stretch written behind a stretch extends it.\<close>

lemma stretch_blit:
  assumes "(h + n) mod length xs + length ys \<le> length xs" "n + length ys \<le> length xs" "0 < length xs"
  shows "stretch (blit xs ((h + n) mod length xs) ys) h (n + length ys) = stretch xs h n @ ys"
proof (rule nth_equalityI)
  let ?N = "length xs" and ?p = "(h + n) mod length xs"
  fix j
  assume "j < length (stretch (blit xs ?p ys) h (n + length ys))"
  then have j: "j < n + length ys" by simp
  have "stretch (blit xs ?p ys) h (n + length ys) ! j = blit xs ?p ys ! ((h + j) mod ?N)"
    using j assms(1) by (simp add: stretch_def)
  also have "\<dots> = (stretch xs h n @ ys) ! j"
  proof (cases "j < n")
    case True
    have "\<not> (?p \<le> (h + j) mod ?N \<and> (h + j) mod ?N < ?p + length ys)"
    proof
      assume a: "?p \<le> (h + j) mod ?N \<and> (h + j) mod ?N < ?p + length ys"
      define i where "i = (h + j) mod ?N - ?p"
      have "(h + n + i) mod ?N = (h + j) mod ?N"
        using a assms(1) mod_run [of ?p "h + n" ?N i] by (simp add: i_def)
      moreover have "j < n + i" "n + i < ?N" using True a assms(2) by (auto simp: i_def)
      ultimately show False using mod_add_neq [of j "n + i" ?N h] by (simp add: add.assoc)
    qed
    with True assms show ?thesis by (auto simp: blit_nth nth_append stretch_def)
  next
    case False
    then have "(h + j) mod ?N = ?p + (j - n)"
      using mod_run [of ?p "h + n" ?N "j - n"] j assms(1) by simp
    with False j assms show ?thesis by (auto simp: blit_nth nth_append)
  qed
  finally show "stretch (blit xs ?p ys) h (n + length ys) ! j = (stretch xs h n @ ys) ! j" .
qed simp

section \<open>Indices\<close>

lemma pow2_of_and: "x \<noteq> 0 \<Longrightarrow> x AND (x - 1) = 0 \<Longrightarrow> \<exists>n. x = 2 ^ n" for x :: nat
proof (induction x rule: less_induct)
  case (less x)
  show ?case
  proof (cases "even x")
    case True
    then obtain y where y: "x = 2 * y" by (elim evenE)
    with less.prems have "y \<noteq> 0" by simp
    moreover from this y have "x div 2 = y" "(x - 1) div 2 = y - 1" by auto
    then have "y AND (y - 1) = (x AND (x - 1)) div 2"
      using drop_bit_and [of 1 x "x - 1"] by (simp add: drop_bit_eq_div)
    then have "y AND (y - 1) = 0" using less.prems(2) by simp
    ultimately obtain n where "y = 2 ^ n" using less.IH [of y] y by auto
    with y have "x = 2 ^ Suc n" by simp
    then show ?thesis ..
  next
    case False
    then obtain y where y: "x = 2 * y + 1" by (elim oddE)
    with less.prems(2) have "x = 2 ^ 0" by (simp add: and_rec [of "Suc _"])
    then show ?thesis ..
  qed
qed

lemma is_power_of_two_mod: "is_power_of_two x \<Longrightarrow> unat (v AND (x - 1)) = unat v mod unat x"
proof -
  assume p: "is_power_of_two x"
  then have "unat x \<noteq> 0" by (auto simp: is_power_of_two_def unat_eq_0)
  moreover have m: "unat (x - 1) = unat x - 1" using p by (simp add: is_power_of_two_def unat_minus_one)
  moreover have "unat x AND unat (x - 1) = 0"
    using p by (simp add: is_power_of_two_def flip: unsigned_and_eq)
  ultimately obtain n where "unat x = 2 ^ n" using pow2_of_and [of "unat x"] by auto
  with m show ?thesis by (simp add: unsigned_and_eq take_bit_eq_mod [symmetric] take_bit_eq_mask mask_eq_exp_minus_1)
qed

text \<open>
  The indices of a ring buffer in either mode: in order, at most the size apart, and the smallest
  below a bound, the threshold of the rewinding, so that nothing wraps around.
\<close>

definition ix_shape :: "nat \<Rightarrow> ring_buf \<Rightarrow> bool" where
  "ix_shape H b \<longleftrightarrow> rb_size b \<noteq> 0 \<and> rb_size b \<le> RING_BUFFER_MAX_SIZE \<and>
     rb_mask b = (if is_power_of_two (rb_size b) then rb_size b - 1 else 0) \<and>
     unat (head b) < H \<and> unat (head b) \<le> unat (tail b) \<and> unat (tail b) \<le> unat (head b) + unat (rb_size b)"

lemma rb_mod_spec: "ix_shape H b \<Longrightarrow> unat (rb_mod b v) = unat v mod unat (rb_size b)"
  by (auto simp: ix_shape_def rb_mod_def is_power_of_two_mod unat_mod split: if_splits)

lemma ix_shape_bounds:
  assumes "ix_shape (2 ^ 31) b"
  shows "0 < unat (rb_size b)" "unat (rb_size b) \<le> 2 ^ 31" "unat (head b) < 2 ^ 31"
    "unat (head b + rb_size b) = unat (head b) + unat (rb_size b)"
  using assms by (auto simp: ix_shape_def unat_gt_0 word_le_nat_alt intro!: unat_add_lem [THEN iffD1])

lemma space_get:
  assumes "ix_shape (2 ^ 31) b"
  shows "unat (ring_buf_space_get b) = unat (rb_size b) - (unat (tail b) - unat (head b))"
proof -
  have "unat (tail b - head b) = unat (tail b) - unat (head b)"
    using assms by (intro unat_sub) (simp add: ix_shape_def word_le_nat_alt)
  moreover have "unat (tail b) - unat (head b) \<le> unat (rb_size b)" using assms unfolding ix_shape_def by linarith
  ultimately show ?thesis unfolding ring_buf_space_get_def by (subst unat_sub) (simp_all add: word_le_nat_alt)
qed

lemma unat_plus: "unat x + unat y < 2 ^ LENGTH('a) \<Longrightarrow> unat (x + y) = unat x + unat y" for x y :: "'a :: len word"
  by (rule unat_add_lem [THEN iffD1])

lemma unat_min: "unat (min x y) = min (unat x) (unat y)"
  by (simp add: min_def word_le_nat_alt)

lemma rewind_amount:
  fixes N :: u32
  assumes "N \<noteq> 0" "N \<le> RING_BUFFER_MAX_SIZE"
  obtains k where "unat (N * (RING_BUFFER_MAX_SIZE div N)) = Suc k * unat N" "Suc k * unat N \<le> 2 ^ 31"
proof -
  have N: "0 < unat N" "unat N \<le> 2 ^ 31" using assms by (simp_all add: unat_gt_0 word_le_nat_alt)
  define q where "q = 2 ^ 31 div unat N"
  have q: "q * unat N \<le> 2 ^ 31" by (simp add: q_def)
  have "unat (RING_BUFFER_MAX_SIZE div N) = q" by (simp add: unat_div q_def)
  then have "unat (N * (RING_BUFFER_MAX_SIZE div N)) = q * unat N"
    using q by (simp add: unat_word_ariths mult.commute)
  moreover have "0 < q" using N by (simp add: q_def div_greater_zero_iff)
  ultimately show ?thesis using q that [of "q - 1"] by simp
qed

section \<open>Bytes\<close>

definition byte_shape :: "nat \<Rightarrow> ring_buf \<Rightarrow> bool" where
  "byte_shape H b \<longleftrightarrow> ix_shape H b \<and> length (buf8 b) = unat (rb_size b) \<and>
     unat (head b) \<le> unat (tmp_head b) \<and> unat (tmp_head b) \<le> unat (tail b) \<and>
     unat (tail b) \<le> unat (tmp_tail b) \<and> unat (tmp_tail b) \<le> unat (head b) + unat (rb_size b)"

abbreviation byte_ok :: "ring_buf \<Rightarrow> bool" where
  "byte_ok \<equiv> byte_shape (2 ^ 31)"

text \<open>The bytes stored, and the bytes up to the end of the space claimed.\<close>

definition bytes :: "ring_buf \<Rightarrow> u8 list" where
  "bytes b = stretch (buf8 b) (unat (head b)) (unat (tail b) - unat (head b))"

definition bytes_claimed :: "ring_buf \<Rightarrow> u8 list" where
  "bytes_claimed b = stretch (buf8 b) (unat (head b)) (unat (tmp_tail b) - unat (head b))"

lemma byte_ok_bounds:
  assumes "byte_ok b"
  shows "0 < unat (rb_size b)" "unat (rb_size b) \<le> 2 ^ 31" "unat (head b) < 2 ^ 31"
    "unat (head b + rb_size b) = unat (head b) + unat (rb_size b)"
    "length (buf8 b) = unat (rb_size b)"
    "unat (head b) \<le> unat (tmp_head b)" "unat (tmp_head b) \<le> unat (tail b)"
    "unat (tail b) \<le> unat (tmp_tail b)" "unat (tmp_tail b) \<le> unat (head b) + unat (rb_size b)"
  using assms ix_shape_bounds [of b] by (simp_all add: byte_shape_def)

lemma put_claim_spec:
  assumes ok: "byte_ok b" and claim: "ring_buf_put_claim sz b = (i, n, b')"
  defines "N \<equiv> unat (rb_size b)" and "room \<equiv> unat (head b) + unat (rb_size b) - unat (tmp_tail b)"
  shows "unat i = unat (tmp_tail b) mod N" "unat n = min (N - unat i) (min (unat sz) room)"
    "b' = b\<lparr>tmp_tail := tmp_tail b + n\<rparr>" "unat (tmp_tail b + n) = unat (tmp_tail b) + unat n"
proof -
  note [simp] = byte_ok_bounds [OF ok]
  show i: "unat i = unat (tmp_tail b) mod N"
    using claim ok by (auto simp: ring_buf_put_claim_def Let_def rb_mod_spec byte_shape_def N_def)
  then have "unat i < N" by (simp add: N_def)
  then have "unat (rb_size b - i) = N - unat i" by (simp add: N_def unat_sub word_le_nat_alt)
  moreover have "unat (head b + rb_size b - tmp_tail b) = room" by (simp add: room_def unat_sub word_le_nat_alt)
  ultimately show n: "unat n = min (N - unat i) (min (unat sz) room)"
    using claim by (auto simp: ring_buf_put_claim_def Let_def unat_min)
  show "b' = b\<lparr>tmp_tail := tmp_tail b + n\<rparr>" using claim by (auto simp: ring_buf_put_claim_def Let_def)
  have "unat (tmp_tail b) + unat n \<le> unat (head b) + unat (rb_size b)"
    using n byte_ok_bounds(9) [OF ok] unfolding room_def by linarith
  then show "unat (tmp_tail b + n) = unat (tmp_tail b) + unat n"
    using byte_ok_bounds(2,3) [OF ok] by (intro unat_plus) simp
qed

lemma get_claim_spec:
  assumes ok: "byte_ok b" and claim: "ring_buf_get_claim sz b = (i, n, b')"
  defines "N \<equiv> unat (rb_size b)" and "avail \<equiv> unat (tail b) - unat (tmp_head b)"
  shows "unat i = unat (tmp_head b) mod N" "unat n = min (N - unat i) (min (unat sz) avail)"
    "b' = b\<lparr>tmp_head := tmp_head b + n\<rparr>" "unat (tmp_head b + n) = unat (tmp_head b) + unat n"
proof -
  note [simp] = byte_ok_bounds [OF ok]
  show i: "unat i = unat (tmp_head b) mod N"
    using claim ok by (auto simp: ring_buf_get_claim_def Let_def rb_mod_spec byte_shape_def N_def)
  then have "unat i < N" by (simp add: N_def)
  then have "unat (rb_size b - i) = N - unat i" by (simp add: N_def unat_sub word_le_nat_alt)
  moreover have "unat (tail b - tmp_head b) = avail" by (simp add: avail_def unat_sub word_le_nat_alt)
  ultimately show n: "unat n = min (N - unat i) (min (unat sz) avail)"
    using claim by (auto simp: ring_buf_get_claim_def Let_def unat_min)
  show "b' = b\<lparr>tmp_head := tmp_head b + n\<rparr>" using claim by (auto simp: ring_buf_get_claim_def Let_def)
  have "unat (tmp_head b) + unat n \<le> unat (tail b)"
    using n byte_ok_bounds(7) [OF ok] unfolding avail_def by linarith
  then have "unat (tmp_head b) + unat n < 2 ^ LENGTH(32)"
    using unsigned_less [of "tail b", where ?'a = nat] by simp
  then show "unat (tmp_head b + n) = unat (tmp_head b) + unat n" by (rule unat_plus)
qed

text \<open>One round of the copying loops. Filling changes the buffer and the temporary tail only.\<close>

definition put_frame :: "ring_buf \<Rightarrow> ring_buf \<Rightarrow> bool" where
  "put_frame b b' \<longleftrightarrow> head b' = head b \<and> tail b' = tail b \<and> tmp_head b' = tmp_head b
     \<and> rb_size b' = rb_size b \<and> rb_mask b' = rb_mask b"

lemma put_round:
  assumes ok: "byte_ok b" and claim: "ring_buf_put_claim sz b = (i, n, b1)" and len: "unat n \<le> length data"
  defines "b2 \<equiv> b1\<lparr>buf8 := blit (buf8 b1) (unat i) (take (unat n) data)\<rparr>"
  shows "byte_ok b2" "bytes_claimed b2 = bytes_claimed b @ take (unat n) data"
    "put_frame b b2" "unat (tmp_tail b2) = unat (tmp_tail b) + unat n"
    "bytes b2 = bytes b"
proof -
  note bounds = byte_ok_bounds [OF ok] and c = put_claim_spec [OF ok claim]
  let ?N = "unat (rb_size b)" and ?k = "unat (tmp_tail b) - unat (head b)" and ?ys = "take (unat n) data"
  have ys: "length ?ys = unat n" using len by simp
  have fits: "unat i + unat n \<le> ?N" "?k + unat n \<le> ?N"
    using c(1,2) bounds mod_less_divisor [OF bounds(1), of "unat (tmp_tail b)"] by linarith+
  have b1: "buf8 b1 = buf8 b" "head b1 = head b" "tail b1 = tail b" "tmp_head b1 = tmp_head b" "rb_size b1 = rb_size b"
    "tmp_tail b1 = tmp_tail b + n" "rb_mask b1 = rb_mask b"
    using c(3) by simp_all
  have len2: "length (buf8 b2) = ?N" using fits ys bounds(5) by (simp add: b2_def b1)
  show "put_frame b b2" using b1 by (simp add: b2_def put_frame_def)
  show t: "unat (tmp_tail b2) = unat (tmp_tail b) + unat n" using c(4) by (simp add: b2_def b1)
  have t2: "unat (tmp_tail b2) \<le> unat (head b) + ?N" using t fits(2) bounds by linarith
  show "byte_ok b2"
    using ok len2 t t2 by (simp add: byte_shape_def ix_shape_def b2_def b1)
  have "stretch (blit (buf8 b) (unat i) ?ys) (unat (head b)) (?k + length ?ys) = stretch (buf8 b) (unat (head b)) ?k @ ?ys"
    using stretch_blit [of "unat (head b)" ?k "buf8 b" ?ys] fits ys bounds(1,5,6,7,8) by (simp add: c(1))
  moreover have "unat (tmp_tail b2) - unat (head b) = ?k + length ?ys" using t ys bounds by simp
  moreover have "buf8 b2 = blit (buf8 b) (unat i) ?ys" "head b2 = head b" by (simp_all add: b2_def b1)
  ultimately show claimed: "bytes_claimed b2 = bytes_claimed b @ ?ys" by (simp add: bytes_claimed_def)
  have prefix: "bytes x = take (unat (tail b) - unat (head b)) (bytes_claimed x)"
    if "head x = head b" "tail x = tail b" "unat (tmp_tail x) \<ge> unat (tail b)" for x
    using that bounds by (simp add: bytes_def bytes_claimed_def stretch_def take_map)
  show "bytes b2 = bytes b"
    using prefix [of b] prefix [of b2] claimed t bounds by (simp add: b2_def b1 bytes_claimed_def)
qed

lemma put_loop_spec:
  assumes "byte_ok b" "put_loop data sz acc b = (r, b')" "unat sz \<le> length data" "unat acc + unat sz < 2 ^ 32"
  shows "unat r = unat acc + min (unat sz) (unat (head b) + unat (rb_size b) - unat (tmp_tail b)) \<and> byte_ok b'
    \<and> bytes_claimed b' = bytes_claimed b @ take (min (unat sz) (unat (head b) + unat (rb_size b) - unat (tmp_tail b))) data
    \<and> put_frame b b'
    \<and> unat (tmp_tail b') = unat (tmp_tail b) + min (unat sz) (unat (head b) + unat (rb_size b) - unat (tmp_tail b))
    \<and> bytes b' = bytes b"
  using assms
proof (induction data sz acc b arbitrary: r b' rule: put_loop.induct)
  case (1 data sz acc b)
  let ?room = "unat (head b) + unat (rb_size b) - unat (tmp_tail b)"
  obtain i n b1 where claim: "ring_buf_put_claim sz b = (i, n, b1)" by (cases "ring_buf_put_claim sz b") auto
  define b2 where "b2 = b1\<lparr>buf8 := blit (buf8 b1) (unat i) (take (unat n) data)\<rparr>"
  have le: "n \<le> sz" by (rule put_claim_le [OF claim])
  note c = put_claim_spec [OF 1(2) claim]
  have n: "unat n \<le> unat sz" "unat n \<le> ?room" using c(2) by linarith+
  have acc: "unat (acc + n) = unat acc + unat n" using 1(5) n(1) by (intro unat_plus) simp
  have sub: "unat (sz - n) = unat sz - unat n" using le by (rule unat_sub)
  note rd = put_round [OF 1(2) claim, of data, folded b2_def]
  have b2: "byte_ok b2" "bytes_claimed b2 = bytes_claimed b @ take (unat n) data"
    "put_frame b b2" "unat (tmp_tail b2) = unat (tmp_tail b) + unat n"
    "bytes b2 = bytes b"
    using rd 1(4) n(1) by simp_all
  have hd2: "head b2 = head b" "rb_size b2 = rb_size b" using b2(3) by (simp_all add: put_frame_def)
  note step = 1(3) [unfolded put_loop.simps [of data], simplified claim prod.case Let_def b2_def [symmetric]]
  show ?case
  proof (cases "sz - n \<noteq> 0 \<and> n \<noteq> 0")
    case True
    then have rest: "put_loop (drop (unat n) data) (sz - n) (acc + n) b2 = (r, b')" using step by simp
    have ih: "unat r = unat (acc + n) + min (unat (sz - n)) (?room - unat n) \<and> byte_ok b'
      \<and> bytes_claimed b' = bytes_claimed b2 @ take (min (unat (sz - n)) (?room - unat n)) (drop (unat n) data)
      \<and> put_frame b2 b'
      \<and> unat (tmp_tail b') = unat (tmp_tail b2) + min (unat (sz - n)) (?room - unat n) \<and> bytes b' = bytes b2"
      using 1(1) [OF claim [symmetric] refl b2_def True b2(1) rest] 1(4,5) n(1) by (simp add: hd2 b2(4) acc sub)
    have m: "min (unat sz) ?room = unat n + min (unat sz - unat n) (?room - unat n)" using n by linarith
    have "put_frame b b'" using ih b2(3) by (simp add: put_frame_def)
    then show ?thesis using ih b2(2,4,5) by (simp add: m acc sub take_add)
  next
    case False
    then have r: "r = acc + n" "b' = b2" using step by auto
    have "min (unat sz) ?room = unat n"
      using False c(2) n mod_less_divisor [OF byte_ok_bounds(1) [OF 1(2)]] c(1)
      by (auto simp: sub unat_eq_0 [symmetric] simp del: unat_eq_0)
    then show ?thesis using b2 r acc by simp
  qed
qed

lemma get_loop_spec:
  assumes "byte_ok b" "get_loop sz acc out b = (r, out', b')" "unat acc + unat sz < 2 ^ 32"
  shows "unat r = unat acc + min (unat sz) (unat (tail b) - unat (tmp_head b))
    \<and> out' = out @ stretch (buf8 b) (unat (tmp_head b)) (min (unat sz) (unat (tail b) - unat (tmp_head b)))
    \<and> b' = b\<lparr>tmp_head := tmp_head b + of_nat (min (unat sz) (unat (tail b) - unat (tmp_head b)))\<rparr> \<and> byte_ok b'"
  using assms
proof (induction sz acc out b arbitrary: r out' b' rule: get_loop.induct)
  case (1 sz acc out b)
  let ?avail = "unat (tail b) - unat (tmp_head b)"
  obtain i n b1 where claim: "ring_buf_get_claim sz b = (i, n, b1)" by (cases "ring_buf_get_claim sz b") auto
  have le: "n \<le> sz" by (rule get_claim_le [OF claim])
  note c = get_claim_spec [OF 1(2) claim] and bounds = byte_ok_bounds [OF 1(2)]
  have n: "unat n \<le> unat sz" "unat n \<le> ?avail" "unat i + unat n \<le> unat (rb_size b)"
    using c(1,2) mod_less_divisor [OF bounds(1), of "unat (tmp_head b)"] by linarith+
  have acc: "unat (acc + n) = unat acc + unat n" using 1(4) n(1) by (intro unat_plus) simp
  have sub: "unat (sz - n) = unat sz - unat n" using le by (rule unat_sub)
  have b1: "byte_ok b1" "buf8 b1 = buf8 b" "tail b1 = tail b" "unat (tmp_head b1) = unat (tmp_head b) + unat n"
    using 1(2) c(3,4) n(2) bounds by (simp_all add: byte_shape_def ix_shape_def)
  have seen: "take (unat n) (drop (unat i) (buf8 b1)) = stretch (buf8 b) (unat (tmp_head b)) (unat n)"
    using stretch_line [of "unat (tmp_head b)" "buf8 b" "unat n"] n(3) c(1) bounds(5) by (simp add: b1)
  define out1 where "out1 = out @ take (unat n) (drop (unat i) (buf8 b1))"
  have out1: "out1 = out @ stretch (buf8 b) (unat (tmp_head b)) (unat n)" by (simp only: out1_def seen)
  note step = 1(3) [unfolded get_loop.simps [of sz] claim prod.case Let_def, folded out1_def]
  show ?case
  proof (cases "sz - n \<noteq> 0 \<and> n \<noteq> 0")
    case True
    then have rest: "get_loop (sz - n) (acc + n) out1 b1 = (r, out', b')" using step by simp
    let ?m = "min (unat (sz - n)) (unat (tail b1) - unat (tmp_head b1))"
    have ih: "unat r = unat (acc + n) + ?m \<and> out' = out1 @ stretch (buf8 b1) (unat (tmp_head b1)) ?m
      \<and> b' = b1\<lparr>tmp_head := tmp_head b1 + of_nat ?m\<rparr> \<and> byte_ok b'"
    proof (rule 1(1) [OF claim [symmetric] refl out1_def True b1(1) rest])
      show "unat (acc + n) + unat (sz - n) < 2 ^ 32" using 1(4) n(1) acc sub by simp
    qed
    have m: "min (unat sz) ?avail = unat n + ?m" unfolding b1(3,4) sub using n by linarith
    have "b1\<lparr>tmp_head := tmp_head b1 + of_nat ?m\<rparr> = b\<lparr>tmp_head := tmp_head b + of_nat (unat n + ?m)\<rparr>"
      using c(3) by (simp add: add.assoc)
    with ih show ?thesis unfolding m by (auto simp: acc out1 stretch_add b1(2,4))
  next
    case False
    then have r: "r = acc + n" "out' = out1" "b' = b1" using step by auto
    have "min (unat sz) ?avail = unat n"
      using False c(2) n mod_less_divisor [OF bounds(1)] c(1)
      by (auto simp: sub unat_eq_0 [symmetric] simp del: unat_eq_0)
    then show ?thesis using b1(1) r acc c(3) by (simp add: out1)
  qed
qed

text \<open>Committing what was put.\<close>

lemma put_finish_spec:
  assumes ok: "byte_ok b" and "unat (tail b) + unat sz < 2 ^ 32"
  shows "if unat (tail b) + unat sz \<le> unat (head b) + unat (rb_size b)
    then ring_buf_put_finish sz b = (0, b\<lparr>tail := tail b + sz, tmp_tail := tail b + sz\<rparr>)
      \<and> byte_ok (b\<lparr>tail := tail b + sz, tmp_tail := tail b + sz\<rparr>)
      \<and> bytes (b\<lparr>tail := tail b + sz, tmp_tail := tail b + sz\<rparr>) = bytes b @ stretch (buf8 b) (unat (tail b)) (unat sz)
    else ring_buf_put_finish sz b = (- EINVAL, b)"
proof -
  note bounds = byte_ok_bounds [OF ok]
  have t: "unat (tail b + sz) = unat (tail b) + unat sz" using assms(2) by (intro unat_plus) simp
  have guard: "tail b + sz > head b + rb_size b \<longleftrightarrow> \<not> unat (tail b) + unat sz \<le> unat (head b) + unat (rb_size b)"
    using bounds(4) t by (simp add: word_less_nat_alt not_le)
  have "unat (tail b) + unat sz - unat (head b) = (unat (tail b) - unat (head b)) + unat sz"
    "unat (head b) + (unat (tail b) - unat (head b)) = unat (tail b)" using bounds by simp_all
  then have "stretch (buf8 b) (unat (head b)) (unat (tail b) + unat sz - unat (head b)) =
      bytes b @ stretch (buf8 b) (unat (tail b)) (unat sz)"
    by (simp only: bytes_def stretch_add)
  then have "bytes (b\<lparr>tail := tail b + sz, tmp_tail := tail b + sz\<rparr>) = bytes b @ stretch (buf8 b) (unat (tail b)) (unat sz)"
    by (simp add: bytes_def t)
  moreover have "byte_ok (b\<lparr>tail := tail b + sz, tmp_tail := tail b + sz\<rparr>)"
    if "unat (tail b) + unat sz \<le> unat (head b) + unat (rb_size b)"
    using ok that bounds by (simp add: byte_shape_def ix_shape_def t)
  ultimately show ?thesis using guard by (simp add: ring_buf_put_finish_def)
qed

lemma put_spec:
  assumes ok: "byte_ok b" and quiet: "tmp_tail b = tail b" and sz: "unat sz = length data"
    and put: "ring_buf_put data sz b = (n, b')"
  shows "unat n = min (length data) (unat (rb_size b) - length (bytes b))" "byte_ok b'"
    "bytes b' = bytes b @ take (unat n) data" "rb_size b' = rb_size b"
proof -
  note bounds = byte_ok_bounds [OF ok]
  let ?m = "min (unat sz) (unat (head b) + unat (rb_size b) - unat (tmp_tail b))"
  obtain r b1 where loop: "put_loop data sz 0 b = (r, b1)" by (cases "put_loop data sz 0 b") auto
  have lt: "unat sz < 2 ^ 32" using unsigned_less [of sz, where ?'a = nat] by simp
  have l: "unat r = ?m" "byte_ok b1" "bytes_claimed b1 = bytes_claimed b @ take ?m data"
    "put_frame b b1" "unat (tmp_tail b1) = unat (tmp_tail b) + ?m"
    using put_loop_spec [OF ok loop] sz lt by simp_all
  have fits: "unat (tail b1) + unat r \<le> unat (head b1) + unat (rb_size b1)" "unat (tail b1) + unat r < 2 ^ 32"
    using l(1,4) bounds quiet by (auto simp: put_frame_def min_def)
  note fin = put_finish_spec [OF l(2) fits(2), simplified if_P [OF fits(1)]]
  have res: "n = r" "b' = b1\<lparr>tail := tail b1 + r, tmp_tail := tail b1 + r\<rparr>"
    using put loop fin by (auto simp: ring_buf_put_def)
  have t: "tail b1 + r = tmp_tail b1"
    using l(1,4,5) quiet fits(2) by (intro word_unat_eq_iff [THEN iffD2]) (simp add: put_frame_def unat_plus)
  show "byte_ok b'" using fin res(2) by simp
  show "rb_size b' = rb_size b" using l(4) res(2) by (simp add: put_frame_def)
  show "unat n = min (length data) (unat (rb_size b) - length (bytes b))"
    using res(1) l(1) sz quiet bounds by (simp add: bytes_def)
  have "bytes b' = bytes_claimed b1" by (simp add: res(2) bytes_def bytes_claimed_def t)
  then show "bytes b' = bytes b @ take (unat n) data"
    using l(1,3) res(1) quiet by (simp add: bytes_def bytes_claimed_def)
qed

text \<open>Dropping what was taken, and moving the indices back.\<close>

lemma rewind_index:
  assumes ok: "ix_shape (2 ^ 31 + unat (rb_size b)) b" and "\<not> head b < RING_BUFFER_MAX_SIZE"
  defines "rew \<equiv> rb_size b * (RING_BUFFER_MAX_SIZE div rb_size b)"
  obtains k where "unat rew = Suc k * unat (rb_size b)" "unat rew \<le> unat (head b)" "unat (head b) - unat rew < 2 ^ 31"
    "\<And>x. unat (head b) \<le> unat x \<Longrightarrow> unat (x - rew) = unat x - unat rew"
proof -
  obtain k where k: "unat rew = Suc k * unat (rb_size b)" "Suc k * unat (rb_size b) \<le> 2 ^ 31"
    using ok rewind_amount [of "rb_size b"] unfolding rew_def ix_shape_def by blast
  have lo: "unat rew \<le> unat (head b)" using assms(2) k by (simp add: word_less_nat_alt)
  moreover have "unat (head b) - unat rew < 2 ^ 31"
  proof -
    have "unat (head b) < 2 ^ 31 + unat (rb_size b)" using ok by (simp add: ix_shape_def)
    then show ?thesis using k lo by simp
  qed
  moreover have "unat (x - rew) = unat x - unat rew" if "unat (head b) \<le> unat x" for x
    using that lo by (intro unat_sub) (simp add: word_le_nat_alt)
  ultimately show ?thesis using that k(1) by blast
qed

lemma byte_rewind:
  assumes ok: "byte_shape (2 ^ 31 + unat (rb_size b)) b"
  shows "byte_ok (byte_indexes_rewind b)" "bytes (byte_indexes_rewind b) = bytes b"
    "rb_size (byte_indexes_rewind b) = rb_size b"
proof -
  have "byte_ok (byte_indexes_rewind b) \<and> bytes (byte_indexes_rewind b) = bytes b"
  proof (cases "head b < RING_BUFFER_MAX_SIZE")
    case True
    with ok show ?thesis
      by (simp add: byte_indexes_rewind_def ring_buf_get_rewind_threshold_def byte_shape_def ix_shape_def word_less_nat_alt)
  next
    case False
    let ?N = "unat (rb_size b)"
    define rew where "rew = rb_size b * (RING_BUFFER_MAX_SIZE div rb_size b)"
    obtain k where k: "unat rew = Suc k * ?N" and lo: "unat rew \<le> unat (head b)" "unat (head b) - unat rew < 2 ^ 31"
      and sub: "\<And>x. unat (head b) \<le> unat x \<Longrightarrow> unat (x - rew) = unat x - unat rew"
      using rewind_index [of b] ok False unfolding rew_def byte_shape_def by blast
    have o: "unat (head b) \<le> unat (tmp_head b)" "unat (tmp_head b) \<le> unat (tail b)"
      "unat (tail b) \<le> unat (tmp_tail b)" "unat (tmp_tail b) \<le> unat (head b) + ?N"
      "unat (head b) < 2 ^ 31 + ?N" "length (buf8 b) = ?N" "unat (tail b) \<le> unat (head b) + ?N"
      using ok by (simp_all add: byte_shape_def ix_shape_def)
    note subs = sub [OF order_refl] sub [OF o(1)] sub [OF order_trans [OF o(1,2)]]
      sub [OF order_trans [OF order_trans [OF o(1,2)] o(3)]]
    let ?b = "b\<lparr>tail := tail b - rew, head := head b - rew, tmp_head := tmp_head b - rew, tmp_tail := tmp_tail b - rew\<rparr>"
    have eq: "byte_indexes_rewind b = ?b"
      using False by (simp add: byte_indexes_rewind_def ring_buf_get_rewind_threshold_def rew_def Let_def)
    have "byte_ok ?b"
      using ok o lo by (simp add: byte_shape_def ix_shape_def subs, intro conjI; linarith)
    moreover have "unat (head b) = (unat (head b) - unat rew) + Suc k * length (buf8 b)" using lo k o(6) by simp
    then have "stretch (buf8 b) (unat (head b)) n = stretch (buf8 b) (unat (head b) - unat rew) n" for n
      using stretch_shift [of "buf8 b" "unat (head b) - unat rew" "Suc k" n] by simp
    then have "bytes ?b = bytes b" using lo o by (simp add: bytes_def subs)
    ultimately show ?thesis by (simp only: eq)
  qed
  then show "byte_ok (byte_indexes_rewind b)" "bytes (byte_indexes_rewind b) = bytes b" by simp_all
  show "rb_size (byte_indexes_rewind b) = rb_size b" by (simp add: byte_indexes_rewind_def Let_def)
qed

lemma get_finish_spec:
  assumes ok: "byte_ok b" and "unat (head b) + unat sz < 2 ^ 32"
  shows "if unat (head b) + unat sz \<le> unat (tail b)
    then \<exists>b'. ring_buf_get_finish sz b = (0, b') \<and> byte_ok b' \<and> bytes b' = drop (unat sz) (bytes b) \<and> rb_size b' = rb_size b
    else ring_buf_get_finish sz b = (- EINVAL, b)"
proof -
  note bounds = byte_ok_bounds [OF ok]
  let ?b = "b\<lparr>head := head b + sz, tmp_head := head b + sz\<rparr>"
  have h: "unat (head b + sz) = unat (head b) + unat sz" using assms(2) by (intro unat_plus) simp
  have guard: "head b + sz > tail b \<longleftrightarrow> \<not> unat (head b) + unat sz \<le> unat (tail b)"
    using h by (simp add: word_less_nat_alt not_le)
  show ?thesis
  proof (cases "unat (head b) + unat sz \<le> unat (tail b)")
    case True
    have "byte_shape (2 ^ 31 + unat (rb_size ?b)) ?b"
      using ok True bounds by (simp add: byte_shape_def ix_shape_def h)
    note rw = byte_rewind [OF this]
    have "unat (tail b) - unat (head b) = unat sz + (unat (tail b) - (unat (head b) + unat sz))" using True by simp
    then have "bytes b = stretch (buf8 b) (unat (head b)) (unat sz) @ bytes ?b"
      by (simp add: bytes_def h stretch_add)
    then have "bytes ?b = drop (unat sz) (bytes b)" by simp
    with rw True guard show ?thesis by (simp add: ring_buf_get_finish_def)
  qed (use guard in \<open>simp add: ring_buf_get_finish_def\<close>)
qed

lemma get_spec:
  assumes ok: "byte_ok b" and quiet: "tmp_head b = head b" and get: "ring_buf_get sz b = (n, out, b')"
  shows "out = take (unat sz) (bytes b)" "unat n = length out" "byte_ok b'" "bytes b' = drop (unat sz) (bytes b)"
    "rb_size b' = rb_size b"
proof -
  let ?m = "min (unat sz) (unat (tail b) - unat (head b))"
  note bounds = byte_ok_bounds [OF ok]
  obtain r b1 out' where loop: "get_loop sz 0 [] b = (r, out', b1)" by (cases "get_loop sz 0 [] b") auto
  have lt: "unat sz < 2 ^ 32" using unsigned_less [of sz, where ?'a = nat] by simp
  have l: "unat r = ?m" "out' = stretch (buf8 b) (unat (head b)) ?m"
    "b1 = b\<lparr>tmp_head := tmp_head b + of_nat ?m\<rparr>" "byte_ok b1"
    using get_loop_spec [OF ok loop] lt quiet by auto
  have b1: "head b1 = head b" "tail b1 = tail b" "bytes b1 = bytes b" "rb_size b1 = rb_size b"
    using l(3) by (simp_all add: bytes_def)
  have fits: "unat (head b1) + unat r \<le> unat (tail b1)" using l(1) bounds b1 by simp
  then have "unat (head b1) + unat r < 2 ^ 32" using unsigned_less [of "tail b1", where ?'a = nat] by simp
  from get_finish_spec [OF l(4) this] fits obtain b2 where fin: "ring_buf_get_finish r b1 = (0, b2)"
    "byte_ok b2" "bytes b2 = drop (unat r) (bytes b)" "rb_size b2 = rb_size b"
    by (auto simp: b1)
  have res: "n = r" "out = out'" "b' = b2" using get loop fin(1) by (simp_all add: ring_buf_get_def)
  show "out = take (unat sz) (bytes b)" by (simp add: res l(2) bytes_def stretch_def take_map min_def)
  show "unat n = length out" by (simp add: res l)
  show "byte_ok b'" "rb_size b' = rb_size b" using fin res by simp_all
  show "bytes b' = drop (unat sz) (bytes b)" using fin(3) l(1) by (simp add: res bytes_def min_def)
qed

subsection \<open>A queue of bytes\<close>

text \<open>What clients see of an operation, and what a bounded queue of bytes does then.\<close>

datatype byte_event =
    BytesPut "u8 list" nat
  | BytesGot nat "u8 list"
  | Committed "u8 list"
  | Released "u8 list"
  | Shown nat "u8 list"
  | Still
  | Emptied

fun byte_spec :: "nat \<Rightarrow> byte_event \<Rightarrow> u8 list \<Rightarrow> u8 list option" where
  "byte_spec cap (BytesPut data n) q = (if n = min (length data) (cap - length q) then Some (q @ take n data) else None)"
| "byte_spec cap (BytesGot m out) q = (if out = take m q then Some (drop m q) else None)"
| "byte_spec cap (Committed ys) q = (if length q + length ys \<le> cap then Some (q @ ys) else None)"
| "byte_spec cap (Released ys) q = (if take (length ys) q = ys then Some (drop (length ys) q) else None)"
| "byte_spec cap (Shown k ys) q = (if take (length ys) (drop k q) = ys then Some q else None)"
| "byte_spec cap Still q = Some q"
| "byte_spec cap Emptied q = Some []"

fun byte_run :: "nat \<Rightarrow> byte_event list \<Rightarrow> u8 list \<Rightarrow> u8 list option" where
  "byte_run cap [] q = Some q"
| "byte_run cap (e # es) q = Option.bind (byte_spec cap e q) (byte_run cap es)"

fun bytes_in :: "byte_event \<Rightarrow> u8 list" where
  "bytes_in (BytesPut data n) = take n data"
| "bytes_in (Committed ys) = ys"
| "bytes_in _ = []"

fun bytes_out :: "byte_event \<Rightarrow> u8 list" where
  "bytes_out (BytesGot m out) = out"
| "bytes_out (Released ys) = ys"
| "bytes_out _ = []"

lemma byte_run_order:
  "byte_run cap es q = Some q' \<Longrightarrow> Emptied \<notin> set es \<Longrightarrow> q @ concat (map bytes_in es) = concat (map bytes_out es) @ q'"
proof (induction es arbitrary: q)
  case (Cons e es)
  from Cons.prems(1) obtain q1 where q1: "byte_spec cap e q = Some q1" "byte_run cap es q1 = Some q'"
    by (auto simp: bind_eq_Some_conv)
  have "q @ bytes_in e = bytes_out e @ q1"
  proof (cases e)
    case (Released ys)
    with q1(1) have "take (length ys) q = ys" "q1 = drop (length ys) q" by (auto split: if_splits)
    then show ?thesis using append_take_drop_id [of "length ys" q] Released by simp
  qed (use q1(1) Cons.prems(2) in \<open>auto split: if_splits\<close>)
  moreover have "q1 @ concat (map bytes_in es) = concat (map bytes_out es) @ q'"
    using Cons.IH [OF q1(2)] Cons.prems(2) by simp
  ultimately have "(q @ bytes_in e) @ concat (map bytes_in es) = bytes_out e @ concat (map bytes_out es) @ q'" by simp
  then show ?case by simp
qed simp

text \<open>
  The operations. The copying ones are for a side that has no claim open. Between the claim and the
  commit of a producer, who may be interrupted by the consumer at any point, its bytes are written
  one by one anywhere in the space claimed. The sizes passed to the finishing functions are those a
  client can have claimed: small enough not to wrap around with the index.
\<close>

inductive byte_op :: "byte_event \<Rightarrow> ring_buf \<Rightarrow> ring_buf \<Rightarrow> bool" where
  put: "tmp_tail b = tail b \<Longrightarrow> unat sz = length data \<Longrightarrow> ring_buf_put data sz b = (n, b') \<Longrightarrow>
    byte_op (BytesPut data (unat n)) b b'"
| get: "tmp_head b = head b \<Longrightarrow> ring_buf_get sz b = (n, out, b') \<Longrightarrow> byte_op (BytesGot (unat sz) out) b b'"
| put_claim: "ring_buf_put_claim sz b = (i, n, b') \<Longrightarrow> byte_op Still b b'"
| fill: "unat (tail b) \<le> p \<Longrightarrow> p < unat (tmp_tail b) \<Longrightarrow>
    byte_op Still b (b\<lparr>buf8 := (buf8 b)[p mod unat (rb_size b) := x]\<rparr>)"
| put_finish: "unat (tail b) + unat sz < 2 ^ 32 \<Longrightarrow> ring_buf_put_finish sz b = (r, b') \<Longrightarrow>
    byte_op (if r = 0 then Committed (stretch (buf8 b) (unat (tail b)) (unat sz)) else Still) b b'"
| get_claim: "ring_buf_get_claim sz b = (i, n, b') \<Longrightarrow>
    byte_op (Shown (unat (tmp_head b) - unat (head b)) (take (unat n) (drop (unat i) (buf8 b)))) b b'"
| get_finish: "unat (head b) + unat sz < 2 ^ 32 \<Longrightarrow> ring_buf_get_finish sz b = (r, b') \<Longrightarrow>
    byte_op (if r = 0 then Released (stretch (buf8 b) (unat (head b)) (unat sz)) else Still) b b'"
| reset: "byte_op Emptied b (ring_buf_reset b)"

inductive byte_runs :: "ring_buf \<Rightarrow> byte_event list \<Rightarrow> ring_buf \<Rightarrow> bool" where
  runs_Nil: "byte_runs b [] b"
| runs_Cons: "byte_op e b b1 \<Longrightarrow> byte_runs b1 es b' \<Longrightarrow> byte_runs b (e # es) b'"

lemma stretch_outside:
  assumes "n \<le> m" "m < length xs"
  shows "stretch (xs[(h + m) mod length xs := x]) h n = stretch xs h n"
proof -
  have "(h + m) mod length xs \<noteq> (h + j) mod length xs" if "j < n" for j
    using mod_add_neq [of j m "length xs" h] that assms by simp
  then show ?thesis by (simp add: stretch_def)
qed

lemma stretch_part: "m + n \<le> k \<Longrightarrow> stretch xs (h + m) n = take n (drop m (stretch xs h k))"
  by (simp add: stretch_def take_map drop_map list_eq_iff_nth_eq add.assoc)

lemma byte_op_ok:
  assumes "byte_op e b b'" "byte_ok b"
  shows "byte_spec (unat (rb_size b)) e (bytes b) = Some (bytes b') \<and> byte_ok b' \<and> rb_size b' = rb_size b"
  using assms
proof cases
  case (put sz data n)
  then show ?thesis using put_spec [OF assms(2) put(2-4)] by simp
next
  case (get sz n out)
  then show ?thesis using get_spec [OF assms(2) get(2,3)] by simp
next
  case (put_claim sz i n)
  note c = put_claim_spec [OF assms(2) put_claim(2)] and bounds = byte_ok_bounds [OF assms(2)]
  have "unat (tmp_tail b) + unat n \<le> unat (head b) + unat (rb_size b)" using c(2) bounds(9) by linarith
  then have "byte_ok b'" using assms(2) c(3,4) by (simp add: byte_shape_def ix_shape_def)
  then show ?thesis using put_claim(1) c(3) by (simp add: bytes_def)
next
  case (fill p x)
  note bounds = byte_ok_bounds [OF assms(2)]
  have "stretch ((buf8 b)[(unat (head b) + (p - unat (head b))) mod length (buf8 b) := x]) (unat (head b))
      (unat (tail b) - unat (head b)) = bytes b"
    unfolding bytes_def using fill(3,4) bounds by (intro stretch_outside) linarith+
  then have "bytes b' = bytes b" using fill(2,3) bounds by (simp add: bytes_def)
  moreover have "byte_ok b'" using assms(2) fill(2) by (simp add: byte_shape_def ix_shape_def)
  ultimately show ?thesis using fill(1,2) by simp
next
  case (put_finish sz r)
  note bounds = byte_ok_bounds [OF assms(2)]
  have "length (bytes b) + unat sz \<le> unat (rb_size b)" if "unat (tail b) + unat sz \<le> unat (head b) + unat (rb_size b)"
    using that bounds by (simp add: bytes_def)
  with put_finish put_finish_spec [OF assms(2) put_finish(2)] show ?thesis
    using assms(2) by (auto split: if_splits)
next
  case (get_claim sz i n)
  note c = get_claim_spec [OF assms(2) get_claim(2)] and bounds = byte_ok_bounds [OF assms(2)]
  let ?m = "unat (tmp_head b) - unat (head b)"
  have n: "unat i + unat n \<le> unat (rb_size b)" "unat (tmp_head b) + unat n \<le> unat (tail b)"
    using c(1,2) mod_less_divisor [OF bounds(1), of "unat (tmp_head b)"] bounds(7) by linarith+
  have "take (unat n) (drop (unat i) (buf8 b)) = stretch (buf8 b) (unat (tmp_head b)) (unat n)"
    using stretch_line [of "unat (tmp_head b)" "buf8 b" "unat n"] n(1) c(1) bounds(5) by simp
  also have "\<dots> = take (unat n) (drop ?m (bytes b))"
    using stretch_part [of ?m "unat n" "unat (tail b) - unat (head b)" "buf8 b" "unat (head b)"] n(2) bounds(6)
    by (simp add: bytes_def)
  finally have seen: "take (unat n) (drop (unat i) (buf8 b)) = take (unat n) (drop ?m (bytes b))" .
  have "byte_ok b'" using assms(2) c(3,4) n(2) bounds by (simp add: byte_shape_def ix_shape_def)
  moreover have "bytes b' = bytes b" "rb_size b' = rb_size b" using c(3) by (simp_all add: bytes_def)
  moreover have "min (length (bytes b) - ?m) (unat n) = unat n" using n(2) bounds by (simp add: bytes_def)
  ultimately show ?thesis unfolding get_claim(1) seen by simp
next
  case (get_finish sz r)
  have "stretch (buf8 b) (unat (head b)) (unat sz) = take (unat sz) (bytes b)" if "unat (head b) + unat sz \<le> unat (tail b)"
    using that stretch_part [of 0 "unat sz" "unat (tail b) - unat (head b)" "buf8 b" "unat (head b)"] by (simp add: bytes_def)
  with get_finish get_finish_spec [OF assms(2) get_finish(2)] show ?thesis
    using assms(2) by (auto split: if_splits)
next
  case reset
  then show ?thesis using assms(2) by (simp add: ring_buf_reset_def bytes_def byte_shape_def ix_shape_def stretch_def)
qed

lemma byte_runs_ok:
  "byte_runs b es b' \<Longrightarrow> byte_ok b \<Longrightarrow>
   byte_run (unat (rb_size b)) es (bytes b) = Some (bytes b') \<and> byte_ok b' \<and> rb_size b' = rb_size b"
proof (induction rule: byte_runs.induct)
  case (runs_Cons e b b1 es b')
  with byte_op_ok [OF runs_Cons(1,4)] show ?case by simp
qed simp

lemma ring_buf_init_ok:
  "sz \<noteq> 0 \<Longrightarrow> sz \<le> RING_BUFFER_MAX_SIZE \<Longrightarrow> length data8 = unat sz \<Longrightarrow>
   byte_ok (ring_buf_init sz data32 data8) \<and> bytes (ring_buf_init sz data32 data8) = []"
  by (simp add: ring_buf_init_def byte_shape_def ix_shape_def bytes_def stretch_def)

text \<open>
  (C12) In byte mode a ring buffer is a bounded queue of bytes. In every run of its operations, copying or
  in place, with the claims of a producer and a consumer open at the same time and the indices
  moved back at any point, all that clients see is what such a queue of the buffer's size shows.
  Until it is reset, the bytes it held and those put are, in this order, those got and those it holds.
\<close>

theorem ring_bytes_fifo:
  assumes "byte_runs b es b'" "byte_ok b"
  shows "byte_run (unat (rb_size b)) es (bytes b) = Some (bytes b') \<and>
    (Emptied \<notin> set es \<longrightarrow> bytes b @ concat (map bytes_in es) = concat (map bytes_out es) @ bytes b')"
  using byte_runs_ok [OF assms] byte_run_order by blast

text \<open>A buffer of three bytes whose indices are about to be moved back, with a wrap around the end.\<close>

definition boot_ring :: ring_buf where
  "boot_ring = (ring_buf_init 3 [] [7, 8, 9])\<lparr>head := 0x7fffffff, tmp_head := 0x7fffffff, tail := 0x80000000, tmp_tail := 0x80000000\<rparr>"

lemma boot_ring_ok: "byte_ok boot_ring" "bytes boot_ring = [8]"
  by (simp_all add: boot_ring_def ring_buf_init_def is_power_of_two_def byte_shape_def ix_shape_def bytes_def stretch_def)

lemmas ring_eval = boot_ring_def ring_buf_init_def is_power_of_two_def ring_buf_get_def ring_buf_put_def
  ring_buf_put_claim_def ring_buf_get_claim_def ring_buf_put_finish_def ring_buf_get_finish_def rb_mod_def
  byte_indexes_rewind_def ring_buf_get_rewind_threshold_def blit_def Let_def min_def word_le_nat_alt

theorem ring_bytes_fifo_witness:
  "byte_runs boot_ring [BytesPut [1, 2, 3] 2, BytesGot 2 [8, 1]]
     \<lparr>head = 3, tail = 4, dropped_put_count = 0, tmp_tail = 4, tmp_head = 3,
      rb_size = 3, buf32 = [], buf8 = [2, 8, 1], rb_mask = 0\<rparr> \<and>
   [8] @ [1, 2] = [8, 1] @ bytes
     \<lparr>head = 3, tail = 4, dropped_put_count = 0, tmp_tail = 4, tmp_head = 3,
      rb_size = 3, buf32 = [], buf8 = [2, 8, 1], rb_mask = 0\<rparr>"
proof -
  let ?b = "\<lparr>head = 3, tail = 4, dropped_put_count = 0, tmp_tail = 4, tmp_head = 3,
      rb_size = 3, buf32 = [], buf8 = [2, 8, 1], rb_mask = 0\<rparr> :: ring_buf"
  let ?b1 = "\<lparr>head = 0x7fffffff, tail = 0x80000002, dropped_put_count = 0, tmp_tail = 0x80000002, tmp_head = 0x7fffffff,
      rb_size = 3, buf32 = [], buf8 = [2, 8, 1], rb_mask = 0\<rparr> :: ring_buf"
  have "ring_buf_put [1, 2, 3] 3 boot_ring = (2, ?b1)"
    by (simp add: ring_eval put_loop.simps [of "[1, 2, 3]" 3] put_loop.simps [of "[2, 3]" 2] put_loop.simps [of "[3]" 1])
  from byte_op.put [OF _ _ this] have op1: "byte_op (BytesPut [1, 2, 3] 2) boot_ring ?b1" by (simp add: boot_ring_def)
  have "ring_buf_get 2 ?b1 = (2, [8, 1], ?b)"
    by (simp add: ring_eval get_loop.simps [of 2 0])
  from byte_op.get [OF _ this] have op2: "byte_op (BytesGot 2 [8, 1]) ?b1 ?b" by simp
  have run: "byte_runs boot_ring [BytesPut [1, 2, 3] 2, BytesGot 2 [8, 1]] ?b"
    by (rule runs_Cons [OF op1 runs_Cons [OF op2 runs_Nil]])
  with ring_bytes_fifo [OF run boot_ring_ok(1)] show ?thesis by (simp add: boot_ring_ok(2))
qed

interpretation ring_sys: invariant_system
  "\<lambda>b. \<exists>sz data32 data8. sz \<noteq> 0 \<and> sz \<le> RING_BUFFER_MAX_SIZE \<and> length data8 = unat sz \<and> b = ring_buf_init sz data32 data8"
  "\<lambda>b b'. \<exists>e. byte_op e b b'" byte_ok
  by unfold_locales (use ring_buf_init_ok byte_op_ok in blast)+

text \<open>
  (C40) A ring buffer of up to 2 GiB is well formed after any operations: the indices stay in order,
  no further apart than the size and below the point where they would wrap around; the free space is the size less the
  bytes held; it is empty when it holds none; and no claim reaches outside the buffer.
\<close>

theorem ring_reachable_ok:
  assumes "reachable (\<lambda>b. \<exists>sz data32 data8. sz \<noteq> 0 \<and> sz \<le> RING_BUFFER_MAX_SIZE \<and> length data8 = unat sz
      \<and> b = ring_buf_init sz data32 data8) (\<lambda>b b'. \<exists>e. byte_op e b b') b"
  shows "byte_ok b \<and> unat (ring_buf_space_get b) + length (bytes b) = unat (ring_buf_capacity_get b)
    \<and> (ring_buf_is_empty b \<longleftrightarrow> bytes b = [])
    \<and> (\<forall>sz i n b'. ring_buf_put_claim sz b = (i, n, b') \<longrightarrow> unat i + unat n \<le> length (buf8 b))
    \<and> (\<forall>sz i n b'. ring_buf_get_claim sz b = (i, n, b') \<longrightarrow> unat i + unat n \<le> length (buf8 b))"
proof -
  have ok: "byte_ok b" using ring_sys.reachable_inv [OF assms] .
  note bounds = byte_ok_bounds [OF ok]
  have "unat (ring_buf_space_get b) + length (bytes b) = unat (ring_buf_capacity_get b)"
    using ok space_get [of b] bounds by (simp add: byte_shape_def ring_buf_capacity_get_def bytes_def)
  moreover have "ring_buf_is_empty b \<longleftrightarrow> length (bytes b) = 0"
    using bounds by (auto simp: ring_buf_is_empty_def bytes_def word_unat_eq_iff)
  moreover have "unat i + unat n \<le> length (buf8 b)" if "ring_buf_put_claim sz b = (i, n, b')" for sz i n b'
    using put_claim_spec(1,2) [OF ok that] mod_less_divisor [OF bounds(1), of "unat (tmp_tail b)"] bounds(5) by linarith
  moreover have "unat i + unat n \<le> length (buf8 b)" if "ring_buf_get_claim sz b = (i, n, b')" for sz i n b'
    using get_claim_spec(1,2) [OF ok that] mod_less_divisor [OF bounds(1), of "unat (tmp_head b)"] bounds(5) by linarith
  ultimately show ?thesis using ok by simp
qed

theorem ring_reachable_ok_witness:
  "byte_ok (ring_buf_init 4 [] [1, 2, 3, 4]) \<and> unat (ring_buf_space_get (ring_buf_init 4 [] [1, 2, 3, 4])) = 4"
proof -
  have "reachable (\<lambda>b. \<exists>sz data32 data8. sz \<noteq> 0 \<and> sz \<le> RING_BUFFER_MAX_SIZE \<and> length data8 = unat sz
      \<and> b = ring_buf_init sz data32 data8) (\<lambda>b b'. \<exists>e. byte_op e b b') (ring_buf_init 4 [] [1, 2, 3, 4])"
    by (rule reach_init) (intro exI [of _ 4] exI [of _ "[]"] exI [of _ "[1, 2, 3, 4]"], simp)
  from ring_reachable_ok [OF this] show ?thesis
    by (simp add: ring_buf_init_def ring_buf_capacity_get_def bytes_def)
qed

text \<open>
  The guard of \<open>ring_buf_put_finish\<close> adds the size to an index without looking for a wrap-around: a size
  near the largest 32-bit number is accepted and moves the tail back, taking stored bytes away.
\<close>

lemma put_finish_wraps: "ring_buf_put_finish 0xffffffff boot_ring = (0, boot_ring\<lparr>tail := 0x7fffffff, tmp_tail := 0x7fffffff\<rparr>)"
  by (simp add: ring_buf_put_finish_def boot_ring_def ring_buf_init_def)

section \<open>Items\<close>

lemma ring_element_fields [simp]:
  "elem_type (ring_element type len value) = type"
  "elem_length (ring_element type len value) = len"
  "elem_value (ring_element type len value) = value"
  by (rule bit_word_eqI, auto simp: elem_type_def elem_length_def elem_value_def ring_element_def bit_simps
      dest: bit_imp_le_length)+

type_synonym item = "u16 \<times> u8 \<times> u32 list"

definition item_words :: "item \<Rightarrow> u32 list" where
  "item_words = (\<lambda>(type, value, data). ring_element type (of_nat (length data)) value # data)"

definition words :: "ring_buf \<Rightarrow> u32 list" where
  "words b = stretch (buf32 b) (unat (head b)) (unat (tail b) - unat (head b))"

definition item_shape :: "nat \<Rightarrow> ring_buf \<Rightarrow> bool" where
  "item_shape H b \<longleftrightarrow> ix_shape H b \<and> length (buf32 b) = unat (rb_size b)"

definition holds_items :: "ring_buf \<Rightarrow> item list \<Rightarrow> bool" where
  "holds_items b q \<longleftrightarrow> item_shape (2 ^ 31) b \<and> words b = concat (map item_words q)
     \<and> (\<forall>(type, value, data) \<in> set q. length data < 256)"

text \<open>The queue of items a ring buffer stands for.\<close>

definition queue_put :: "nat \<Rightarrow> item \<Rightarrow> item list \<Rightarrow> int \<times> item list" where
  "queue_put cap it q =
     (if length (concat (map item_words (q @ [it]))) \<le> cap then (0, q @ [it]) else (- EMSGSIZE, q))"

definition queue_get :: "u8 option \<Rightarrow> item list \<Rightarrow> item_result \<times> item list" where
  "queue_get room q =
     (case q of
        [] \<Rightarrow> (ItemErr (- EAGAIN) None, [])
      | (type, value, data) # r \<Rightarrow>
          (case room of
             None \<Rightarrow> (Item type value (of_nat (length data)) [], r)
           | Some m \<Rightarrow> if unat m < length data then (ItemErr (- EMSGSIZE) (Some (of_nat (length data))), q)
                        else (Item type value (of_nat (length data)) data, r)))"

lemma stretch_write: "n < length xs \<Longrightarrow> stretch (xs[(h + n) mod length xs := x]) h (Suc n) = stretch xs h n @ [x]"
  using stretch_outside [of n n xs h x] by (cases "xs = []") (simp_all add: stretch_Suc)

lemma item_shape_bounds:
  assumes "item_shape (2 ^ 31) b"
  shows "0 < unat (rb_size b)" "unat (rb_size b) \<le> 2 ^ 31" "unat (head b) < 2 ^ 31" "length (buf32 b) = unat (rb_size b)"
    "unat (head b) \<le> unat (tail b)" "unat (tail b) \<le> unat (head b) + unat (rb_size b)"
  using assms ix_shape_bounds [of b] by (simp_all add: item_shape_def ix_shape_def)

lemma item_put_loop_spec:
  assumes "item_shape (2 ^ 31) b" "unat (tail b) - unat (head b) + Suc i + length xs \<le> unat (rb_size b)"
  shows "\<exists>ys. item_put_loop (of_nat i) xs b = b\<lparr>buf32 := ys\<rparr> \<and> length ys = unat (rb_size b)
    \<and> stretch ys (unat (head b)) (unat (tail b) - unat (head b) + Suc i + length xs) =
        stretch (buf32 b) (unat (head b)) (unat (tail b) - unat (head b) + Suc i) @ xs"
  using assms
proof (induction xs arbitrary: i b)
  case Nil
  then show ?case by (intro exI [of _ "buf32 b"]) (simp add: item_shape_bounds)
next
  case (Cons x xs)
  note bounds = item_shape_bounds [OF Cons.prems(1)]
  let ?n = "unat (tail b) - unat (head b) + Suc i" and ?N = "unat (rb_size b)"
  let ?b = "b\<lparr>buf32 := (buf32 b)[unat (rb_mod b (of_nat i + tail b + 1)) := x]\<rparr>"
  have i: "i < ?N" using Cons.prems(2) by simp
  have "unat (of_nat i + tail b + 1) = unat (head b) + ?n"
  proof -
    have "unat (of_nat i :: u32) = i" using i bounds(2) by (simp add: unsigned_of_nat take_bit_nat_eq_self)
    moreover have "i + unat (tail b) + 1 < 2 ^ 32" using Cons.prems(2) bounds by simp
    ultimately show ?thesis using bounds(5) by (simp add: unat_plus)
  qed
  then have place: "unat (rb_mod b (of_nat i + tail b + 1)) = (unat (head b) + ?n) mod length (buf32 b)"
    using rb_mod_spec [of "2 ^ 31" b] Cons.prems(1) bounds(4) by (simp add: item_shape_def)
  have ok: "item_shape (2 ^ 31) ?b" using Cons.prems(1) by (simp add: item_shape_def ix_shape_def)
  obtain ys where ys: "item_put_loop (of_nat (Suc i)) xs ?b = ?b\<lparr>buf32 := ys\<rparr>" "length ys = ?N"
    "stretch ys (unat (head b)) (unat (tail b) - unat (head b) + Suc (Suc i) + length xs) =
        stretch (buf32 ?b) (unat (head b)) (Suc ?n) @ xs"
    using Cons.IH [OF ok, of "Suc i"] Cons.prems(2) by auto
  have "stretch (buf32 ?b) (unat (head b)) (Suc ?n) = stretch (buf32 b) (unat (head b)) ?n @ [x]"
    using stretch_write [of ?n "buf32 b" "unat (head b)" x] place Cons.prems(2) bounds(4) by simp
  with ys show ?case by (intro exI [of _ ys]) (simp add: Let_def add.commute)
qed

lemma length_item_words [simp]: "length (item_words (type, value, data)) = Suc (length data)"
  by (simp add: item_words_def)

lemma item_length: "length data < 256 \<Longrightarrow> unat (of_nat (length data) :: u8) = length data"
  by (simp add: unsigned_of_nat take_bit_nat_eq_self)

lemma holds_itemsD:
  assumes "holds_items b q"
  shows "item_shape (2 ^ 31) b" "words b = concat (map item_words q)"
    "length (concat (map item_words q)) = unat (tail b) - unat (head b)"
proof -
  show "item_shape (2 ^ 31) b" and w: "words b = concat (map item_words q)" using assms by (simp_all add: holds_items_def)
  show "length (concat (map item_words q)) = unat (tail b) - unat (head b)" by (simp flip: w add: words_def)
qed

lemma item_put_spec:
  fixes ty :: u16 and v :: u8
  assumes holds: "holds_items b q" and len: "length data < 256"
  defines "res \<equiv> queue_put (unat (rb_size b)) (ty, v, data) q"
  shows "\<exists>b'. ring_buf_item_put ty v data (of_nat (length data)) b = (fst res, b')
    \<and> holds_items b' (snd res) \<and> rb_size b' = rb_size b"
proof (cases "length (concat (map item_words q)) + Suc (length data) \<le> unat (rb_size b)")
  case False
  note q = holds_itemsD [OF holds] and bounds = item_shape_bounds [OF holds_itemsD(1) [OF holds]]
  have "unat (ring_buf_space_get b) < length data + 1"
    using False q space_get [of b] by (simp add: item_shape_def)
  then have "ring_buf_item_put ty v data (of_nat (length data)) b = (- EMSGSIZE, b\<lparr>dropped_put_count := dropped_put_count b + 1\<rparr>)"
    using item_length [OF len] by (simp add: ring_buf_item_put_def)
  moreover have "res = (- EMSGSIZE, q)" using False by (simp add: res_def queue_put_def)
  moreover have "holds_items (b\<lparr>dropped_put_count := dropped_put_count b + 1\<rparr>) q"
    using holds by (simp add: holds_items_def item_shape_def ix_shape_def words_def)
  ultimately show ?thesis by simp
next
  case True
  note q = holds_itemsD [OF holds] and bounds = item_shape_bounds [OF holds_itemsD(1) [OF holds]]
  let ?N = "unat (rb_size b)" and ?k = "unat (tail b) - unat (head b)" and ?h = "unat (head b)"
  let ?hdr = "ring_element ty (of_nat (length data)) v"
  let ?b = "b\<lparr>buf32 := (buf32 b)[unat (rb_mod b (tail b)) := ?hdr]\<rparr>"
  have k: "?k + Suc (length data) \<le> ?N" using True q by simp
  have "unat (rb_mod b (tail b)) = (?h + ?k) mod length (buf32 b)"
    using q(1) rb_mod_spec [of "2 ^ 31" b "tail b"] bounds(4,5) by (simp add: item_shape_def)
  then have hdr: "stretch (buf32 ?b) ?h (Suc ?k) = words b @ [?hdr]"
    using stretch_write [of ?k "buf32 b" ?h ?hdr] k bounds(4) by (simp add: words_def)
  have ok: "item_shape (2 ^ 31) ?b" using q(1) by (simp add: item_shape_def ix_shape_def)
  obtain ys where ys: "item_put_loop 0 data ?b = ?b\<lparr>buf32 := ys\<rparr>" "length ys = ?N"
    "stretch ys ?h (?k + Suc 0 + length data) = stretch (buf32 ?b) ?h (?k + Suc 0) @ data"
    using item_put_loop_spec [OF ok, of 0 data] k by auto
  let ?b' = "b\<lparr>buf32 := ys, tail := tail b + ucast (of_nat (length data) :: u8) + 1\<rparr>"
  have "unat (ring_buf_space_get b) \<ge> length data + 1" using k q space_get [of b] by (simp add: item_shape_def)
  then have put: "ring_buf_item_put ty v data (of_nat (length data)) b = (0, ?b')"
    using ys(1) item_length [OF len] by (simp add: ring_buf_item_put_def)
  have t: "unat (tail b + ucast (of_nat (length data) :: u8) + 1) = unat (tail b) + length data + 1"
  proof -
    have u: "unat (ucast (of_nat (length data) :: u8) :: u32) = length data"
      using item_length [OF len] len by (simp add: unsigned_ucast_eq take_bit_nat_eq_self)
    have "unat (tail b) + length data + 1 < 2 ^ 32" using k bounds by simp
    then show ?thesis by (simp add: unat_plus u)
  qed
  have "item_shape (2 ^ 31) ?b'" using q(1) ys(2) t k bounds by (simp add: item_shape_def ix_shape_def)
  moreover have "unat (tail b) + length data + 1 - ?h = ?k + Suc 0 + length data" using bounds by simp
  then have "words ?b' = words b @ item_words (ty, v, data)"
    using ys(3) hdr by (simp add: words_def t item_words_def)
  ultimately have "holds_items ?b' (q @ [(ty, v, data)])"
    using holds len by (simp add: holds_items_def)
  moreover have "res = (0, q @ [(ty, v, data)])" using True by (simp add: res_def queue_put_def)
  ultimately show ?thesis using put by simp
qed

lemma item_rewind:
  assumes ok: "item_shape (2 ^ 31 + unat (rb_size b)) b"
  shows "item_shape (2 ^ 31) (item_indexes_rewind b) \<and> words (item_indexes_rewind b) = words b
    \<and> rb_size (item_indexes_rewind b) = rb_size b"
proof (cases "head b < RING_BUFFER_MAX_SIZE")
  case True
  with ok show ?thesis
    by (simp add: item_indexes_rewind_def ring_buf_get_rewind_threshold_def item_shape_def ix_shape_def word_less_nat_alt)
next
  case False
  let ?N = "unat (rb_size b)"
  define rew where "rew = rb_size b * (RING_BUFFER_MAX_SIZE div rb_size b)"
  obtain k where k: "unat rew = Suc k * ?N" and lo: "unat rew \<le> unat (head b)" "unat (head b) - unat rew < 2 ^ 31"
    and sub: "\<And>x. unat (head b) \<le> unat x \<Longrightarrow> unat (x - rew) = unat x - unat rew"
    using rewind_index [of b] ok False unfolding rew_def item_shape_def by blast
  have o: "unat (head b) \<le> unat (tail b)" "unat (tail b) \<le> unat (head b) + ?N" "length (buf32 b) = ?N"
    using ok by (simp_all add: item_shape_def ix_shape_def)
  let ?b = "b\<lparr>tail := tail b - rew, head := head b - rew\<rparr>"
  have eq: "item_indexes_rewind b = ?b"
    using False by (simp add: item_indexes_rewind_def ring_buf_get_rewind_threshold_def rew_def Let_def)
  have "item_shape (2 ^ 31) ?b"
    using ok o lo by (simp add: item_shape_def ix_shape_def sub [OF order_refl] sub [OF o(1)], intro conjI; linarith)
  moreover have "unat (head b) = (unat (head b) - unat rew) + Suc k * length (buf32 b)" using lo k o(3) by simp
  then have "stretch (buf32 b) (unat (head b)) n = stretch (buf32 b) (unat (head b) - unat rew) n" for n
    using stretch_shift [of "buf32 b" "unat (head b) - unat rew" "Suc k" n] by simp
  then have "words ?b = words b" using lo o by (simp add: words_def sub [OF order_refl] sub [OF o(1)])
  ultimately show ?thesis by (simp add: eq)
qed

lemma words_nth:
  assumes "item_shape (2 ^ 31) b" "j < unat (tail b) - unat (head b)" "unat v = unat (head b) + j"
  shows "buf32 b ! unat (rb_mod b v) = words b ! j"
  using assms rb_mod_spec [of "2 ^ 31" b v] by (simp add: item_shape_def words_def stretch_def)

lemma item_get_spec:
  assumes holds: "holds_items b q"
  shows "\<exists>b'. ring_buf_item_get room b = (fst (queue_get room q), b')
    \<and> holds_items b' (snd (queue_get room q)) \<and> rb_size b' = rb_size b"
proof (cases q)
  case Nil
  with holds_itemsD [OF holds] item_shape_bounds [OF holds_itemsD(1) [OF holds]] have "head b = tail b"
    by (simp add: word_unat_eq_iff)
  then show ?thesis using Nil holds by (simp add: ring_buf_item_get_def ring_buf_is_empty_def queue_get_def)
next
  case (Cons it r)
  obtain ty v data where it: "it = (ty, v, data)" by (cases it)
  note qd = holds_itemsD [OF holds] and bounds = item_shape_bounds [OF holds_itemsD(1) [OF holds]]
  let ?len = "of_nat (length data) :: u8" and ?k = "unat (tail b) - unat (head b)"
  have len: "length data < 256" using holds Cons it by (simp add: holds_items_def)
  have w: "words b = (ring_element ty ?len v # data) @ concat (map item_words r)"
    using qd(2) Cons it by (simp add: item_words_def)
  have k: "?k = Suc (length data) + length (concat (map item_words r))" using qd(3) Cons it by simp
  have "head b \<noteq> tail b" using k by auto
  then have ne: "\<not> ring_buf_is_empty b" by (simp add: ring_buf_is_empty_def)
  have hdr: "buf32 b ! unat (rb_mod b (head b)) = ring_element ty ?len v"
    using words_nth [OF qd(1), of 0 "head b"] k by (simp add: w)
  have "buf32 b ! unat (rb_mod b (of_nat i + head b + 1)) = data ! i" if "i < length data" for i
  proof -
    have "unat (of_nat i :: u32) = i" using that len by (simp add: unsigned_of_nat take_bit_nat_eq_self)
    moreover have "i + unat (head b) + 1 < 2 ^ 32" using that len bounds(3) by simp
    ultimately have "unat (of_nat i + head b + 1) = unat (head b) + Suc i" by (simp add: unat_plus)
    then show ?thesis using words_nth [OF qd(1), of "Suc i"] that k by (simp add: w nth_append)
  qed
  then have data: "map (\<lambda>i. buf32 b ! unat (rb_mod b (of_nat i + head b + 1))) [0..<unat ?len] = data"
    by (intro nth_equalityI) (simp_all add: item_length [OF len])
  let ?b = "b\<lparr>head := head b + ucast ?len + 1\<rparr>"
  have h: "unat (head b + ucast ?len + 1) = unat (head b) + Suc (length data)"
  proof -
    have u: "unat (ucast ?len :: u32) = length data"
      using item_length [OF len] len by (simp add: unsigned_ucast_eq take_bit_nat_eq_self)
    have "unat (head b) + length data + 1 < 2 ^ 32" using len bounds(3) by simp
    then show ?thesis by (simp add: unat_plus u)
  qed
  have "unat (head b) + Suc (length data) \<le> unat (tail b)" "unat (head b) + Suc (length data) < 2 ^ 31 + unat (rb_size b)"
    using k bounds by linarith+
  then have "item_shape (2 ^ 31 + unat (rb_size ?b)) ?b"
    using qd(1) h by (simp add: item_shape_def ix_shape_def)
  note rw = item_rewind [OF this]
  have "unat (tail b) - Suc (unat (head b) + length data) = length (concat (map item_words r))" using k by linarith
  then have "words b = stretch (buf32 b) (unat (head b)) (Suc (length data)) @ words ?b"
    using stretch_add [of "buf32 b" "unat (head b)" "Suc (length data)" "length (concat (map item_words r))"] k
    by (simp add: words_def h)
  then have "words ?b = drop (Suc (length data)) (words b)" by simp
  then have "words ?b = concat (map item_words r)" by (simp add: w)
  then have rest: "holds_items (item_indexes_rewind ?b) r" using rw holds Cons by (simp add: holds_items_def)
  have get: "ring_buf_item_get room b =
      (if (case room of Some r \<Rightarrow> r < ?len | None \<Rightarrow> False) then (ItemErr (- EMSGSIZE) (Some ?len), b)
       else (Item ty v ?len (if room = None then [] else data), item_indexes_rewind ?b))"
    unfolding ring_buf_item_get_def if_not_P [OF ne] hdr Let_def ring_element_fields data ..
  have lt: "m < ?len \<longleftrightarrow> unat m < length data" for m using item_length [OF len] by (simp add: word_less_nat_alt)
  show ?thesis
    unfolding get queue_get_def Cons it lt using rest rw holds Cons it by (cases room) auto
qed

subsection \<open>A queue of items\<close>

text \<open>A sequence of calls on a ring buffer and on the queue, with all their results.\<close>

datatype item_call =
    PutItem u16 u8 "u32 list"
  | GetItem "u8 option"

fun item_calls :: "item_call list \<Rightarrow> ring_buf \<Rightarrow> (int + item_result) list" where
  "item_calls [] b = []"
| "item_calls (PutItem type value data # cs) b =
     (let (r, b) = ring_buf_item_put type value data (of_nat (length data)) b in Inl r # item_calls cs b)"
| "item_calls (GetItem room # cs) b = (let (r, b) = ring_buf_item_get room b in Inr r # item_calls cs b)"

fun queue_calls :: "nat \<Rightarrow> item_call list \<Rightarrow> item list \<Rightarrow> (int + item_result) list" where
  "queue_calls cap [] q = []"
| "queue_calls cap (PutItem type value data # cs) q =
     (let (r, q) = queue_put cap (type, value, data) q in Inl r # queue_calls cap cs q)"
| "queue_calls cap (GetItem room # cs) q = (let (r, q) = queue_get room q in Inr r # queue_calls cap cs q)"

fun call_fits :: "item_call \<Rightarrow> bool" where
  "call_fits (PutItem type value data) \<longleftrightarrow> length data < 256"
| "call_fits (GetItem room) \<longleftrightarrow> True"

lemma item_calls_queue:
  "holds_items b q \<Longrightarrow> list_all call_fits cs \<Longrightarrow> item_calls cs b = queue_calls (unat (rb_size b)) cs q"
proof (induction cs arbitrary: b q)
  case (Cons c cs)
  show ?case
  proof (cases c)
    case (PutItem ty v data)
    with Cons.prems obtain b' where "ring_buf_item_put ty v data (of_nat (length data)) b =
        (fst (queue_put (unat (rb_size b)) (ty, v, data) q), b')"
      "holds_items b' (snd (queue_put (unat (rb_size b)) (ty, v, data) q))" "rb_size b' = rb_size b"
      using item_put_spec [OF Cons.prems(1), of data ty v] by auto
    with PutItem Cons show ?thesis by (auto split: prod.splits)
  next
    case (GetItem room)
    obtain b' where "ring_buf_item_get room b = (fst (queue_get room q), b')"
      "holds_items b' (snd (queue_get room q))" "rb_size b' = rb_size b"
      using item_get_spec [OF Cons.prems(1), of room] by auto
    with GetItem Cons show ?thesis by (auto split: prod.splits)
  qed
qed simp

text \<open>
  (C39) In item mode a ring buffer is a bounded queue of items: whatever is put and got, in whatever order, all
  results, the items returned with their type, value and words, the refusals for want of space and
  of a large enough array and the empty queue, are those of a list of items in which
  each takes one word more than its data.
\<close>

theorem ring_items_queue:
  assumes "sz \<noteq> 0" "sz \<le> RING_BUFFER_MAX_SIZE" "length data32 = unat sz" "list_all call_fits cs"
  shows "item_calls cs (ring_buf_init sz data32 data8) = queue_calls (unat sz) cs []"
proof -
  have "holds_items (ring_buf_init sz data32 data8) []"
    using assms(1-3) by (simp add: holds_items_def item_shape_def ix_shape_def words_def ring_buf_init_def stretch_def)
  from item_calls_queue [OF this assms(4)] show ?thesis by (simp add: ring_buf_init_def)
qed

theorem ring_items_queue_witness:
  "item_calls [PutItem 1 2 [10, 11], PutItem 3 4 [12], GetItem (Some 1), GetItem (Some 2), PutItem 5 6 [13], GetItem None]
     (ring_buf_init 5 [0, 0, 0, 0, 0] []) =
   [Inl 0, Inl 0, Inr (ItemErr (- EMSGSIZE) (Some 2)), Inr (Item 1 2 2 [10, 11]), Inl 0, Inr (Item 3 4 1 [])]"
  by (subst ring_items_queue) (simp_all add: queue_put_def queue_get_def item_words_def)

end
