(* ===== verification/Spec2Isabelle.thy ===== *)
theory Spec2Isabelle
  imports Prelude Timeout Sched Poll WaitObj Sem Stack MsgQ MemSlab Mutex Sx12xx LoraEval Lses Lres Phone Hex Crc RingBuf
begin

text \<open>
  A model of the LoRa evaluation system and of the kernel services under it.

  The system. Two boards with a LoRa radio and a phone measure radio links. The phone keeps the experiments;
  for each it sends the number, interval and length of messages and, as bit masks, the frequencies, bandwidths,
  spreading factors, coding rates and powers to try over Bluetooth to the receiving board. The receiver passes the
  settings on by radio, the sender acknowledges them with the same bytes, and after an agreed delay both go through
  all combinations on their own clocks. The receiver knows from the time which message to expect, compares, and
  notifies the phone, which logs. An explore mode sends single messages, loops and pings. The boards run Zephyr.

  The theories, from the bottom up.

  \<^item> \<open>Prelude\<close>: C integers as words, errno values, timeouts, the locale \<open>invariant_system\<close>.
  \<^item> \<open>Timeout\<close> (\<open>kernel/timeout.c\<close>): the delta list of timeouts; adding, aborting and announcing
    are operations on absolute deadlines. \<open>expiry_handler\<close> is the contract of what runs at expiry.
  \<^item> \<open>Sched\<close> (\<open>kernel/sched.c\<close>, \<open>ksched.h\<close>, \<open>timeout_q.h\<close>): threads, run queue, wait queues, pending, waking,
    sleeping, priorities, time slices, suspension, abort and join. Every sequence of them keeps \<open>kernel_wf\<close>;
    a thread that blocks gives way to the best ready one; an announcement expires exactly the due threads.
  \<^item> \<open>Poll\<close> (\<open>kernel/poll.c\<close>): what objects call when they become available, and poll signals.
  \<^item> \<open>WaitObj\<close>: the locales of an object with a wait queue. \<open>wait_object\<close> has an invariant that
    operations, timeouts of waiters and other kernel activity keep, \<open>simulation\<close> an abstract run, \<open>container\<close> a
    bounded list. \<open>Sem\<close>, \<open>Stack\<close>, \<open>MsgQ\<close>, \<open>MemSlab\<close> and \<open>Mutex\<close> (the files of these names in \<open>kernel/\<close>)
    model the objects, the last four as instances of these locales: a bounded stack, a bounded queue, an
    allocator that never hands out a block twice, and a lock with one owner.
  \<^item> \<open>RingBuf\<close>, \<open>Hex\<close>, \<open>Crc\<close> (\<open>lib/os\<close>): queues of bytes and of items over wrapping indices, hexadecimal and
    decimal text, checksums as bitwise division.
  \<^item> \<open>Sx12xx\<close> (\<open>drivers/lora\<close>): the radio driver. The radio library is outside the repository: calls to it are
    effects in the list \<open>calls\<close>, and a script says which packets arrive when.
  \<^item> \<open>LoraEval\<close>: channels, payload, message format, time on air, and the locale \<open>sweep_loop\<close> of the nested
    loops over bit masks. \<open>Lses\<close> and \<open>Lres\<close> (\<open>subsys/bluetooth/services\<close>): the sender and the receiver, all
    their write handlers and threads, both instances of \<open>sweep_loop\<close>.
  \<^item> \<open>Phone\<close> (\<open>LoRaVisual\<close>): form, stored row, summary, settings, notifications, log.

  This theory puts sender, receiver and phone together: the same plan on both boards, the recognition of a
  message sent in time, the acknowledged settings, the plan the phone announces, and the row it logs.

  State and effects. A component's state is a record; an operation returns it updated. What leaves the program
  (radio calls, notifications, starting threads, sleeping) is appended to \<open>calls\<close>, and so is every access outside an
  array, as \<open>OutOfBounds\<close>; bytes read there come from the argument \<open>junk\<close>. A blocking kernel call returns \<open>None\<close> when
  the caller was switched out, and a second definition gives what it does when it runs again. Interleavings are
  sequences of operations, timeouts and kernel steps. A Java method ends with a value, a toast or an exception.

  Loops. Counting loops are recursive functions, and those of the ring buffer end because
  the size left decreases. The loop of a clock announcement carries fuel, because a handler may add timeouts; for threads, whose
  handler adds none, more fuel than there are timeouts is enough, and the theorems show the result. The four loops that wait for the radio (\<open>lses_wait_start\<close>, \<open>lses_await_delay\<close>,
  \<open>lres_await_ack\<close>, \<open>lres_receive_loop\<close>) are partial functions with \<open>None\<close> for running forever; that an experiment ends,
  on either board, is proved and not assumed, from what arrives.

  Assumptions. The configuration is that of \<open>build/zephyr/.config\<close>: one processor, no user mode, dumb queues,
  32768 ticks a second. Spin locks, logging and tracing have no effect. The delivery of a packet, the time
  the radio takes, the rows of the database and the decoding of text are arguments; hypotheses on them are named
  in the theorems (\<open>row_stored\<close>, \<open>decodes_ascii\<close>) and hold in the witnesses.

  Not modelled. The call \<open>k_poll\<close> and work items triggered by events, whose state spans the caller's stack; thread
  creation, timers, work queues, pipes, mailboxes, memory pools and user mode, which the evaluation programs use
  only to start threads; the Bluetooth stack, of which the services only use the notification; the radio library; boards,
  architecture and devicetree, which are registers, assembly and generated code; other drivers and
  subsystems, which the evaluation programs do not call; the phone's views, positions, weather, scanning and
  upload, which are calls of the platform; plots, scripts and tests.
\<close>

section \<open>Sender and receiver together\<close>

text \<open>
  (C6) Sender and receiver, given the same settings, go through the same combinations in the same
  order: the radio settings of the sender's sweep and those of the receiver's, whatever the
  latter receives meanwhile, are those of one plan, for sending and for receiving.
\<close>

theorem same_plan:
  fixes ws :: "'a lses_scheme" and s :: "('b lres_scheme) lres_vars"
  assumes "10 \<le> unat (data ! 2)" "rx_sweeping data pre [] s"
  shows "\<exists>ws' s'. lses_run_sweep data ws = Some ws' \<and> lres_sweep data d s = Some s'
    \<and> filter is_setup (calls ws') = filter is_setup (calls ws)
        @ concat (map (\<lambda>vs. config_effects (combo_config (preamble_len (config ws)) True vs)) (combos data))
    \<and> filter notable (calls (env s')) = filter notable (calls (env s))
        @ concat (map (\<lambda>vs. config_effects (combo_config pre False vs)) (combos data))"
proof -
  obtain ws' where ws': "lses_run_sweep data ws = Some ws'"
    "calls ws' = calls ws @ concat (map (combo_effects data (preamble_len (config ws))) (combos data))"
    using run_sweep_keeps [OF assms(1)] by blast
  have msgs: "concat (map (\<lambda>n. filter is_setup (message_effects data toa vs n)) ns) = []" for toa vs ns
    by (simp add: message_effects_def)
  have "filter is_setup (combo_effects data p vs) = config_effects (combo_config p True vs)" for p vs
    by (simp add: combo_effects_def Let_def filter_concat_map msgs)
  then have "filter is_setup (calls ws') = filter is_setup (calls ws)
      @ concat (map (\<lambda>vs. config_effects (combo_config (preamble_len (config ws)) True vs)) (combos data))"
    by (simp add: ws'(2) filter_concat_map)
  moreover obtain s' where "lres_sweep data d s = Some s'" "filter notable (calls (env s')) =
      filter notable (calls (env s)) @ concat (map (\<lambda>vs. config_effects (combo_config pre False vs)) (combos data))"
    using lres_loop.sweep_trace [OF assms(2), where data = data and d = d] by (auto simp: lres_sweep_bits)
  ultimately show ?thesis using ws'(1) by blast
qed

theorem same_plan_witness:
  "\<exists>ws' s'. lses_run_sweep [1, 1, 12, 0, 1, 1, 3, 1, 1] (boot_lses []) = Some ws'
     \<and> lres_sweep [1, 1, 12, 0, 1, 1, 3, 1, 1] 1 (lres_start (boot_lres [] [])) = Some s'
     \<and> length (filter is_setup (calls ws')) = 4 \<and> length (filter notable (calls (env s'))) = 4"
proof -
  let ?data = "[1, 1, 12, 0, 1, 1, 3, 1, 1]"
  have cs: "combos ?data = [[0, 0, 0, 0, 0], [0, 0, 1, 0, 0]]" by (simp add: combos_def masks_def bit_set_def upt_rec)
  have "rx_sweeping ?data (preamble_len (config (boot_lres [] []))) [] (lres_start (boot_lres [] []))"
    by (rule start_sweeping) (simp_all add: boot_lres_listening plain_def)
  from same_plan [OF _ this, of "boot_lses []" 1] show ?thesis
    by (auto simp: cs lres_start_def config_effects_def)
qed

text \<open>The message number is the number of whole intervals since the first message was due.\<close>

lemma msg_number_window:
  assumes "interval \<noteq> 0" "n < 65536"
    and lo: "4000 + (if first then 1000 * uint d else 0) + int n * (uint interval * 1000) \<le> since"
    and hi: "since < 4000 + (if first then 1000 * uint d else 0) + (int n + 1) * (uint interval * 1000)"
  shows "fst (lres_msg_number interval d first (1000 + since) w) = of_nat n"
proof -
  let ?i = "uint interval * 1000" and ?t = "since - (if first then 1000 * uint d else 0) - 4000"
  have i: "0 < ?i" using assms(1) by (simp add: word_neq_0_conv word_less_def)
  have "0 \<le> int n * ?i" using i by simp
  then have t: "0 \<le> ?t" "int n * ?i \<le> ?t" "?t < (int n + 1) * ?i" using lo hi by linarith+
  have "?t div ?i = int n"
    using t(2,3) i by (intro int_div_pos_eq [of _ _ _ "?t - int n * ?i"]) (simp_all add: algebra_simps)
  then have "?t sdiv ?i = int n" using t(1) i by (auto simp: signed_divide_int_def sgn_if)
  then show ?thesis using assms(1) by (cases first) (simp_all add: lres_msg_number_def Let_def)
qed

text \<open>
  (C2) A message of the sender that reaches the receiver unchanged, while the receiver tests the
  same combination and in the interval that belongs to the message, is reported to the phone as
  received correctly: no bit error, the letter \<open>t\<close>, and the number the sender gave it. The
  interval of message \<open>n\<close> starts four seconds (and the start delay, in the first iteration)
  plus \<open>n\<close> intervals after the receiver turned to the combination.
\<close>

theorem message_recognised:
  fixes s :: "('a lres_scheme) lres_vars"
  assumes at: "rx_sweeping data pre vs s" "length vs = 5"
    and "data ! 1 \<noteq> 0" "n < unat (data ! 0)"
    and sent: "combo_sends data vs ! n = Send packet len"
    and got: "take (unat (data ! 2)) (transmission_data s) = packet"
    and time: "4000 + (if first_iteration s then 1000 * uint d else 0) + int n * (uint (data ! 1) * 1000) \<le> since"
      "since < 4000 + (if first_iteration s then 1000 * uint d else 0) + (int n + 1) * (uint (data ! 1) * 1000)"
  shows "calls (env (lres_judge data d (1000 + since) (rssi, snr) s)) = calls (env s) @
    [Notify [- 1, ucast (- rssi), snr, 0],
     Notify (take 9 packet @ [116, iteration s, of_nat n, 46] @ take 7 (drop 13 (transmission_data s)))]"
proof -
  have packet: "packet = message vs n (unat (data ! 2))" using sent assms(4) by (simp add: combo_sends_def)
  have n: "n < 256" using assms(4) unat_u8_le [of "data ! 0"] by simp
  then have number: "fst (lres_msg_number (data ! 1) d (first_iteration s) (1000 + since) (env s)) = of_nat n"
    using msg_number_window [OF assms(3) _ time] by simp
  have s: "at_combo pre False vs (compare_data s) (config (env s))" "length (compare_data s) = 255"
    "length (transmission_data s) = 255" "10 \<le> unat (data ! 2)"
    using at(1) by (simp_all add: rx_sweeping_def)
  have "take 9 (transmission_data s) = take 9 (take (unat (data ! 2)) (transmission_data s))"
    using s(4) by (simp add: min_def)
  then have "take 9 (transmission_data s) = take 9 packet" by (simp only: got)
  then show ?thesis
    using judge_eq [OF s(1) at(2) s(2-4) assms(3) number n packet got [symmetric]] by simp
qed

theorem message_recognised_witness:
  "calls (env (lres_judge [2, 1, 12, 0, 1, 1, 1, 1, 1] 1 6500 (- 61, 5)
     ((lres_start ((boot_lres [] [])\<lparr>config := combo_config 8 False [0, 0, 0, 0, 0]\<rparr>))
       \<lparr>compare_data := [48, 48, 48, 48, 48, 95] @ replicate 249 0,
        transmission_data := message [0, 0, 0, 0, 0] 0 12 @ replicate 243 0\<rparr>))) =
   [Notify [- 1, 61, 5, 0], Notify ([48, 48, 48, 48, 48, 95, 48, 48, 48, 116, 0, 0, 46] @ replicate 7 0)]"
proof -
  let ?data = "[2, 1, 12, 0, 1, 1, 1, 1, 1] :: u8 list" and ?m = "message [0, 0, 0, 0, 0] 0 12"
  let ?w = "(boot_lres [] [])\<lparr>config := combo_config 8 False [0, 0, 0, 0, 0]\<rparr>"
  let ?s = "(lres_start ?w)\<lparr>compare_data := [48, 48, 48, 48, 48, 95] @ replicate 249 0,
        transmission_data := ?m @ replicate 243 0\<rparr>"
  have m: "length ?m = 12" by (simp add: length_message)
  have "listening 0 ?w" using boot_lres_listening by (simp add: listening_def)
  then have ok: "rx_sweeping ?data 8 [0, 0, 0, 0, 0] ?s"
    by (simp add: rx_sweeping_def at_combo_def lres_start_def combo_config_def nth_append nth_Cons' m plain_def)
  have t: "take 9 ?m = [48, 48, 48, 48, 48, 95, 48, 48, 48]" by (simp add: message_def)
  have sent: "combo_sends ?data [0, 0, 0, 0, 0] ! 0 = Send ?m 12" by (simp add: combo_sends_def upt_rec)
  show ?thesis
    using message_recognised [OF ok _ _ _ sent, of 1 5500 "- 61" 5] m t
    by (simp add: lres_start_def)
qed

lemma filter_notify_told: "filter (\<lambda>e. is_told e \<and> is_notify e) es = filter is_notify es"
  by (rule filter_cong) (auto simp: is_told_def)



section \<open>Phone and boards\<close>

lemma atoi_numeral:
  assumes "0 \<le> n" "jk = [] \<or> \<not> isdigit (hd jk)"
  shows "atoi (getBytes (to_text n) @ jk) = n"
proof -
  have stops: "atoi_digits a jk = a" for a using assms(2) by (cases jk) auto
  have digit: "isdigit (of_nat (of_char c)) \<and> uint (of_nat (of_char c) :: u8) = int (of_char c)"
    if "48 \<le> (of_char c :: nat)" "(of_char c :: nat) \<le> 57" for c
    using that by (simp add: isdigit_def word_le_nat_alt unsigned_of_nat take_bit_nat_eq_self uint_nat)
  have digits: "digits_value a s = Some v \<Longrightarrow> atoi_digits (- int a) (getBytes s @ jk) = - int v" for a s v
  proof (induction s arbitrary: a)
    case (Cons c s)
    then have c: "48 \<le> (of_char c :: nat)" "(of_char c :: nat) \<le> 57" "digits_value (10 * a + (of_char c - 48)) s = Some v"
      by (auto split: if_splits)
    have "10 * - int a - (int (of_char c) - 48) = - int (10 * a + (of_char c - 48))" using c(1) by simp
    then have "atoi_digits (10 * - int a - (int (of_char c) - 48)) (getBytes s @ jk) = - int v" using Cons.IH [OF c(3)] by (simp only:)
    then show ?case using digit [OF c(1,2)] by (simp add: getBytes_def)
  qed (simp add: getBytes_def stops)
  obtain c r where t: "to_text n = c # r" "48 \<le> (of_char c :: nat)" "(of_char c :: nat) \<le> 57"
    using assms(1) nat_text_digits [of "nat n"] by (cases "nat_text (nat n)") (auto simp: to_text_def)
  have val: "digits_value 0 (c # r) = Some (nat n)" using digits_value_text [of "nat n"] assms(1) t(1) by (simp add: to_text_def)
  have first: "isdigit (of_nat (of_char c))" using digit [OF t(2,3)] by simp
  then have "\<not> isspace (of_nat (of_char c))" "of_nat (of_char c) \<noteq> (45 :: u8)" "of_nat (of_char c) \<noteq> (43 :: u8)"
    by (auto simp: isdigit_def isspace_def word_le_nat_alt)
  then show ?thesis using digits [OF val] assms(1) by (simp add: atoi_def t(1) getBytes_def)
qed

lemma nat_text_short: "n < 10 ^ k \<Longrightarrow> 0 < k \<Longrightarrow> length (nat_text n) \<le> k"
proof (induction k arbitrary: n)
  case (Suc k)
  show ?case
  proof (cases "n < 10")
    case False
    then have "0 < k" using Suc.prems(1) by (cases k) auto
    moreover have "n div 10 < 10 ^ k" using Suc.prems(1) by (simp add: less_mult_imp_div_less mult.commute)
    ultimately show ?thesis using Suc.IH [of "n div 10"] False by (simp add: nat_text.simps [of n])
  qed (simp add: nat_text.simps [of n])
qed simp





end
